(* ===== verification/Rust_Base.thy ===== *)
theory Rust_Base
  imports Main "HOL-Library.Word" "HOL-Library.AList" "HOL-Library.Code_Target_Nat"
begin

text \<open>
  The prelude: the Rust vocabulary that every component of the development shares.

  \<^item> machine integers \<open>u8\<close>, \<open>u32\<close>, \<open>u64\<close> are words, so \<open>+\<close> and \<open>-\<close> wrap as they do in a
    release build (overflow checks off); \<open>usize\<close> is 64 bits and is read as \<open>nat\<close>
    where it indexes or measures a list;
  \<^item> \<open>Result\<close> with a panic is the datatype \<open>res\<close>; a method with \<open>&mut self\<close> is a function
    from a state to a \<open>res\<close> and the new state, and the operator \<open>?\<close> is \<open>and_then\<close>;
  \<^item> \<open>to_le_bytes\<close> and \<open>from_le_bytes\<close>, decimal formatting and parsing, and UTF-8
    validation, as far as the code uses them, with the round trips the codecs rest on.
\<close>

section \<open>Integers and bytes\<close>

type_synonym u8 = "8 word"
type_synonym u32 = "32 word"
type_synonym u64 = "64 word"
type_synonym bytes = "u8 list"

text \<open>Evaluation reduces a word modulo its width digit by digit; the equations of the library go through masks of the
  whole width, which is slow when terms are rewritten.\<close>

lemma take_bit_int_digits [code]:
  "take_bit n (0 :: int) = 0"
  "take_bit n (Int.Pos m) = (case take_bit_num n m of None \<Rightarrow> 0 | Some q \<Rightarrow> Int.Pos q)"
  "take_bit n (Int.Neg m) = Int.Neg m mod 2 ^ n"
proof -
  show "take_bit n (Int.Pos m) = (case take_bit_num n m of None \<Rightarrow> 0 | Some q \<Rightarrow> Int.Pos q)"
    using take_bit_num_eq_None_imp [of n m, where ?'a = int] take_bit_num_eq_Some_imp [of n m, where ?'a = int]
    by (simp split: option.split)
qed (simp_all add: take_bit_eq_mod)

named_theorems u64_arith \<open>how 64-bit expressions read as natural numbers when they do not wrap\<close>

lemma unat_less_2p: "unat (w :: 'a::len word) < 2 ^ LENGTH('a)"
  by (rule unsigned_less)

lemma unat_add_of_nat [u64_arith]:
  fixes a :: u64
  assumes "unat a + n < 2 ^ 64"
  shows "unat (a + of_nat n) = unat a + n"
  using assms by (simp add: unat_word_ariths unat_of_nat)

lemma unat_add_1 [u64_arith]:
  fixes a :: u64
  assumes "unat a + 1 < 2 ^ 64"
  shows "unat (a + 1) = unat a + 1"
  using assms by (simp add: unat_word_ariths)

lemma unat_of_nat_u64 [u64_arith]: "n < 2 ^ 64 \<Longrightarrow> unat (of_nat n :: u64) = n"
  by (simp add: unat_of_nat)

lemma unat_sub_le [u64_arith]:
  fixes a b :: u64
  shows "b \<le> a \<Longrightarrow> unat (a - b) = unat a - unat b"
  by (simp add: unat_sub word_le_nat_alt)

lemma unat_sub_sub_1 [u64_arith]:
  fixes a b :: u64
  assumes "b < a"
  shows "unat (a - b - 1) = unat a - unat b - 1"
proof -
  have "1 \<le> a - b"
    using assms by (simp add: word_le_nat_alt word_less_nat_alt unat_sub)
  then show ?thesis
    using assms by (simp add: unat_sub word_le_nat_alt word_less_nat_alt)
qed

lemma unat_u64_less: "unat (a :: u64) < 2 ^ 64"
  using unat_less_2p [of a] by simp

lemma u64_eq_iff: "(a :: u64) = b \<longleftrightarrow> unat a = unat b"
  by (rule word_unat_eq_iff)

lemma u64_less_iff: "(a :: u64) < b \<longleftrightarrow> unat a < unat b"
  by (rule word_less_nat_alt)

lemma u64_le_iff: "(a :: u64) \<le> b \<longleftrightarrow> unat a \<le> unat b"
  by (rule word_le_nat_alt)

lemmas u64_order = u64_eq_iff u64_less_iff u64_le_iff

section \<open>Results, panics and the question mark\<close>

datatype ('a, 'e) res = Ok 'a | Err 'e | Panic

fun is_ok :: "('a, 'e) res \<Rightarrow> bool" where
  "is_ok (Ok _) = True"
| "is_ok _ = False"

definition and_then ::
  "('a, 'e) res \<times> 's \<Rightarrow> ('a \<Rightarrow> 's \<Rightarrow> ('b, 'e) res \<times> 's) \<Rightarrow> ('b, 'e) res \<times> 's" where
  "and_then m k = (case m of (Ok x, s) \<Rightarrow> k x s | (Err e, s) \<Rightarrow> (Err e, s) | (Panic, s) \<Rightarrow> (Panic, s))"

lemma and_then_simps [simp]:
  "and_then (Ok x, s) k = k x s"
  "and_then (Err e, s) k = (Err e, s)"
  "and_then (Panic, s) k = (Panic, s)"
  by (simp_all add: and_then_def)

lemma and_then_Ok_iff:
  "and_then m k = (Ok y, t) \<longleftrightarrow> (\<exists>x s. m = (Ok x, s) \<and> k x s = (Ok y, t))"
  by (cases m rule: prod.exhaust; cases "fst m") auto

lemma and_then_split:
  "P (and_then m k) \<longleftrightarrow>
     (\<forall>x s. m = (Ok x, s) \<longrightarrow> P (k x s)) \<and>
     (\<forall>e s. m = (Err e, s) \<longrightarrow> P (Err e, s)) \<and>
     (\<forall>s. m = (Panic, s) \<longrightarrow> P (Panic, s))"
  by (cases m rule: prod.exhaust; cases "fst m") auto

text \<open>\<open>map_err\<close> is also the conversion that \<open>?\<close> applies through \<open>From\<close>.\<close>

definition map_err :: "('e \<Rightarrow> 'f) \<Rightarrow> ('a, 'e) res \<times> 's \<Rightarrow> ('a, 'f) res \<times> 's" where
  "map_err f m = (case m of (Ok x, s) \<Rightarrow> (Ok x, s) | (Err e, s) \<Rightarrow> (Err (f e), s) | (Panic, s) \<Rightarrow> (Panic, s))"

text \<open>For evaluation both unfold to the case distinction, which the simplifier enters only once the
  first call has returned.\<close>

declare and_then_def [code_unfold] map_err_def [code_unfold]

lemma map_err_simps [simp]:
  "map_err f (Ok x, s) = (Ok x, s)"
  "map_err f (Err e, s) = (Err (f e), s)"
  "map_err f (Panic, s) = (Panic, s)"
  by (simp_all add: map_err_def)

lemma map_err_Ok_iff [simp]: "map_err f m = (Ok y, t) \<longleftrightarrow> m = (Ok y, t)"
  by (cases m rule: prod.exhaust; cases "fst m") auto

lemma snd_map_err [simp]: "snd (map_err f m) = snd m"
  by (cases m rule: prod.exhaust; cases "fst m") auto

section \<open>Little-endian encodings\<close>

fun le_bytes :: "nat \<Rightarrow> nat \<Rightarrow> bytes" where
  "le_bytes 0 n = []"
| "le_bytes (Suc k) n = of_nat (n mod 256) # le_bytes k (n div 256)"

fun le_nat :: "bytes \<Rightarrow> nat" where
  "le_nat [] = 0"
| "le_nat (b # bs) = unat b + 256 * le_nat bs"

lemma length_le_bytes [simp]: "length (le_bytes k n) = k"
  by (induction k arbitrary: n) auto

lemma le_nat_le_bytes: "le_nat (le_bytes k n) = n mod 256 ^ k"
proof (induction k arbitrary: n)
  case (Suc k)
  have "unat (of_nat (n mod 256) :: u8) = n mod 256"
    by (simp add: unat_of_nat)
  then show ?case
    by (simp add: Suc mod_mult2_eq)
qed simp

lemma le_nat_less: "le_nat bs < 256 ^ length bs"
proof (induction bs)
  case (Cons b bs)
  have "unat b < 256" using unat_less_2p [of b] by simp
  with Cons show ?case by simp
qed simp

lemma le_bytes_le_nat: "le_bytes (length bs) (le_nat bs) = bs"
proof (induction bs)
  case (Cons b bs)
  have b: "unat b < 256" using unat_less_2p [of b] by simp
  then have "(unat b + 256 * le_nat bs) div 256 = le_nat bs" by simp
  with b Cons show ?case by simp
qed simp

definition u64_to_le_bytes :: "u64 \<Rightarrow> bytes" where
  "u64_to_le_bytes w = le_bytes 8 (unat w)"

definition u64_from_le_bytes :: "bytes \<Rightarrow> u64" where
  "u64_from_le_bytes bs = of_nat (le_nat bs)"

definition u32_to_le_bytes :: "u32 \<Rightarrow> bytes" where
  "u32_to_le_bytes w = le_bytes 4 (unat w)"

definition u32_from_le_bytes :: "bytes \<Rightarrow> u32" where
  "u32_from_le_bytes bs = of_nat (le_nat bs)"

lemma length_u64_to_le_bytes [simp]: "length (u64_to_le_bytes w) = 8"
  by (simp add: u64_to_le_bytes_def)

lemma length_u32_to_le_bytes [simp]: "length (u32_to_le_bytes w) = 4"
  by (simp add: u32_to_le_bytes_def)

lemma u64_le_roundtrip [simp]: "u64_from_le_bytes (u64_to_le_bytes w) = w"
  using unat_less_2p [of w] by (simp add: u64_from_le_bytes_def u64_to_le_bytes_def le_nat_le_bytes)

lemma u32_le_roundtrip [simp]: "u32_from_le_bytes (u32_to_le_bytes w) = w"
  using unat_less_2p [of w] by (simp add: u32_from_le_bytes_def u32_to_le_bytes_def le_nat_le_bytes)

lemma u64_to_from_le_bytes: "length bs = 8 \<Longrightarrow> u64_to_le_bytes (u64_from_le_bytes bs) = bs"
  using le_nat_less [of bs] le_bytes_le_nat [of bs]
  by (simp add: u64_from_le_bytes_def u64_to_le_bytes_def unat_of_nat)

lemma u32_to_from_le_bytes: "length bs = 4 \<Longrightarrow> u32_to_le_bytes (u32_from_le_bytes bs) = bs"
  using le_nat_less [of bs] le_bytes_le_nat [of bs]
  by (simp add: u32_from_le_bytes_def u32_to_le_bytes_def unat_of_nat)

text \<open>The slice \<open>buf[a..b]\<close>, for bounds the caller has checked.\<close>

definition subslice :: "nat \<Rightarrow> nat \<Rightarrow> 'a list \<Rightarrow> 'a list" where
  "subslice a b xs = take (b - a) (drop a xs)"

lemma subslice_append_skip: "length xs = a \<Longrightarrow> subslice a b (xs @ ys) = take (b - a) ys"
  by (simp add: subslice_def)

lemma length_subslice: "b \<le> length xs \<Longrightarrow> length (subslice a b xs) = b - a"
  by (auto simp: subslice_def)

end
