(* ===== verification/Rust_Str.thy ===== *)
theory Rust_Str
  imports Rust_Base
begin

text \<open>
  Strings and paths as the code uses them. A Rust \<open>String\<close> is its UTF-8 bytes, and a
  \<open>char\<close> of Isabelle is a byte, so a \<open>string\<close> here is that byte sequence. A path is the
  list of its components; \<open>join\<close> appends one.
\<close>

section \<open>Bytes of a string, UTF-8 validation\<close>

definition as_bytes :: "string \<Rightarrow> bytes" where
  "as_bytes s = map (\<lambda>c. of_nat (of_char c)) s"

definition byte_chars :: "bytes \<Rightarrow> string" where
  "byte_chars bs = map (\<lambda>b. char_of (unat b)) bs"

lemma length_as_bytes [simp]: "length (as_bytes s) = length s"
  by (simp add: as_bytes_def)

lemma byte_chars_as_bytes [simp]: "byte_chars (as_bytes s) = s"
proof -
  have "char_of (unat (of_nat (of_char c) :: u8)) = c" for c
    using nat_of_char_less_256 [of c] by (simp add: unat_of_nat)
  then show ?thesis
    by (simp add: byte_chars_def as_bytes_def o_def)
qed

definition is_cont :: "nat \<Rightarrow> bool" where
  "is_cont b \<longleftrightarrow> 128 \<le> b \<and> b < 192"

text \<open>The byte sequences that \<open>String::from_utf8\<close> accepts: no overlong form, no surrogate,
  nothing past U+10FFFF.\<close>

fun utf8_valid :: "nat list \<Rightarrow> bool" where
  "utf8_valid [] = True"
| "utf8_valid (a # bs) =
     (if a < 128 then utf8_valid bs
      else if 194 \<le> a \<and> a \<le> 223 then
        (case bs of b # r \<Rightarrow> is_cont b \<and> utf8_valid r | _ \<Rightarrow> False)
      else if 224 \<le> a \<and> a \<le> 239 then
        (case bs of b # c # r \<Rightarrow>
           is_cont b \<and> is_cont c \<and> (a = 224 \<longrightarrow> 160 \<le> b) \<and> (a = 237 \<longrightarrow> b < 160) \<and> utf8_valid r
         | _ \<Rightarrow> False)
      else if 240 \<le> a \<and> a \<le> 244 then
        (case bs of b # c # d # r \<Rightarrow>
           is_cont b \<and> is_cont c \<and> is_cont d \<and> (a = 240 \<longrightarrow> 144 \<le> b) \<and> (a = 244 \<longrightarrow> b < 144) \<and>
           utf8_valid r
         | _ \<Rightarrow> False)
      else False)"

definition from_utf8 :: "bytes \<Rightarrow> string option" where
  "from_utf8 bs = (if utf8_valid (map unat bs) then Some (byte_chars bs) else None)"

text \<open>Every value of Rust's \<open>String\<close> is valid UTF-8.\<close>

definition rust_string :: "string \<Rightarrow> bool" where
  "rust_string s \<longleftrightarrow> utf8_valid (map unat (as_bytes s))"

lemma from_utf8_as_bytes: "rust_string s \<Longrightarrow> from_utf8 (as_bytes s) = Some s"
  by (simp add: from_utf8_def rust_string_def)

lemma as_bytes_byte_chars [simp]: "as_bytes (byte_chars bs) = bs"
proof -
  have "of_nat (of_char (char_of (unat b))) = b" for b :: u8
  proof -
    have "unat b mod 256 = unat b" using unat_less_2p [of b] by simp
    then show ?thesis by simp
  qed
  then show ?thesis by (simp add: as_bytes_def byte_chars_def o_def)
qed

lemma from_utf8_string: "from_utf8 bs = Some v \<Longrightarrow> rust_string v \<and> length v = length bs"
  by (auto simp: from_utf8_def rust_string_def split: if_splits) (simp add: byte_chars_def)

lemma utf8_valid_ascii: "\<forall>b \<in> set bs. b < 128 \<Longrightarrow> utf8_valid bs"
  by (induction bs) auto

section \<open>Decimal numbers\<close>

fun dec_digits :: "nat \<Rightarrow> string" where
  "dec_digits n =
     (if n < 10 then [char_of (48 + n)] else dec_digits (n div 10) @ [char_of (48 + n mod 10)])"

declare dec_digits.simps [simp del]

text \<open>\<open>{:020}\<close> pads with zeros on the left to at least \<open>w\<close> characters.\<close>

definition zero_padded :: "nat \<Rightarrow> nat \<Rightarrow> string" where
  "zero_padded w n = replicate (w - length (dec_digits n)) CHR ''0'' @ dec_digits n"

definition is_digit :: "char \<Rightarrow> bool" where
  "is_digit c \<longleftrightarrow> 48 \<le> (of_char c :: nat) \<and> (of_char c :: nat) \<le> 57"

definition digit_value :: "char \<Rightarrow> nat" where
  "digit_value c = of_char c - 48"

definition decimal_value :: "string \<Rightarrow> nat" where
  "decimal_value s = foldl (\<lambda>v c. 10 * v + digit_value c) 0 s"

text \<open>\<open>str::parse::<u64>\<close>: one leading plus sign is accepted, then at least one digit, and a
  value past \<open>u64::MAX\<close> is an error.\<close>

definition parse_u64 :: "string \<Rightarrow> u64 option" where
  "parse_u64 s =
     (let ds = (case s of c # r \<Rightarrow> if c = CHR ''+'' \<and> r \<noteq> [] then r else s | [] \<Rightarrow> s)
      in if ds \<noteq> [] \<and> list_all is_digit ds \<and> decimal_value ds < 2 ^ 64
         then Some (of_nat (decimal_value ds)) else None)"

text \<open>For evaluation: the value as an integer, whose numerals are binary.\<close>

definition decimal_int :: "string \<Rightarrow> int" where
  "decimal_int s = foldl (\<lambda>v c. 10 * v + int (digit_value c)) 0 s"

lemma decimal_int: "decimal_int s = int (decimal_value s)"
proof -
  have "foldl (\<lambda>v c. 10 * v + int (digit_value c)) (int a) s = int (foldl (\<lambda>v c. 10 * v + digit_value c) a s)" for a
  proof (induction s arbitrary: a)
    case (Cons c s)
    have "10 * int a + int (digit_value c) = int (10 * a + digit_value c)" by simp
    then show ?case unfolding foldl.simps by (simp only: Cons.IH)
  qed simp
  from this [of 0] show ?thesis by (simp add: decimal_int_def decimal_value_def)
qed

lemma parse_u64_code [code]:
  "parse_u64 s =
     (let ds = (case s of c # r \<Rightarrow> if c = CHR ''+'' \<and> r \<noteq> [] then r else s | [] \<Rightarrow> s)
      in if ds \<noteq> [] \<and> list_all is_digit ds \<and> decimal_int ds < 18446744073709551616
         then Some (of_int (decimal_int ds)) else None)"
proof -
  have "decimal_int ds < 18446744073709551616 \<longleftrightarrow> decimal_value ds < 2 ^ 64" for ds
    unfolding decimal_int by simp
  moreover have "(of_int (decimal_int ds) :: u64) = of_nat (decimal_value ds)" for ds
    unfolding decimal_int by simp
  ultimately show ?thesis by (simp add: parse_u64_def Let_def)
qed

lemma is_digit_char_of: "d < 10 \<Longrightarrow> is_digit (char_of (48 + d)) \<and> digit_value (char_of (48 + d)) = d"
  by (simp add: is_digit_def digit_value_def)

lemma is_digit_zero [simp]: "is_digit CHR ''0''" "digit_value CHR ''0'' = 0"
  by (simp_all add: is_digit_def digit_value_def)

lemma dec_digits_not_Nil [simp]: "dec_digits n \<noteq> []"
  by (subst dec_digits.simps) simp

lemma dec_digits_digits: "list_all is_digit (dec_digits n)"
proof (induction n rule: dec_digits.induct)
  case (1 n)
  then show ?case
    using is_digit_char_of [of "n mod 10"] is_digit_char_of [of n]
    by (subst dec_digits.simps) simp
qed

lemma decimal_value_snoc: "decimal_value (s @ [c]) = 10 * decimal_value s + digit_value c"
  by (simp add: decimal_value_def)

lemma decimal_value_zeros: "decimal_value (replicate k CHR ''0'' @ s) = decimal_value s"
  by (induction k) (auto simp: decimal_value_def)

lemma decimal_value_dec_digits: "decimal_value (dec_digits n) = n"
proof (induction n rule: dec_digits.induct)
  case (1 n)
  show ?case
  proof (cases "n < 10")
    case True
    then have "decimal_value (dec_digits n) = digit_value (char_of (48 + n))"
      by (subst dec_digits.simps) (simp add: decimal_value_def)
    with True show ?thesis using is_digit_char_of by simp
  next
    case False
    with 1 show ?thesis
      using is_digit_char_of [of "n mod 10"]
      by (subst dec_digits.simps) (simp add: decimal_value_snoc)
  qed
qed

lemma zero_padded_digits: "list_all is_digit (zero_padded w n)"
  using dec_digits_digits by (auto simp: zero_padded_def list_all_iff)

lemma zero_padded_not_Nil [simp]: "zero_padded w n \<noteq> []"
  by (simp add: zero_padded_def)

lemma decimal_value_zero_padded: "decimal_value (zero_padded w n) = n"
  by (simp add: zero_padded_def decimal_value_zeros decimal_value_dec_digits)

lemma zero_padded_inj: "zero_padded w m = zero_padded w n \<Longrightarrow> m = n"
  by (metis decimal_value_zero_padded)

lemma parse_u64_zero_padded [simp]: "parse_u64 (zero_padded w (unat i)) = Some i"
proof -
  obtain c r where cr: "zero_padded w (unat i) = c # r"
    by (cases "zero_padded w (unat i)") auto
  have "is_digit c"
    using zero_padded_digits [of w "unat i"] by (simp add: cr)
  then have "c \<noteq> CHR ''+''"
    by (auto simp: is_digit_def)
  then show ?thesis
    using zero_padded_digits [of w "unat i"] decimal_value_zero_padded [of w "unat i"]
      unat_u64_less [of i]
    by (auto simp: parse_u64_def cr)
qed

section \<open>Prefixes, suffixes and paths\<close>

definition strip_prefix :: "string \<Rightarrow> string \<Rightarrow> string option" where
  "strip_prefix p s = (if take (length p) s = p then Some (drop (length p) s) else None)"

definition strip_suffix :: "string \<Rightarrow> string \<Rightarrow> string option" where
  "strip_suffix q s =
     (if length q \<le> length s \<and> drop (length s - length q) s = q
      then Some (take (length s - length q) s) else None)"

lemma strip_prefix_append [simp]: "strip_prefix p (p @ s) = Some s"
  by (simp add: strip_prefix_def)

lemma strip_suffix_append [simp]: "strip_suffix q (s @ q) = Some s"
  by (simp add: strip_suffix_def)

type_synonym path = "string list"

definition path_join :: "path \<Rightarrow> string \<Rightarrow> path" where
  "path_join dir name = dir @ [name]"

definition file_name :: "path \<Rightarrow> string option" where
  "file_name p = (if p = [] then None else Some (last p))"

lemma file_name_join [simp]: "file_name (path_join d n) = Some n"
  by (simp add: file_name_def path_join_def)

lemma path_join_inj [simp]: "path_join d m = path_join d n \<longleftrightarrow> m = n"
  by (simp add: path_join_def)

text \<open>\<open>Path::extension\<close> and \<open>Path::with_extension\<close>: the extension is what follows the last
  dot, unless the dot is the first character or the name is \<open>..\<close>.\<close>

definition name_extension :: "string \<Rightarrow> string option" where
  "name_extension n =
     (let r = rev n; e = takeWhile (\<lambda>c. c \<noteq> CHR ''.'') r; rest = dropWhile (\<lambda>c. c \<noteq> CHR ''.'') r
      in if n = ''..'' \<or> length rest \<le> 1 then None else Some (rev e))"

definition name_stem :: "string \<Rightarrow> string" where
  "name_stem n =
     (case name_extension n of None \<Rightarrow> n | Some e \<Rightarrow> take (length n - length e - 1) n)"

definition with_extension :: "path \<Rightarrow> string \<Rightarrow> path" where
  "with_extension p e = (if p = [] then [] else butlast p @ [name_stem (last p) @ ''.'' @ e])"

lemma name_extension_append:
  assumes "s \<noteq> []" and "CHR ''.'' \<notin> set e" and "e \<noteq> []"
  shows "name_extension (s @ ''.'' @ e) = Some e"
proof -
  have p: "\<forall>c \<in> set (rev e). c \<noteq> CHR ''.''"
    using assms(2) by auto
  have t: "takeWhile (\<lambda>c. c \<noteq> CHR ''.'') (rev e @ CHR ''.'' # rev s) = rev e"
    using p by (subst takeWhile_append2) auto
  have d: "dropWhile (\<lambda>c. c \<noteq> CHR ''.'') (rev e @ CHR ''.'' # rev s) = CHR ''.'' # rev s"
    using p by (subst dropWhile_append2) auto
  have "s @ ''.'' @ e \<noteq> ''..''"
    using assms by (cases s; cases e) auto
  with t d assms(1) show ?thesis
    by (simp add: name_extension_def Let_def)
qed

end
