(* ===== verification/File_System.thy ===== *)
theory File_System
  imports Rust_Str
begin

text \<open>
  The part of \<open>std::fs\<close> and \<open>std::io\<close> that the code calls, as operations on an explicit
  file system.

  A file has its current bytes and the bytes that survive a loss of power: \<open>sync_all\<close>
  copies the first to the second, and \<open>power_loss\<close> goes back. Creating, renaming and
  removing a file are taken to be durable at once, the strongest assumption a program can
  make; what the code loses under it, it loses on any file system. Directories are implicit.

  Every call consumes one element of a fault schedule: \<open>Pass\<close> (or an exhausted schedule)
  lets it do what it documents, \<open>Refuse\<close> makes it fail without effect, \<open>Torn k\<close> makes a write
  fail after \<open>k\<close> bytes (and any other call without effect). A theorem for all schedules
  therefore covers an I/O error, and a crash of the process, at every call and inside every
  write.
\<close>

section \<open>Files, faults and calls\<close>

datatype io_error = NotFound | AlreadyExists | InvalidData string | OtherIo

datatype fault = Pass | Refuse | Torn nat

record fnode =
  f_content :: bytes
  f_durable :: bytes

record fs =
  files :: "(path \<times> fnode) list"
  faults :: "fault list"

type_synonym ('a, 'e) call = "fs \<Rightarrow> ('a, 'e) res \<times> fs"

type_synonym ('s, 'a, 'e) meth = "'s \<times> fs \<Rightarrow> ('a, 'e) res \<times> ('s \<times> fs)"

text \<open>A call of a component that the state holds: \<open>self.field.method(..)\<close>.\<close>

definition on_field ::
  "('s \<Rightarrow> 'f) \<Rightarrow> ('f \<Rightarrow> 's \<Rightarrow> 's) \<Rightarrow> ('f, 'a, 'e) meth \<Rightarrow> ('s, 'a, 'e) meth" where
  "on_field get put m = (\<lambda>(x, s). case m (get x, s) of (r, (y, s')) \<Rightarrow> (r, (put y x, s')))"

text \<open>A call of \<open>std::fs\<close> from a method whose state it does not change.\<close>

definition io :: "('a, 'e) call \<Rightarrow> ('s, 'a, 'e) meth" where
  "io c = (\<lambda>(x, s). case c s of (r, s') \<Rightarrow> (r, (x, s')))"

declare on_field_def [code_unfold] io_def [code_unfold]

definition io_call :: "('a, io_error) call \<Rightarrow> (nat \<Rightarrow> fs \<Rightarrow> fs) \<Rightarrow> ('a, io_error) call" where
  "io_call act torn s =
     (case faults s of
        [] \<Rightarrow> act s
      | f # fl \<Rightarrow>
          (let s' = s\<lparr>faults := fl\<rparr> in
           case f of
             Pass \<Rightarrow> act s'
           | Refuse \<Rightarrow> (Err OtherIo, s')
           | Torn k \<Rightarrow> (Err OtherIo, torn k s')))"

abbreviation healthy :: "fs \<Rightarrow> bool" where
  "healthy s \<equiv> faults s = []"

definition fs_content :: "fs \<Rightarrow> path \<rightharpoonup> bytes" where
  "fs_content s p = map_option f_content (map_of (files s) p)"

definition fs_durable :: "fs \<Rightarrow> path \<rightharpoonup> bytes" where
  "fs_durable s p = map_option f_durable (map_of (files s) p)"

definition put_file :: "path \<Rightarrow> fnode \<Rightarrow> fs \<Rightarrow> fs" where
  "put_file p f s = s\<lparr>files := AList.update p f (files s)\<rparr>"

definition power_loss :: "fs \<Rightarrow> fs" where
  "power_loss s = s\<lparr>files := map (\<lambda>(p, f). (p, f\<lparr>f_content := f_durable f\<rparr>)) (files s)\<rparr>"

section \<open>The calls\<close>

definition path_exists :: "path \<Rightarrow> fs \<Rightarrow> bool" where
  "path_exists p s = (map_of (files s) p \<noteq> None)"

definition fs_create_dir_all :: "path \<Rightarrow> (unit, io_error) call" where
  "fs_create_dir_all p = io_call (\<lambda>s. (Ok (), s)) (\<lambda>k s. s)"

text \<open>\<open>File::open\<close> followed by \<open>read_to_end\<close>, and \<open>fs::read\<close>.\<close>

definition fs_read :: "path \<Rightarrow> (bytes, io_error) call" where
  "fs_read p = io_call
     (\<lambda>s. case map_of (files s) p of None \<Rightarrow> (Err NotFound, s) | Some f \<Rightarrow> (Ok (f_content f), s))
     (\<lambda>k s. s)"

definition fs_metadata_len :: "path \<Rightarrow> (u64, io_error) call" where
  "fs_metadata_len p = io_call
     (\<lambda>s. case map_of (files s) p of None \<Rightarrow> (Err NotFound, s)
          | Some f \<Rightarrow> (Ok (of_nat (length (f_content f))), s))
     (\<lambda>k s. s)"

definition fs_open_append :: "path \<Rightarrow> (unit, io_error) call" where
  "fs_open_append p = io_call
     (\<lambda>s. case map_of (files s) p of None \<Rightarrow> (Err NotFound, s) | Some f \<Rightarrow> (Ok (), s))
     (\<lambda>k s. s)"

text \<open>\<open>OpenOptions::new().write(true).create_new(true).open(..)\<close>.\<close>

definition fs_create_new :: "path \<Rightarrow> (unit, io_error) call" where
  "fs_create_new p = io_call
     (\<lambda>s. case map_of (files s) p of
            None \<Rightarrow> (Ok (), put_file p \<lparr>f_content = [], f_durable = []\<rparr> s)
          | Some f \<Rightarrow> (Err AlreadyExists, s))
     (\<lambda>k s. s)"

text \<open>The bytes a handle positioned at the end of \<open>p\<close> writes.\<close>

definition extend_file :: "path \<Rightarrow> bytes \<Rightarrow> fs \<Rightarrow> fs" where
  "extend_file p bs s =
     (case map_of (files s) p of
        None \<Rightarrow> s
      | Some f \<Rightarrow> put_file p (f\<lparr>f_content := f_content f @ bs\<rparr>) s)"

definition fs_append :: "path \<Rightarrow> bytes \<Rightarrow> (unit, io_error) call" where
  "fs_append p bs = io_call (\<lambda>s. (Ok (), extend_file p bs s)) (\<lambda>k s. extend_file p (take k bs) s)"

text \<open>\<open>fs::write\<close>, and \<open>OpenOptions\<close> with \<open>create\<close> and \<open>truncate\<close> followed by \<open>write_all\<close>.\<close>

definition replace_file :: "path \<Rightarrow> bytes \<Rightarrow> fs \<Rightarrow> fs" where
  "replace_file p bs s =
     put_file p \<lparr>f_content = bs,
                 f_durable = (case map_of (files s) p of None \<Rightarrow> [] | Some f \<Rightarrow> f_durable f)\<rparr> s"

definition fs_write :: "path \<Rightarrow> bytes \<Rightarrow> (unit, io_error) call" where
  "fs_write p bs = io_call (\<lambda>s. (Ok (), replace_file p bs s)) (\<lambda>k s. replace_file p (take k bs) s)"

definition fs_sync_all :: "path \<Rightarrow> (unit, io_error) call" where
  "fs_sync_all p = io_call
     (\<lambda>s. case map_of (files s) p of
            None \<Rightarrow> (Ok (), s)
          | Some f \<Rightarrow> (Ok (), put_file p (f\<lparr>f_durable := f_content f\<rparr>) s))
     (\<lambda>k s. s)"

definition fs_rename :: "path \<Rightarrow> path \<Rightarrow> (unit, io_error) call" where
  "fs_rename a b = io_call
     (\<lambda>s. case map_of (files s) a of
            None \<Rightarrow> (Err NotFound, s)
          | Some f \<Rightarrow> (Ok (), put_file b f (s\<lparr>files := AList.delete a (files s)\<rparr>)))
     (\<lambda>k s. s)"

definition fs_remove_file :: "path \<Rightarrow> (unit, io_error) call" where
  "fs_remove_file p = io_call
     (\<lambda>s. case map_of (files s) p of
            None \<Rightarrow> (Err NotFound, s)
          | Some f \<Rightarrow> (Ok (), s\<lparr>files := AList.delete p (files s)\<rparr>))
     (\<lambda>k s. s)"

text \<open>\<open>read_dir\<close> yields the entries in no particular order: the order of the association
  list, about which nothing is assumed.\<close>

definition fs_read_dir :: "path \<Rightarrow> (path list, io_error) call" where
  "fs_read_dir d = io_call
     (\<lambda>s. (Ok (filter (\<lambda>p. p \<noteq> [] \<and> butlast p = d) (map fst (files s))), s))
     (\<lambda>k s. s)"

section \<open>\<open>BufWriter<File>\<close>\<close>

text \<open>The state of the writer is its buffer; the file is named by the path it was opened with.
  The default capacity is 8 KiB.\<close>

definition BUF_CAPACITY :: nat where
  "BUF_CAPACITY = 8192"

definition torn_count :: "fs \<Rightarrow> nat" where
  "torn_count s = (case faults s of Torn k # _ \<Rightarrow> k | _ \<Rightarrow> 0)"

text \<open>\<open>flush_buf\<close> removes from the buffer what it has written, also when it fails.\<close>

definition bufwriter_flush :: "path \<Rightarrow> (bytes, unit, io_error) meth" where
  "bufwriter_flush p = (\<lambda>(b, s).
     if b = [] then (Ok (), (b, s))
     else case fs_append p b s of
            (Ok _, s') \<Rightarrow> (Ok (), ([], s'))
          | (r, s') \<Rightarrow> (r, (drop (torn_count s) b, s')))"

definition bufwriter_write_all :: "path \<Rightarrow> bytes \<Rightarrow> (bytes, unit, io_error) meth" where
  "bufwriter_write_all p bs = (\<lambda>(b, s).
     if length bs < BUF_CAPACITY - length b then (Ok (), (b @ bs, s))
     else
       and_then (if BUF_CAPACITY - length b < length bs then bufwriter_flush p (b, s)
                 else (Ok (), (b, s)))
         (\<lambda>_ (b, s). if BUF_CAPACITY \<le> length bs then io (fs_append p bs) (b, s)
                     else (Ok (), (b @ bs, s))))"

text \<open>For evaluation: a method is unfolded only once it has its state.\<close>

lemmas file_system_code [THEN fun_cong, code] =
  bufwriter_flush_def bufwriter_write_all_def

section \<open>Laws\<close>

named_theorems fs_laws \<open>what a call does to the contents of the files\<close>

lemma map_of_put_file: "map_of (files (put_file p f s)) = (map_of (files s))(p \<mapsto> f)"
  by (simp add: put_file_def update_conv')

lemma faults_put_file [simp]: "faults (put_file p f s) = faults s"
  by (simp add: put_file_def)

lemma fs_content_put_file [fs_laws]: "fs_content (put_file p f s) = (fs_content s)(p \<mapsto> f_content f)"
  by (auto simp: fs_content_def map_of_put_file)

lemma fs_durable_put_file [fs_laws]: "fs_durable (put_file p f s) = (fs_durable s)(p \<mapsto> f_durable f)"
  by (auto simp: fs_durable_def map_of_put_file)

lemma fs_content_faults [simp]: "fs_content (s\<lparr>faults := fl\<rparr>) = fs_content s"
  by (auto simp: fs_content_def)

lemma fs_durable_faults [simp]: "fs_durable (s\<lparr>faults := fl\<rparr>) = fs_durable s"
  by (auto simp: fs_durable_def)

lemma map_of_iff_content: "map_of (files s) p = None \<longleftrightarrow> fs_content s p = None"
  by (simp add: fs_content_def)

lemma fs_content_delete [fs_laws]:
  "fs_content (s\<lparr>files := AList.delete p (files s)\<rparr>) = (fs_content s)(p := None)"
  by (auto simp: fs_content_def delete_conv')

lemma fs_durable_delete [fs_laws]:
  "fs_durable (s\<lparr>files := AList.delete p (files s)\<rparr>) = (fs_durable s)(p := None)"
  by (auto simp: fs_durable_def delete_conv')

lemma faults_extend_file [simp]: "faults (extend_file p bs s) = faults s"
  by (simp add: extend_file_def split: option.splits)

lemma fs_content_extend_file [fs_laws]:
  "fs_content (extend_file p bs s) = (fs_content s)(p := map_option (\<lambda>c. c @ bs) (fs_content s p))"
  by (auto simp: extend_file_def fs_content_def map_of_put_file split: option.splits)

lemma fs_durable_extend_file [fs_laws]: "fs_durable (extend_file p bs s) = fs_durable s"
  by (auto simp: extend_file_def fs_durable_def map_of_put_file split: option.splits)

lemma faults_replace_file [simp]: "faults (replace_file p bs s) = faults s"
  by (simp add: replace_file_def)

lemma fs_content_replace_file [fs_laws]: "fs_content (replace_file p bs s) = (fs_content s)(p \<mapsto> bs)"
  by (simp add: replace_file_def fs_laws)

lemma map_of_map_snd: "map_of (map (\<lambda>(p, f). (p, g f)) xs) p = map_option g (map_of xs p)"
  by (induction xs) auto

lemma fs_content_power_loss [fs_laws]: "fs_content (power_loss s) = fs_durable s"
  by (intro ext)
    (simp add: power_loss_def fs_content_def fs_durable_def map_of_map_snd option.map_comp o_def)

lemma faults_power_loss [simp]: "faults (power_loss s) = faults s"
  by (simp add: power_loss_def)

text \<open>On a healthy file system every call does what it documents.\<close>

lemma io_call_healthy: "healthy s \<Longrightarrow> io_call act torn s = act s"
  by (simp add: io_call_def)

named_theorems fs_healthy \<open>the calls on a file system without faults\<close>

lemma fs_read_healthy [fs_healthy]:
  "healthy s \<Longrightarrow> fs_read p s =
     (case fs_content s p of None \<Rightarrow> (Err NotFound, s) | Some c \<Rightarrow> (Ok c, s))"
  by (simp add: fs_read_def io_call_healthy fs_content_def split: option.split)

lemma fs_metadata_len_healthy [fs_healthy]:
  "healthy s \<Longrightarrow> fs_metadata_len p s =
     (case fs_content s p of None \<Rightarrow> (Err NotFound, s) | Some c \<Rightarrow> (Ok (of_nat (length c)), s))"
  by (simp add: fs_metadata_len_def io_call_healthy fs_content_def split: option.split)

lemma fs_open_append_healthy [fs_healthy]:
  "healthy s \<Longrightarrow> fs_open_append p s =
     (case fs_content s p of None \<Rightarrow> (Err NotFound, s) | Some c \<Rightarrow> (Ok (), s))"
  by (simp add: fs_open_append_def io_call_healthy fs_content_def split: option.split)

lemma fs_create_new_healthy [fs_healthy]:
  "healthy s \<Longrightarrow> fs_create_new p s =
     (case fs_content s p of
        None \<Rightarrow> (Ok (), put_file p \<lparr>f_content = [], f_durable = []\<rparr> s)
      | Some c \<Rightarrow> (Err AlreadyExists, s))"
  by (simp add: fs_create_new_def io_call_healthy fs_content_def split: option.split)

lemma fs_create_dir_all_healthy [fs_healthy]: "healthy s \<Longrightarrow> fs_create_dir_all p s = (Ok (), s)"
  by (simp add: fs_create_dir_all_def io_call_healthy)

lemma fs_append_healthy [fs_healthy]: "healthy s \<Longrightarrow> fs_append p bs s = (Ok (), extend_file p bs s)"
  by (simp add: fs_append_def io_call_healthy)

lemma fs_write_healthy [fs_healthy]: "healthy s \<Longrightarrow> fs_write p bs s = (Ok (), replace_file p bs s)"
  by (simp add: fs_write_def io_call_healthy)

lemma fs_read_dir_healthy [fs_healthy]:
  "healthy s \<Longrightarrow> fs_read_dir d s = (Ok (filter (\<lambda>p. p \<noteq> [] \<and> butlast p = d) (map fst (files s))), s)"
  by (simp add: fs_read_dir_def io_call_healthy)

definition sync_file :: "path \<Rightarrow> fs \<Rightarrow> fs" where
  "sync_file p s =
     (case map_of (files s) p of None \<Rightarrow> s | Some f \<Rightarrow> put_file p (f\<lparr>f_durable := f_content f\<rparr>) s)"

lemma fs_sync_all_healthy [fs_healthy]: "healthy s \<Longrightarrow> fs_sync_all p s = (Ok (), sync_file p s)"
  by (simp add: fs_sync_all_def io_call_healthy sync_file_def split: option.split)

lemma faults_sync_file [simp]: "faults (sync_file p s) = faults s"
  by (simp add: sync_file_def split: option.split)

lemma fs_content_sync_file [fs_laws]: "fs_content (sync_file p s) = fs_content s"
  by (auto simp: sync_file_def fs_content_def map_of_put_file split: option.split)

lemma fs_durable_sync_file [fs_laws]: "fs_durable (sync_file p s) = (fs_durable s)(p := fs_content s p)"
  by (auto simp: sync_file_def fs_content_def fs_durable_def map_of_put_file split: option.split)

lemma fs_remove_file_healthy [fs_healthy]:
  "healthy s \<Longrightarrow> fs_content s p \<noteq> None \<Longrightarrow>
     fs_remove_file p s = (Ok (), s\<lparr>files := AList.delete p (files s)\<rparr>)"
  by (auto simp: fs_remove_file_def io_call_healthy fs_content_def split: option.split)

lemma path_exists_content: "path_exists p s \<longleftrightarrow> fs_content s p \<noteq> None"
  by (simp add: path_exists_def fs_content_def)

text \<open>The files of the association list stay distinct.\<close>

definition wf_fs :: "fs \<Rightarrow> bool" where
  "wf_fs s \<longleftrightarrow> distinct (map fst (files s))"

lemma wf_fs_put_file [simp]: "wf_fs s \<Longrightarrow> wf_fs (put_file p f s)"
  by (simp add: wf_fs_def put_file_def distinct_update)

lemma wf_fs_delete [simp]: "wf_fs s \<Longrightarrow> wf_fs (s\<lparr>files := AList.delete p (files s)\<rparr>)"
  by (simp add: wf_fs_def distinct_delete)

lemma wf_fs_extend_file [simp]: "wf_fs s \<Longrightarrow> wf_fs (extend_file p bs s)"
  by (simp add: extend_file_def split: option.split)

lemma wf_fs_replace_file [simp]: "wf_fs s \<Longrightarrow> wf_fs (replace_file p bs s)"
  by (simp add: replace_file_def)

lemma wf_fs_sync_file [simp]: "wf_fs s \<Longrightarrow> wf_fs (sync_file p s)"
  by (simp add: sync_file_def split: option.split)

lemma wf_fs_power_loss [simp]: "wf_fs s \<Longrightarrow> wf_fs (power_loss s)"
  by (simp add: wf_fs_def power_loss_def o_def case_prod_beta)

lemma dom_fs_content: "dom (fs_content s) = set (map fst (files s))"
proof -
  have "dom (fs_content s) = dom (map_of (files s))"
    by (auto simp: fs_content_def dom_def)
  then show ?thesis by (simp add: dom_map_of_conv_image_fst)
qed

end
