(* ===== verification/Durable_Cell.thy ===== *)
theory Durable_Cell
  imports File_System
begin

text \<open>
  The pattern that \<open>Checkpoint::advance\<close>, \<open>PersistentState::persist\<close> and \<open>Snapshot::save\<close>
  share: one value in one file, replaced by writing a temporary file and renaming it. The
  \<open>stored\<close> is what a reader makes of the file (\<open>view v\<close> after \<open>v\<close> was saved). The
  locale states what their clients rely on, whatever I/O call fails and wherever a write is
  cut short: a save that reports success has replaced the value, any other has left it.
\<close>

locale durable_cell =
  fixes save :: "'v \<Rightarrow> (unit, io_error) call"
    and enc :: "'v \<Rightarrow> bytes"
    and parse :: "bytes option \<Rightarrow> 'r"
    and view :: "'v \<Rightarrow> 'r"
    and ok :: "'v \<Rightarrow> bool"
    and tmp target :: path
  assumes save_ok: "save v s = (Ok x, s') \<Longrightarrow> fs_content s' target = Some (enc v)"
    and save_err: "save v s = (Err e, s') \<Longrightarrow> fs_content s' target = fs_content s target"
    and save_no_panic: "fst (save v s) \<noteq> Panic"
    and save_frame: "p \<noteq> tmp \<Longrightarrow> p \<noteq> target \<Longrightarrow> fs_content (snd (save v s)) p = fs_content s p"
    and parse_enc: "ok v \<Longrightarrow> parse (Some (enc v)) = view v"
begin

definition stored :: "fs \<Rightarrow> 'r" where
  "stored s = parse (fs_content s target)"

lemma stored_after_save:
  assumes "ok v"
  shows "stored (snd (save v s)) = (if is_ok (fst (save v s)) then view v else stored s)"
proof (cases "save v s")
  case (Pair r s')
  with assms show ?thesis
    using save_no_panic [of v s] by (cases r) (auto simp: stored_def save_ok save_err parse_enc)
qed

text \<open>Old or new, never anything else: a crash inside a save is a save that did not succeed.\<close>

lemma stored_old_or_new: "ok v \<Longrightarrow> stored (snd (save v s)) \<in> {stored s, view v}"
  by (simp add: stored_after_save)

fun save_all :: "'v list \<Rightarrow> fs \<Rightarrow> fs" where
  "save_all [] s = s"
| "save_all (v # vs) s = save_all vs (snd (save v s))"

lemma stored_save_all: "list_all ok vs \<Longrightarrow> stored (save_all vs s) \<in> insert (stored s) (view ` set vs)"
proof (induction vs arbitrary: s)
  case (Cons v vs)
  have "stored (snd (save v s)) \<in> {stored s, view v}"
    using Cons.prems by (intro stored_old_or_new) simp
  moreover have "stored (save_all (v # vs) s) \<in> insert (stored (snd (save v s))) (view ` set vs)"
    using Cons.IH [of "snd (save v s)"] Cons.prems by simp
  ultimately show ?case by auto
qed simp

end

section \<open>Write to a temporary file, then rename\<close>

definition write_rename :: "path \<Rightarrow> path \<Rightarrow> bytes \<Rightarrow> (unit, io_error) call" where
  "write_rename tmp p bs s = and_then (fs_write tmp bs s) (\<lambda>_. fs_rename tmp p)"

text \<open>The same with a \<open>sync_all\<close> between the two.\<close>

definition write_sync_rename :: "path \<Rightarrow> path \<Rightarrow> bytes \<Rightarrow> (unit, io_error) call" where
  "write_sync_rename tmp p bs s =
     and_then (fs_write tmp bs s) (\<lambda>_ s. and_then (fs_sync_all tmp s) (\<lambda>_. fs_rename tmp p))"

text \<open>Each call on its own: what it does when it succeeds, and what it leaves when it fails.\<close>

lemma io_call_cases:
  assumes "io_call act torn s = (r, s')"
  obtains (acted) fl where "act (s\<lparr>faults := fl\<rparr>) = (r, s')"
    | (failed) "r = Err OtherIo" "files s' = files s"
    | (torn) k fl where "r = Err OtherIo" "s' = torn k (s\<lparr>faults := fl\<rparr>)"
proof (cases "faults s")
  case Nil
  then have eq: "s\<lparr>faults := []\<rparr> = s" and "act s = (r, s')"
    using assms by (simp_all add: io_call_def)
  then have "act (s\<lparr>faults := []\<rparr>) = (r, s')"
    by (simp only: eq)
  then show thesis by (rule acted)
next
  case (Cons f fl)
  then show thesis
    using assms acted failed torn by (cases f) (auto simp: io_call_def)
qed

lemma fs_content_eqI: "files s = files t \<Longrightarrow> fs_content s = fs_content t"
  by (auto simp: fs_content_def)

lemma fs_durable_eqI: "files s = files t \<Longrightarrow> fs_durable s = fs_durable t"
  by (auto simp: fs_durable_def)

lemma fs_write_cases:
  assumes "fs_write p bs s = (r, s')"
  shows "r \<noteq> Panic \<and> (\<forall>q. q \<noteq> p \<longrightarrow> fs_content s' q = fs_content s q) \<and>
    (is_ok r \<longrightarrow> fs_content s' p = Some bs)"
  using assms unfolding fs_write_def
  by (cases rule: io_call_cases) (auto simp: fs_laws dest: fs_content_eqI)

lemma fs_rename_cases:
  assumes "fs_rename a b s = (r, s')" and "a \<noteq> b"
  shows "r \<noteq> Panic \<and> (\<not> is_ok r \<longrightarrow> fs_content s' = fs_content s) \<and>
    (is_ok r \<longrightarrow> fs_content s' = (fs_content s)(a := None, b := fs_content s a))"
  using assms(1) unfolding fs_rename_def
proof (cases rule: io_call_cases)
  case (acted fl)
  then show ?thesis
    using assms(2)
    by (cases "map_of (files s) a") (auto simp: fs_laws fs_content_def map_of_put_file delete_conv' fun_eq_iff)
qed (auto dest: fs_content_eqI)

lemma fs_sync_all_cases:
  assumes "fs_sync_all p s = (r, s')"
  shows "r \<noteq> Panic \<and> fs_content s' = fs_content s"
  using assms unfolding fs_sync_all_def
  by (cases rule: io_call_cases)
    (auto simp: fs_content_def map_of_put_file fun_eq_iff split: option.splits if_splits dest: fs_content_eqI)

lemma write_rename_cases:
  assumes "write_rename tmp p bs s = (r, s')" and "tmp \<noteq> p"
  shows "r \<noteq> Panic \<and> (\<forall>q. q \<noteq> tmp \<longrightarrow> q \<noteq> p \<longrightarrow> fs_content s' q = fs_content s q) \<and>
    (if is_ok r then fs_content s' p = Some bs else fs_content s' p = fs_content s p)"
proof (cases "fs_write tmp bs s")
  case (Pair rw sw)
  note w = fs_write_cases [OF Pair]
  show ?thesis
  proof (cases rw)
    case (Ok u)
    then have "fs_rename tmp p sw = (r, s')"
      using assms(1) Pair by (simp add: write_rename_def)
    from fs_rename_cases [OF this assms(2)] w Ok assms(2) show ?thesis by auto
  qed (use assms w Pair in \<open>auto simp: write_rename_def\<close>)
qed

lemma write_sync_rename_cases:
  assumes "write_sync_rename tmp p bs s = (r, s')" and "tmp \<noteq> p"
  shows "r \<noteq> Panic \<and> (\<forall>q. q \<noteq> tmp \<longrightarrow> q \<noteq> p \<longrightarrow> fs_content s' q = fs_content s q) \<and>
    (if is_ok r then fs_content s' p = Some bs else fs_content s' p = fs_content s p)"
proof (cases "fs_write tmp bs s")
  case (Pair rw sw)
  note w = fs_write_cases [OF Pair]
  show ?thesis
  proof (cases rw)
    case (Ok u)
    obtain ry sy where y: "fs_sync_all tmp sw = (ry, sy)" by fastforce
    note yc = fs_sync_all_cases [OF y]
    show ?thesis
    proof (cases ry)
      case oky: (Ok u')
      then have "fs_rename tmp p sy = (r, s')"
        using assms(1) Pair Ok y by (simp add: write_sync_rename_def)
      from fs_rename_cases [OF this assms(2)] w yc Ok assms(2) show ?thesis by auto
    qed (use assms w yc y Pair Ok in \<open>auto simp: write_sync_rename_def\<close>)
  qed (use assms w Pair in \<open>auto simp: write_sync_rename_def\<close>)
qed

lemma write_rename_durable_cell:
  assumes "tmp \<noteq> p" and "\<And>v. ok v \<Longrightarrow> parse (Some (enc v)) = view v"
  shows "durable_cell (\<lambda>v. write_rename tmp p (enc v)) enc parse view ok tmp p"
proof (unfold_locales, goal_cases)
  case (1 v s x s')
  then show ?case using write_rename_cases [OF 1 assms(1)] by simp
next
  case (2 v s e s')
  then show ?case using write_rename_cases [OF 2 assms(1)] by simp
next
  case (3 v s)
  then show ?case using write_rename_cases [OF _ assms(1)] by (metis prod.collapse)
next
  case (4 q v s)
  then show ?case using write_rename_cases [OF _ assms(1)] by (metis prod.collapse)
qed (rule assms(2))

lemma write_sync_rename_durable_cell:
  assumes "tmp \<noteq> p" and "\<And>v. ok v \<Longrightarrow> parse (Some (enc v)) = view v"
  shows "durable_cell (\<lambda>v. write_sync_rename tmp p (enc v)) enc parse view ok tmp p"
proof (unfold_locales, goal_cases)
  case (1 v s x s')
  then show ?case using write_sync_rename_cases [OF 1 assms(1)] by simp
next
  case (2 v s e s')
  then show ?case using write_sync_rename_cases [OF 2 assms(1)] by simp
next
  case (3 v s)
  then show ?case using write_sync_rename_cases [OF _ assms(1)] by (metis prod.collapse)
next
  case (4 q v s)
  then show ?case using write_sync_rename_cases [OF _ assms(1)] by (metis prod.collapse)
qed (rule assms(2))

text \<open>Without faults both succeed. Without the \<open>sync_all\<close>, what a loss of power leaves under the
  final name is what had reached the disk of the temporary file: nothing, if it was new.\<close>

lemma write_rename_healthy:
  assumes "healthy s" and "tmp \<noteq> p"
  shows "\<exists>s'. write_rename tmp p bs s = (Ok (), s') \<and> healthy s' \<and> (wf_fs s \<longrightarrow> wf_fs s') \<and>
    fs_content s' = (fs_content s)(tmp := None, p := Some bs) \<and>
    fs_durable s' = (fs_durable s)(tmp := None,
      p := Some (case fs_durable s tmp of None \<Rightarrow> [] | Some d \<Rightarrow> d))"
proof -
  have "map_of (files (replace_file tmp bs s)) tmp = Some \<lparr>f_content = bs,
      f_durable = (case fs_durable s tmp of None \<Rightarrow> [] | Some d \<Rightarrow> d)\<rparr>"
    by (simp add: replace_file_def map_of_put_file fs_durable_def split: option.split)
  moreover have "fs_durable (replace_file tmp bs s) = (fs_durable s)(tmp :=
      Some (case fs_durable s tmp of None \<Rightarrow> [] | Some d \<Rightarrow> d))"
    by (simp add: replace_file_def fs_laws fs_durable_def fun_eq_iff split: option.split)
  ultimately show ?thesis
    using assms by (simp add: write_rename_def fs_healthy fs_rename_def io_call_healthy fs_laws)
qed

lemma write_sync_rename_healthy:
  assumes "healthy s" and "tmp \<noteq> p"
  shows "\<exists>s'. write_sync_rename tmp p bs s = (Ok (), s') \<and> healthy s' \<and> (wf_fs s \<longrightarrow> wf_fs s') \<and>
    fs_content s' = (fs_content s)(tmp := None, p := Some bs) \<and>
    fs_durable s' = (fs_durable s)(tmp := None, p := Some bs)"
proof -
  let ?s = "sync_file tmp (replace_file tmp bs s)"
  have "map_of (files ?s) tmp = Some \<lparr>f_content = bs, f_durable = bs\<rparr>"
    by (simp add: sync_file_def replace_file_def map_of_put_file)
  moreover have "fs_durable ?s = (fs_durable s)(tmp := Some bs)" and "fs_content ?s = (fs_content s)(tmp := Some bs)"
    by (auto simp: replace_file_def fs_laws fs_durable_def fun_eq_iff)
  ultimately show ?thesis
    using assms by (simp add: write_sync_rename_def fs_healthy fs_rename_def io_call_healthy fs_laws)
qed

end
