(* ===== verification/Codec.thy ===== *)
theory Codec
  imports Rust_Base
begin

text \<open>
  The contract of a self-delimiting binary format: a decoder that reads one value from the
  front of a buffer and says how much it consumed. The loops of the code that read a stream
  of such values (the entries of a segment, the entries of a snapshot) are clients of it.
\<close>

locale codec =
  fixes enc :: "'v \<Rightarrow> bytes"
    and dec :: "bytes \<Rightarrow> ('v \<times> nat) option"
    and ok :: "'v \<Rightarrow> bool"
  assumes enc_not_Nil: "enc v \<noteq> []"
    and dec_enc: "ok v \<Longrightarrow> dec (enc v @ rest) = Some (v, length (enc v))"
    and dec_prefix: "ok v \<Longrightarrow> n < length (enc v) \<Longrightarrow> dec (take n (enc v)) = None"
begin

definition stream :: "'v list \<Rightarrow> bytes" where
  "stream vs = concat (map enc vs)"

lemma stream_Cons [simp]: "stream (v # vs) = enc v @ stream vs"
  by (simp add: stream_def)

lemma stream_Nil [simp]: "stream [] = []"
  by (simp add: stream_def)

lemma stream_append [simp]: "stream (vs @ ws) = stream vs @ stream ws"
  by (simp add: stream_def)

lemma length_stream: "length vs \<le> length (stream vs)"
proof (induction vs)
  case (Cons v vs)
  have "1 \<le> length (enc v)" using enc_not_Nil by (simp add: Suc_le_eq)
  with Cons.IH show ?case by simp
qed simp

lemma enc_inj: "ok v \<Longrightarrow> ok w \<Longrightarrow> enc v = enc w \<Longrightarrow> v = w"
  using dec_enc [of v "[]"] dec_enc [of w "[]"] by simp

lemma enc_prefix_free:
  assumes "ok v" and "ok w" and "enc v @ xs = enc w @ ys"
  shows "v = w \<and> xs = ys"
proof -
  have "Some (v, length (enc v)) = Some (w, length (enc w))"
    using dec_enc [OF assms(1), of xs] dec_enc [OF assms(2), of ys] assms(3) by simp
  with assms(3) show ?thesis by simp
qed

text \<open>The bytes of a stream determine its values, so nothing of a log is lost or invented by
  writing it out.\<close>

lemma stream_inj: "list_all ok vs \<Longrightarrow> list_all ok ws \<Longrightarrow> stream vs = stream ws \<Longrightarrow> vs = ws"
proof (induction vs arbitrary: ws)
  case Nil
  then show ?case using enc_not_Nil by (cases ws) auto
next
  case (Cons v vs)
  then obtain w ws' where ws: "ws = w # ws'"
    using enc_not_Nil by (cases ws) auto
  with Cons.prems have "v = w \<and> stream vs = stream ws'"
    by (intro enc_prefix_free) auto
  with Cons ws show ?case by auto
qed

end

end
