(* ===== verification/Entry.thy ===== *)
theory Entry
  imports Codec File_System
begin

text \<open>
  \<open>wal-core/src/entry.rs\<close> and \<open>wal-core/src/error.rs\<close>: the on-disk format of one WAL entry,
  a header \<open>[sequence: u64][len: u32][crc32: u32]\<close> followed by the payload. The checksum
  function of the crate \<open>crc32fast\<close> is the parameter \<open>crc\<close>.
\<close>

section \<open>Errors of the WAL engine\<close>

datatype wal_error =
    Io io_error
  | ChecksumMismatch nat u32 u32
  | UnexpectedEof nat
  | InvalidSegmentFilename string
  | SegmentFull u64 u64 u64

section \<open>Encoding and decoding one entry\<close>

record entry =
  sequence :: u64
  data :: bytes

definition HEADER_SIZE :: nat where
  "HEADER_SIZE = 16"

definition entry_encode :: "(bytes \<Rightarrow> u32) \<Rightarrow> u64 \<Rightarrow> bytes \<Rightarrow> bytes" where
  "entry_encode crc seq dat =
     (let len = (of_nat (length dat) :: u32); c = crc dat
      in u64_to_le_bytes seq @ u32_to_le_bytes len @ u32_to_le_bytes c @ dat)"

definition entry_decode ::
  "(bytes \<Rightarrow> u32) \<Rightarrow> bytes \<Rightarrow> nat \<Rightarrow> (entry \<times> nat, wal_error) res" where
  "entry_decode crc buf buf_offset =
     (if length buf < HEADER_SIZE then Err (UnexpectedEof buf_offset)
      else
        let seq = u64_from_le_bytes (subslice 0 8 buf);
            data_len = unat (u32_from_le_bytes (subslice 8 12 buf));
            stored_crc = u32_from_le_bytes (subslice 12 16 buf);
            total = HEADER_SIZE + data_len
        in if length buf < total then Err (UnexpectedEof buf_offset)
           else
             let dat = subslice HEADER_SIZE total buf; computed_crc = crc dat
             in if stored_crc \<noteq> computed_crc
                then Err (ChecksumMismatch buf_offset stored_crc computed_crc)
                else Ok (\<lparr>sequence = seq, data = dat\<rparr>, total))"

section \<open>Layout\<close>

text \<open>The length field has 32 bits: a payload must be shorter than 4 GiB to be described by it.\<close>

definition entry_fits :: "entry \<Rightarrow> bool" where
  "entry_fits e \<longleftrightarrow> length (data e) < 2 ^ 32"

abbreviation encode_of :: "(bytes \<Rightarrow> u32) \<Rightarrow> entry \<Rightarrow> bytes" where
  "encode_of crc e \<equiv> entry_encode crc (sequence e) (data e)"

lemma length_entry_encode [simp]: "length (entry_encode crc seq dat) = HEADER_SIZE + length dat"
  by (simp add: entry_encode_def HEADER_SIZE_def Let_def)

lemma entry_encode_not_Nil [simp]: "entry_encode crc seq dat \<noteq> []"
proof -
  have "length (entry_encode crc seq dat) \<noteq> 0" by (simp add: HEADER_SIZE_def)
  then show ?thesis by fastforce
qed

lemma header_fields:
  "subslice 0 8 (entry_encode crc seq dat @ rest) = u64_to_le_bytes seq"
  "subslice 8 12 (entry_encode crc seq dat @ rest) = u32_to_le_bytes (of_nat (length dat))"
  "subslice 12 16 (entry_encode crc seq dat @ rest) = u32_to_le_bytes (crc dat)"
  "subslice HEADER_SIZE (HEADER_SIZE + length dat) (entry_encode crc seq dat @ rest) = dat"
  by (simp_all add: entry_encode_def subslice_def HEADER_SIZE_def Let_def)

text \<open>The header of a prefix that is long enough is the header of the whole.\<close>

lemma subslice_take: "b \<le> n \<Longrightarrow> subslice a b (take n xs) = subslice a b xs"
  by (simp add: subslice_def drop_take min_def)

section \<open>Round trip and rejection\<close>

lemma entry_decode_encode:
  assumes "length dat < 2 ^ 32"
  shows "entry_decode crc (entry_encode crc seq dat @ rest) off =
           Ok (\<lparr>sequence = seq, data = dat\<rparr>, HEADER_SIZE + length dat)"
  using assms header_fields [where crc = crc and seq = seq and dat = dat and rest = rest]
  by (simp add: entry_decode_def Let_def unat_of_nat)

lemma entry_decode_truncated:
  assumes "length dat < 2 ^ 32" and "n < HEADER_SIZE + length dat"
  shows "entry_decode crc (take n (entry_encode crc seq dat)) off = Err (UnexpectedEof off)"
proof (cases "n < HEADER_SIZE")
  case True
  then show ?thesis by (simp add: entry_decode_def)
next
  case False
  then have "subslice 8 12 (take n (entry_encode crc seq dat)) = u32_to_le_bytes (of_nat (length dat))"
    using header_fields(2) [where crc = crc and seq = seq and dat = dat and rest = "[]"] by (simp add: subslice_take HEADER_SIZE_def)
  with False assms show ?thesis
    by (simp add: entry_decode_def Let_def unat_of_nat)
qed

lemma entry_decode_offset:
  "entry_decode crc buf off = Ok r \<longleftrightarrow> entry_decode crc buf off' = Ok r"
  by (simp add: entry_decode_def Let_def)

lemma entry_decode_never_panics [simp]: "entry_decode crc buf off \<noteq> Panic"
  by (simp add: entry_decode_def Let_def)

text \<open>Whatever decodes was encoded: the accepted bytes are exactly the encoding of the result,
  and the header's length is the payload's.\<close>

lemma entry_decode_sound:
  assumes "entry_decode crc buf off = Ok (e, n)"
  shows "take n buf = encode_of crc e \<and> n = HEADER_SIZE + length (data e) \<and> n \<le> length buf \<and> entry_fits e"
proof -
  define len where "len = unat (u32_from_le_bytes (subslice 8 12 buf))"
  from assms have 16: "16 \<le> length buf" and tot: "16 + len \<le> length buf"
    and n: "n = 16 + len" and d: "data e = subslice 16 (16 + len) buf"
    and s: "sequence e = u64_from_le_bytes (subslice 0 8 buf)"
    and c: "u32_from_le_bytes (subslice 12 16 buf) = crc (data e)"
    by (auto simp: entry_decode_def Let_def len_def HEADER_SIZE_def split: if_splits)
  have ld: "length (data e) = len"
    using d tot by (simp add: length_subslice)
  have l32: "len < 2 ^ 32"
    using unat_less_2p [of "u32_from_le_bytes (subslice 8 12 buf)"] by (simp add: len_def)
  have h: "u64_to_le_bytes (sequence e) = subslice 0 8 buf"
    "u32_to_le_bytes (crc (data e)) = subslice 12 16 buf"
    "u32_to_le_bytes (of_nat len) = subslice 8 12 buf"
    using 16 by (simp_all add: s c [symmetric] len_def u64_to_from_le_bytes u32_to_from_le_bytes length_subslice)
  have "take n buf = subslice 0 8 buf @ subslice 8 12 buf @ subslice 12 16 buf @ subslice 16 n buf"
    unfolding subslice_def n using take_add [of 8 "8 + len" buf] take_add [of 4 "4 + len" "drop 8 buf"]
      take_add [of 4 len "drop 12 buf"] by (simp add: add.commute add.left_commute)
  also have "\<dots> = encode_of crc e"
    by (simp add: entry_encode_def Let_def ld h) (simp add: d n)
  finally show ?thesis
    using ld l32 n tot by (simp add: entry_fits_def HEADER_SIZE_def)
qed

text \<open>A stored payload whose checksum no longer matches is rejected, whatever the header says
  of its sequence number.\<close>

lemma entry_decode_corrupt:
  assumes "length dat < 2 ^ 32" and "length dat' = length dat" and "crc dat' \<noteq> crc dat"
  shows "entry_decode crc (u64_to_le_bytes seq @ u32_to_le_bytes (of_nat (length dat)) @
           u32_to_le_bytes (crc dat) @ dat' @ rest) off = Err (ChecksumMismatch off (crc dat) (crc dat'))"
  using assms by (auto simp: entry_decode_def subslice_def HEADER_SIZE_def Let_def unat_of_nat)

section \<open>The format is a codec\<close>

definition entry_dec :: "(bytes \<Rightarrow> u32) \<Rightarrow> bytes \<Rightarrow> (entry \<times> nat) option" where
  "entry_dec crc buf = (case (entry_decode crc buf 0 :: (_, wal_error) res) of Ok r \<Rightarrow> Some r | _ \<Rightarrow> None)"

interpretation entry_format: codec "encode_of crc" "entry_dec crc" entry_fits for crc
proof (unfold_locales, goal_cases)
  case (1 v)
  show ?case by simp
next
  case (2 v rest)
  then show ?case by (simp add: entry_dec_def entry_decode_encode entry_fits_def)
next
  case (3 v n)
  then show ?case by (simp add: entry_dec_def entry_decode_truncated entry_fits_def)
qed

end
