(* ===== verification/Checkpoint.thy ===== *)
theory Checkpoint
  imports Durable_Cell Entry
begin

text \<open>
  \<open>wal-core/src/checkpoint.rs\<close>: the durable checkpoint, a \<open>u64\<close> in the file
  \<open><dir>/checkpoint\<close>.
\<close>

record checkpoint =
  cp_path :: path
  cp_sequence :: u64

definition CHECKPOINT_FILE :: string where
  "CHECKPOINT_FILE = ''checkpoint''"

text \<open>What \<open>open\<close> reads from the file, if there is one.\<close>

definition checkpoint_parse :: "bytes option \<Rightarrow> u64" where
  "checkpoint_parse c =
     (case c of None \<Rightarrow> 0
      | Some bs \<Rightarrow> if 8 \<le> length bs then u64_from_le_bytes (subslice 0 8 bs) else 0)"

definition checkpoint_open :: "path \<Rightarrow> (checkpoint, wal_error) call" where
  "checkpoint_open dir s =
     (let path = path_join dir CHECKPOINT_FILE in
      if path_exists path s then
        and_then (map_err Io (fs_read path s))
          (\<lambda>bs s. (Ok \<lparr>cp_path = path, cp_sequence = checkpoint_parse (Some bs)\<rparr>, s))
      else (Ok \<lparr>cp_path = path, cp_sequence = checkpoint_parse None\<rparr>, s))"

text \<open>\<open>fs::write\<close> of the temporary file, then \<open>fs::rename\<close>.\<close>

definition checkpoint_persist :: "path \<Rightarrow> u64 \<Rightarrow> (unit, io_error) call" where
  "checkpoint_persist path seq = write_rename (with_extension path ''tmp'') path (u64_to_le_bytes seq)"

definition checkpoint_advance :: "u64 \<Rightarrow> (checkpoint, unit, wal_error) meth" where
  "checkpoint_advance seq = (\<lambda>(cp, s).
     if cp_sequence cp < seq then
       and_then (map_err Io (io (checkpoint_persist (cp_path cp) seq) (cp, s)))
         (\<lambda>_ (cp, s). (Ok (), (cp\<lparr>cp_sequence := seq\<rparr>, s)))
     else (Ok (), (cp, s)))"

lemmas checkpoint_code [THEN fun_cong, code] =
  checkpoint_advance_def

section \<open>The checkpoint file as a durable cell\<close>

lemma checkpoint_tmp: "with_extension (path_join d CHECKPOINT_FILE) ''tmp'' = path_join d ''checkpoint.tmp''"
  by (simp add: with_extension_def path_join_def CHECKPOINT_FILE_def name_stem_def name_extension_def)

lemma checkpoint_parse_encode: "checkpoint_parse (Some (u64_to_le_bytes v)) = v"
  by (simp add: checkpoint_parse_def subslice_def)

interpretation checkpoint_cell: durable_cell
  "checkpoint_persist (path_join dir CHECKPOINT_FILE)" u64_to_le_bytes checkpoint_parse "\<lambda>v. v" "\<lambda>_. True"
  "path_join dir ''checkpoint.tmp''" "path_join dir CHECKPOINT_FILE" for dir
  unfolding checkpoint_persist_def checkpoint_tmp
  by (rule write_rename_durable_cell) (simp_all add: checkpoint_parse_encode CHECKPOINT_FILE_def)

lemma checkpoint_open_healthy:
  "healthy s \<Longrightarrow> checkpoint_open dir s =
     (Ok \<lparr>cp_path = path_join dir CHECKPOINT_FILE, cp_sequence = checkpoint_cell.stored dir s\<rparr>, s)"
  by (auto simp: checkpoint_open_def Let_def fs_healthy path_exists_content checkpoint_cell.stored_def
      split: option.split)

text \<open>\<open>checkpoint_in\<close>: the checkpoint in memory is the one of directory \<open>dir\<close> and agrees with
  the file.\<close>

definition checkpoint_in :: "path \<Rightarrow> checkpoint \<Rightarrow> fs \<Rightarrow> bool" where
  "checkpoint_in dir cp s \<longleftrightarrow>
     cp_path cp = path_join dir CHECKPOINT_FILE \<and> checkpoint_cell.stored dir s = cp_sequence cp"

text \<open>Whatever fails: on success memory and file hold the larger of the two values, on failure
  both hold the old one.\<close>

lemma checkpoint_advance_cases:
  assumes "checkpoint_in dir cp s" and "checkpoint_advance seq (cp, s) = (r, (cp', s'))"
  shows "checkpoint_in dir cp' s' \<and> r \<noteq> Panic \<and>
    cp_sequence cp' = (if is_ok r then max (cp_sequence cp) seq else cp_sequence cp) \<and>
    (\<forall>q. q \<noteq> path_join dir CHECKPOINT_FILE \<longrightarrow> q \<noteq> path_join dir ''checkpoint.tmp'' \<longrightarrow>
       fs_content s' q = fs_content s q)"
proof (cases "cp_sequence cp < seq")
  case True
  have p: "cp_path cp = path_join dir CHECKPOINT_FILE"
    using assms(1) by (simp add: checkpoint_in_def)
  obtain rp sp where persist: "checkpoint_persist (path_join dir CHECKPOINT_FILE) seq s = (rp, sp)"
    by fastforce
  have "checkpoint_cell.stored dir sp = (if is_ok rp then seq else checkpoint_cell.stored dir s)"
    using checkpoint_cell.stored_after_save [where dir = dir and v = seq and s = s] persist by simp
  then show ?thesis
    using assms True p persist checkpoint_cell.save_no_panic [where dir = dir and v = seq and s = s]
      checkpoint_cell.save_frame [where dir = dir and v = seq and s = s]
    by (cases rp) (auto simp: checkpoint_advance_def io_def checkpoint_in_def max_def)
qed (use assms in \<open>auto simp: checkpoint_advance_def max_def\<close>)

lemma checkpoint_advance_healthy:
  assumes "checkpoint_in dir cp s" and "healthy s"
  shows "\<exists>s'. checkpoint_advance seq (cp, s) = (Ok (), (cp\<lparr>cp_sequence := max (cp_sequence cp) seq\<rparr>, s')) \<and>
    healthy s' \<and> (wf_fs s \<longrightarrow> wf_fs s') \<and>
    (\<forall>q. q \<noteq> path_join dir CHECKPOINT_FILE \<longrightarrow> q \<noteq> path_join dir ''checkpoint.tmp'' \<longrightarrow>
       fs_content s' q = fs_content s q \<and> fs_durable s' q = fs_durable s q) \<and>
    fs_content s' (path_join dir ''checkpoint.tmp'') \<in> {None, fs_content s (path_join dir ''checkpoint.tmp'')}"
proof (cases "cp_sequence cp < seq")
  case True
  let ?t = "path_join dir ''checkpoint.tmp''" and ?p = "path_join dir CHECKPOINT_FILE"
  have neq: "?t \<noteq> ?p" by (simp add: CHECKPOINT_FILE_def)
  have p: "cp_path cp = ?p"
    using assms(1) by (simp add: checkpoint_in_def)
  obtain s' where w: "write_rename ?t ?p (u64_to_le_bytes seq) s = (Ok (), s')" "healthy s'"
    "wf_fs s \<longrightarrow> wf_fs s'" "fs_content s' = (fs_content s)(?t := None, ?p := Some (u64_to_le_bytes seq))"
    "fs_durable s' = (fs_durable s)(?t := None, ?p := Some (case fs_durable s ?t of None \<Rightarrow> [] | Some d \<Rightarrow> d))"
    using write_rename_healthy [OF assms(2) neq] by blast
  have "checkpoint_advance seq (cp, s) = (Ok (), (cp\<lparr>cp_sequence := max (cp_sequence cp) seq\<rparr>, s'))"
    using True w(1) by (simp add: checkpoint_advance_def io_def p checkpoint_persist_def checkpoint_tmp max_def)
  then show ?thesis
    using w(2-5) neq by (intro exI [of _ s']) simp
next
  case False
  then show ?thesis
    using assms by (intro exI [of _ s]) (simp add: checkpoint_advance_def max_def)
qed

end
