(* ===== verification/Segment.thy ===== *)
theory Segment
  imports Entry
begin

text \<open>
  \<open>wal-core/src/segment.rs\<close>: one append-only segment file, its writer, the reader of a whole
  segment, and the naming scheme \<open>wal-{id:020}.seg\<close>.
\<close>

section \<open>Segment files and their names\<close>

definition DEFAULT_MAX_SEGMENT_BYTES :: u64 where
  "DEFAULT_MAX_SEGMENT_BYTES = 64 * 1024 * 1024"

definition PREFIX :: string where
  "PREFIX = ''wal-''"

definition SUFFIX :: string where
  "SUFFIX = ''.seg''"

definition segment_path :: "path \<Rightarrow> u64 \<Rightarrow> path" where
  "segment_path dir i = path_join dir (PREFIX @ zero_padded 20 (unat i) @ SUFFIX)"

definition segment_id_from_path :: "path \<Rightarrow> (u64, wal_error) res" where
  "segment_id_from_path p =
     (case file_name p of
        None \<Rightarrow> Err (InvalidSegmentFilename (concat p))
      | Some filename \<Rightarrow>
          (case Option.bind (strip_prefix PREFIX filename) (strip_suffix SUFFIX) of
             None \<Rightarrow> Err (InvalidSegmentFilename filename)
           | Some numeric \<Rightarrow>
               (case parse_u64 numeric of
                  None \<Rightarrow> Err (InvalidSegmentFilename filename)
                | Some i \<Rightarrow> Ok i)))"

definition is_segment_path :: "path \<Rightarrow> bool" where
  "is_segment_path p =
     (case file_name p of
        None \<Rightarrow> False
      | Some n \<Rightarrow> name_extension n = Some ''seg'' \<and> strip_prefix PREFIX n \<noteq> None)"

definition segment_sort_key :: "path \<Rightarrow> u64" where
  "segment_sort_key p = (case segment_id_from_path p of Ok i \<Rightarrow> i | _ \<Rightarrow> - 1)"

definition list_segments :: "path \<Rightarrow> (path list, wal_error) call" where
  "list_segments dir s =
     and_then (map_err Io (fs_read_dir dir s))
       (\<lambda>paths s. (Ok (sort_key segment_sort_key (filter is_segment_path paths)), s))"

section \<open>The writer\<close>

record segment =
  seg_id :: u64
  seg_path :: path
  seg_writer :: bytes
  seg_size :: u64
  seg_max_bytes :: u64

definition segment_create :: "path \<Rightarrow> u64 \<Rightarrow> u64 \<Rightarrow> (segment, wal_error) call" where
  "segment_create dir i max_bytes s =
     (let path = segment_path dir i in
      and_then (map_err Io (fs_create_new path s))
        (\<lambda>_ s. (Ok \<lparr>seg_id = i, seg_path = path, seg_writer = [], seg_size = 0,
                    seg_max_bytes = max_bytes\<rparr>, s)))"

definition segment_open_for_append :: "path \<Rightarrow> u64 \<Rightarrow> (segment, wal_error) call" where
  "segment_open_for_append path max_bytes s =
     and_then (segment_id_from_path path, s) (\<lambda>i s.
     and_then (map_err Io (fs_metadata_len path s)) (\<lambda>size s.
     and_then (map_err Io (fs_open_append path s)) (\<lambda>_ s.
       (Ok \<lparr>seg_id = i, seg_path = path, seg_writer = [], seg_size = size,
            seg_max_bytes = max_bytes\<rparr>, s))))"

definition on_writer :: "(bytes, 'a, io_error) meth \<Rightarrow> (segment, 'a, wal_error) meth" where
  "on_writer m gs = map_err Io (on_field seg_writer (\<lambda>b g. g\<lparr>seg_writer := b\<rparr>) m gs)"

definition segment_append :: "bytes \<Rightarrow> (segment, unit, wal_error) meth" where
  "segment_append encoded = (\<lambda>(g, s).
     let new_size = seg_size g + of_nat (length encoded) in
     if seg_max_bytes g < new_size then
       (Err (SegmentFull (seg_size g) (seg_max_bytes g) (of_nat (length encoded))), (g, s))
     else
       and_then (on_writer (bufwriter_write_all (seg_path g) encoded) (g, s))
         (\<lambda>_ (g, s). (Ok (), (g\<lparr>seg_size := new_size\<rparr>, s))))"

definition segment_flush :: "(segment, unit, wal_error) meth" where
  "segment_flush = (\<lambda>(g, s). on_writer (bufwriter_flush (seg_path g)) (g, s))"

definition segment_sync :: "(segment, unit, wal_error) meth" where
  "segment_sync = (\<lambda>(g, s).
     and_then (on_writer (bufwriter_flush (seg_path g)) (g, s))
       (\<lambda>_ (g, s). and_then (map_err Io (io (fs_sync_all (seg_path g)) (g, s)))
         (\<lambda>_ gs. (Ok (), gs))))"

lemmas segment_code [THEN fun_cong, code] =
  segment_append_def segment_flush_def segment_sync_def

definition would_overflow :: "nat \<Rightarrow> segment \<Rightarrow> bool" where
  "would_overflow encoded_len g = (seg_max_bytes g < seg_size g + of_nat encoded_len)"

section \<open>The reader\<close>

text \<open>The loop of \<open>read_entries\<close>, from \<open>offset\<close> to the end of the file.\<close>

function read_loop :: "(bytes \<Rightarrow> u32) \<Rightarrow> bytes \<Rightarrow> nat \<Rightarrow> (entry list, wal_error) res" where
  "read_loop crc raw offset =
     (if offset < length raw then
        (case entry_decode crc (drop offset raw) offset of
           Ok (e, consumed) \<Rightarrow>
             (case read_loop crc raw (offset + consumed) of
                Ok es \<Rightarrow> Ok (e # es) | Err x \<Rightarrow> Err x | Panic \<Rightarrow> Panic)
         | Err x \<Rightarrow> Err x
         | Panic \<Rightarrow> Panic)
      else Ok [])"
  by pat_completeness auto
termination
  by (relation "measure (\<lambda>(crc, raw, offset). length raw - offset)")
    (auto dest: entry_decode_sound simp: HEADER_SIZE_def)

declare read_loop.simps [simp del]

definition read_entries :: "(bytes \<Rightarrow> u32) \<Rightarrow> path \<Rightarrow> (entry list, wal_error) call" where
  "read_entries crc path s =
     and_then (map_err Io (fs_read path s)) (\<lambda>raw s. (read_loop crc raw 0, s))"

section \<open>Names: the id of a segment can be read back from its path\<close>

lemma segment_id_from_segment_path [simp]: "segment_id_from_path (segment_path dir i) = Ok i"
proof -
  have "strip_suffix SUFFIX (zero_padded 20 (unat i) @ SUFFIX) = Some (zero_padded 20 (unat i))"
    by (rule strip_suffix_append)
  then show ?thesis by (simp add: segment_id_from_path_def segment_path_def)
qed

lemma segment_path_inj [simp]: "segment_path dir i = segment_path dir j \<longleftrightarrow> i = j"
  by (metis res.inject(1) segment_id_from_segment_path)

lemma segment_sort_key_segment_path [simp]: "segment_sort_key (segment_path dir i) = i"
  by (simp add: segment_sort_key_def)

lemma is_segment_path_segment_path [simp]: "is_segment_path (segment_path dir i)"
proof -
  have "name_extension ((PREFIX @ zero_padded 20 (unat i)) @ ''.'' @ ''seg'') = Some ''seg''"
    by (rule name_extension_append) (auto simp: PREFIX_def)
  then show ?thesis
    by (simp add: is_segment_path_def segment_path_def SUFFIX_def)
qed

lemma butlast_segment_path [simp]: "butlast (segment_path dir i) = dir" "segment_path dir i \<noteq> []"
  by (simp_all add: segment_path_def path_join_def)

section \<open>Reading what was written\<close>

text \<open>The bytes of a list of entries, as they lie in a segment.\<close>

abbreviation encode_all :: "(bytes \<Rightarrow> u32) \<Rightarrow> entry list \<Rightarrow> bytes" where
  "encode_all crc es \<equiv> entry_format.stream crc es"

lemma read_loop_done: "length raw \<le> offset \<Longrightarrow> read_loop crc raw offset = Ok []"
  by (subst read_loop.simps) simp

lemma read_loop_step:
  "offset < length raw \<Longrightarrow> entry_decode crc (drop offset raw) offset = Ok (e, n) \<Longrightarrow>
   read_loop crc raw offset =
     (case read_loop crc raw (offset + n) of Ok es \<Rightarrow> Ok (e # es) | Err x \<Rightarrow> Err x | Panic \<Rightarrow> Panic)"
  by (subst read_loop.simps) simp

lemma read_loop_entry:
  assumes "entry_fits e" and "offset = length pre"
  shows "read_loop crc (pre @ encode_of crc e @ rest) offset =
    (case read_loop crc (pre @ encode_of crc e @ rest) (length (pre @ encode_of crc e)) of
       Ok es \<Rightarrow> Ok (e # es) | Err x \<Rightarrow> Err x | Panic \<Rightarrow> Panic)"
  using assms
  by (subst read_loop_step [where e = e and n = "HEADER_SIZE + length (data e)"])
    (auto simp: entry_decode_encode entry_fits_def HEADER_SIZE_def)

lemma read_loop_stream_append:
  assumes "list_all entry_fits es"
  shows "read_loop crc (pre @ encode_all crc es @ rest) (length pre) =
    (case read_loop crc (pre @ encode_all crc es @ rest) (length (pre @ encode_all crc es)) of
       Ok es' \<Rightarrow> Ok (es @ es') | Err x \<Rightarrow> Err x | Panic \<Rightarrow> Panic)"
  using assms
proof (induction es arbitrary: pre)
  case Nil
  then show ?case by (simp split: res.split)
next
  case (Cons e es)
  have "read_loop crc (pre @ encode_all crc (e # es) @ rest) (length pre) =
    (case read_loop crc ((pre @ encode_of crc e) @ encode_all crc es @ rest) (length (pre @ encode_of crc e)) of
       Ok es' \<Rightarrow> Ok (e # es') | Err x \<Rightarrow> Err x | Panic \<Rightarrow> Panic)"
    using Cons.prems read_loop_entry [of e "length pre" pre crc "encode_all crc es @ rest"] by simp
  also have "\<dots> = (case read_loop crc (pre @ encode_all crc (e # es) @ rest)
        (length (pre @ encode_all crc (e # es))) of
       Ok es' \<Rightarrow> Ok ((e # es) @ es') | Err x \<Rightarrow> Err x | Panic \<Rightarrow> Panic)"
    using Cons.prems by (subst Cons.IH) (auto split: res.split simp: add.assoc)
  finally show ?case .
qed

lemma read_loop_encode_all:
  "list_all entry_fits es \<Longrightarrow> read_loop crc (encode_all crc es) 0 = Ok es"
  using read_loop_stream_append [of es crc "[]" "[]"] by (simp add: read_loop_done)

text \<open>A torn last entry makes the whole read fail: the entries before it are not returned.\<close>

lemma read_loop_torn:
  assumes "list_all entry_fits es" and "entry_fits e"
    and "0 < n" and "n < length (encode_of crc e)"
  shows "read_loop crc (encode_all crc es @ take n (encode_of crc e)) 0 =
           Err (UnexpectedEof (length (encode_all crc es)))"
proof -
  have "read_loop crc (encode_all crc es @ take n (encode_of crc e)) (length (encode_all crc es)) =
      Err (UnexpectedEof (length (encode_all crc es)))"
    using assms by (subst read_loop.simps) (simp add: entry_decode_truncated entry_fits_def)
  then show ?thesis
    using read_loop_stream_append [OF assms(1), of crc "[]" "take n (encode_of crc e)"] by simp
qed

text \<open>Whatever a segment file holds, the reader accepts it only if it is the encoding of the
  entries it returns.\<close>

lemma read_loop_sound:
  assumes "read_loop crc raw offset = Ok es" and "offset \<le> length raw"
  shows "drop offset raw = encode_all crc es \<and> list_all entry_fits es"
  using assms
proof (induction crc raw offset arbitrary: es rule: read_loop.induct)
  case (1 crc raw offset)
  show ?case
  proof (cases "offset < length raw")
    case False
    with 1 show ?thesis by (simp add: read_loop_done)
  next
    case True
    obtain e n es' where d: "entry_decode crc (drop offset raw) offset = Ok (e, n)"
      and r: "read_loop crc raw (offset + n) = Ok es'" and es: "es = e # es'"
      using "1.prems" True by (subst (asm) read_loop.simps) (auto split: res.splits)
    from entry_decode_sound [OF d]
    have t: "take n (drop offset raw) = encode_of crc e" "offset + n \<le> length raw" "entry_fits e"
      using True by auto
    have "drop (offset + n) raw = encode_all crc es' \<and> list_all entry_fits es'"
      using "1.IH" [OF True d refl r] t(2) by simp
    then show ?thesis
      using t es append_take_drop_id [of n "drop offset raw"] by (simp add: add.commute)
  qed
qed

lemma read_loop_iff:
  "read_loop crc raw 0 = Ok es \<longleftrightarrow> raw = encode_all crc es \<and> list_all entry_fits es"
  using read_loop_sound [of crc raw 0 es] read_loop_encode_all by auto

lemma read_loop_never_panics: "read_loop crc raw offset \<noteq> Panic"
proof (induction crc raw offset rule: read_loop.induct)
  case (1 crc raw offset)
  then show ?case by (subst read_loop.simps) (auto split: res.split)
qed

end
