(* ===== verification/Wal.thy ===== *)
theory Wal
  imports Checkpoint Segment
begin

text \<open>
  \<open>wal-core/src/wal.rs\<close>: the write-ahead log. Methods with \<open>&mut self\<close> are functions on the
  pair of the \<open>Wal\<close> and the file system; methods with \<open>&self\<close> take the \<open>Wal\<close> and act on the
  file system only. Metrics have no effect on either and are left out.
\<close>

section \<open>State\<close>

record wal_config =
  wc_dir :: path
  wc_max_segment_bytes :: u64
  wc_sync_writes :: bool

definition wal_config_new :: "path \<Rightarrow> wal_config" where
  "wal_config_new dir =
     \<lparr>wc_dir = dir, wc_max_segment_bytes = DEFAULT_MAX_SEGMENT_BYTES, wc_sync_writes = True\<rparr>"

record wal =
  w_config :: wal_config
  w_active :: segment
  w_sealed :: "u64 list"
  w_checkpoint :: checkpoint
  w_next_sequence :: u64

abbreviation w_dir :: "wal \<Rightarrow> path" where
  "w_dir w \<equiv> wc_dir (w_config w)"

definition on_active :: "(segment, 'a, wal_error) meth \<Rightarrow> (wal, 'a, wal_error) meth" where
  "on_active = on_field w_active (\<lambda>g w. w\<lparr>w_active := g\<rparr>)"

section \<open>Opening\<close>

fun highest_sealed :: "(bytes \<Rightarrow> u32) \<Rightarrow> path \<Rightarrow> u64 list \<Rightarrow> (u64 option, wal_error) call" where
  "highest_sealed crc dir [] s = (Ok None, s)"
| "highest_sealed crc dir (sid # sids) s =
     and_then (read_entries crc (segment_path dir sid) s)
       (\<lambda>entries s. if entries \<noteq> [] then (Ok (Some (sequence (last entries))), s)
                    else highest_sealed crc dir sids s)"

definition highest_sequence_on_disk ::
  "(bytes \<Rightarrow> u32) \<Rightarrow> path \<Rightarrow> u64 list \<Rightarrow> path \<Rightarrow> (u64 option, wal_error) call" where
  "highest_sequence_on_disk crc active_path sealed_ids dir s =
     and_then (read_entries crc active_path s)
       (\<lambda>active_entries s.
          if active_entries \<noteq> [] then (Ok (Some (sequence (last active_entries))), s)
          else highest_sealed crc dir (rev sealed_ids) s)"

text \<open>\<open>.map(|p| segment_id_from_path(p).unwrap()).collect()\<close>.\<close>

fun unwrap_ids :: "path list \<Rightarrow> (u64 list, wal_error) res" where
  "unwrap_ids [] = Ok []"
| "unwrap_ids (p # ps) =
     (case segment_id_from_path p of
        Ok i \<Rightarrow> (case unwrap_ids ps of Ok is \<Rightarrow> Ok (i # is) | r \<Rightarrow> r)
      | _ \<Rightarrow> Panic)"

definition wal_open :: "(bytes \<Rightarrow> u32) \<Rightarrow> wal_config \<Rightarrow> (wal, wal_error) call" where
  "wal_open crc config s =
     (let dir = wc_dir config; max_bytes = wc_max_segment_bytes config in
      and_then (map_err Io (fs_create_dir_all dir s)) (\<lambda>_ s.
      and_then (checkpoint_open dir s) (\<lambda>cp s.
      and_then (list_segments dir s) (\<lambda>existing s.
      and_then
        (if existing = [] then
           and_then (segment_create dir 1 max_bytes s) (\<lambda>seg s. (Ok (seg, [], 1), s))
         else
           and_then (unwrap_ids (butlast existing), s) (\<lambda>sealed_ids s.
           let active_path = last existing in
           and_then (segment_open_for_append active_path max_bytes s) (\<lambda>active_seg s.
           and_then (highest_sequence_on_disk crc active_path sealed_ids dir s) (\<lambda>highest s.
             (Ok (active_seg, sealed_ids, case highest of Some q \<Rightarrow> q + 1 | None \<Rightarrow> 1), s)))))
        (\<lambda>(active, sealed, next_sequence) s.
           (Ok \<lparr>w_config = config, w_active = active, w_sealed = sealed, w_checkpoint = cp,
                w_next_sequence = next_sequence\<rparr>, s))))))"

section \<open>Appending\<close>

text \<open>Seal the active segment and open a fresh one. The old id is pushed before the new
  segment is created.\<close>

definition wal_rotate :: "(wal, unit, wal_error) meth" where
  "wal_rotate ws =
     and_then (on_active segment_sync ws) (\<lambda>_ (w, s).
       let old_id = seg_id (w_active w);
           w = w\<lparr>w_sealed := w_sealed w @ [old_id]\<rparr>;
           new_id = old_id + 1
       in and_then (io (segment_create (w_dir w) new_id (wc_max_segment_bytes (w_config w))) (w, s))
            (\<lambda>new_seg (w, s). (Ok (), (w\<lparr>w_active := new_seg\<rparr>, s))))"

definition wal_append :: "(bytes \<Rightarrow> u32) \<Rightarrow> bytes \<Rightarrow> (wal, u64, wal_error) meth" where
  "wal_append crc dat = (\<lambda>(w, s).
     let seq = w_next_sequence w; encoded = entry_encode crc seq dat in
     and_then (if would_overflow (length encoded) (w_active w) then wal_rotate (w, s)
               else (Ok (), (w, s)))
       (\<lambda>_ ws. and_then (on_active (segment_append encoded) ws)
       (\<lambda>_ (w, s). and_then (if wc_sync_writes (w_config w) then on_active segment_sync (w, s)
                              else on_active segment_flush (w, s))
       (\<lambda>_ (w, s). (Ok seq, (w\<lparr>w_next_sequence := seq + 1\<rparr>, s))))))"

definition wal_sync :: "(wal, unit, wal_error) meth" where
  "wal_sync = on_active segment_sync"

section \<open>Reading\<close>

fun read_sealed :: "(bytes \<Rightarrow> u32) \<Rightarrow> path \<Rightarrow> u64 \<Rightarrow> u64 list \<Rightarrow> (entry list, wal_error) call" where
  "read_sealed crc dir from_sequence [] s = (Ok [], s)"
| "read_sealed crc dir from_sequence (sid # sids) s =
     and_then (read_entries crc (segment_path dir sid) s) (\<lambda>es s.
     and_then (read_sealed crc dir from_sequence sids s) (\<lambda>rest s.
       (Ok (filter (\<lambda>e. from_sequence \<le> sequence e) es @ rest), s)))"

definition wal_read_from :: "(bytes \<Rightarrow> u32) \<Rightarrow> wal \<Rightarrow> u64 \<Rightarrow> (entry list, wal_error) call" where
  "wal_read_from crc w from_sequence s =
     and_then (read_sealed crc (w_dir w) from_sequence (w_sealed w) s) (\<lambda>result s.
     and_then (read_entries crc (seg_path (w_active w)) s) (\<lambda>es s.
       (Ok (result @ filter (\<lambda>e. from_sequence \<le> sequence e) es), s)))"

section \<open>Checkpointing, recovery, truncation\<close>

definition wal_checkpoint :: "u64 \<Rightarrow> (wal, unit, wal_error) meth" where
  "wal_checkpoint seq = on_field w_checkpoint (\<lambda>c w. w\<lparr>w_checkpoint := c\<rparr>) (checkpoint_advance seq)"

definition wal_checkpoint_sequence :: "wal \<Rightarrow> u64" where
  "wal_checkpoint_sequence w = cp_sequence (w_checkpoint w)"

definition wal_recover :: "(bytes \<Rightarrow> u32) \<Rightarrow> wal \<Rightarrow> (entry list, wal_error) call" where
  "wal_recover crc w = wal_read_from crc w (cp_sequence (w_checkpoint w) + 1)"

definition max_sequence :: "entry list \<Rightarrow> u64" where
  "max_sequence es = (case map sequence es of [] \<Rightarrow> 0 | q # qs \<Rightarrow> fold max qs q)"

fun truncate_loop :: "(bytes \<Rightarrow> u32) \<Rightarrow> path \<Rightarrow> u64 \<Rightarrow> u64 list \<Rightarrow> (u64 list, wal_error) call" where
  "truncate_loop crc dir before_sequence [] s = (Ok [], s)"
| "truncate_loop crc dir before_sequence (sid # sids) s =
     (let path = segment_path dir sid in
      and_then (read_entries crc path s) (\<lambda>entries s.
        if max_sequence entries < before_sequence then
          and_then (map_err Io (fs_remove_file path s)) (\<lambda>_ s.
            truncate_loop crc dir before_sequence sids s)
        else
          and_then (truncate_loop crc dir before_sequence sids s) (\<lambda>remaining s.
            (Ok (sid # remaining), s))))"

text \<open>\<open>self.sealed\<close> is assigned only when the whole loop has succeeded.\<close>

definition wal_truncate_before :: "(bytes \<Rightarrow> u32) \<Rightarrow> u64 \<Rightarrow> (wal, unit, wal_error) meth" where
  "wal_truncate_before crc before_sequence = (\<lambda>(w, s).
     and_then (io (truncate_loop crc (w_dir w) before_sequence (w_sealed w)) (w, s))
       (\<lambda>remaining (w, s). (Ok (), (w\<lparr>w_sealed := remaining\<rparr>, s))))"

lemmas wal_code [THEN fun_cong, code] =
  wal_append_def wal_truncate_before_def

lemmas on_active_code [THEN fun_cong, THEN fun_cong, code] =
  on_active_def

end
