(* ===== verification/Record_Log.thy ===== *)
theory Record_Log
  imports Entry
begin

text \<open>
  What the replicated log relies on when it stores its records in a WAL: the contents of the
  log are a list of entries, appending adds one at the end, reading returns a suffix by
  sequence number, truncating drops entries from the front that are all below the given
  number, and reopening gives the same log back. \<open>room w d\<close> says that the log can take
  another record \<open>d\<close> without running out of segment space or sequence numbers.
\<close>

locale record_log =
  fixes holds :: "'w \<Rightarrow> fs \<Rightarrow> entry list \<Rightarrow> bool"
    and room :: "'w \<Rightarrow> bytes \<Rightarrow> bool"
    and next_seq :: "'w \<Rightarrow> u64"
    and append :: "bytes \<Rightarrow> ('w, u64, wal_error) meth"
    and read_from :: "'w \<Rightarrow> u64 \<Rightarrow> (entry list, wal_error) call"
    and checkpoint :: "u64 \<Rightarrow> ('w, unit, wal_error) meth"
    and truncate_before :: "u64 \<Rightarrow> ('w, unit, wal_error) meth"
    and reopen :: "'w \<Rightarrow> ('w, wal_error) call"
  assumes append_law: "holds w s L \<Longrightarrow> room w d \<Longrightarrow>
      \<exists>w' s'. append d (w, s) = (Ok (next_seq w), (w', s')) \<and>
        holds w' s' (L @ [\<lparr>sequence = next_seq w, data = d\<rparr>])"
    and read_law: "holds w s L \<Longrightarrow> read_from w q s = (Ok (filter (\<lambda>e. q \<le> sequence e) L), s)"
    and checkpoint_law: "holds w s L \<Longrightarrow> \<exists>w' s'. checkpoint q (w, s) = (Ok (), (w', s')) \<and> holds w' s' L"
    and truncate_law: "holds w s L \<Longrightarrow>
      \<exists>k w' s'. truncate_before q (w, s) = (Ok (), (w', s')) \<and> holds w' s' (drop k L) \<and>
        (\<forall>e \<in> set (take k L). sequence e < q)"
    and reopen_law: "holds w s L \<Longrightarrow> L \<noteq> [] \<Longrightarrow> reopen w s = (Ok w, s)"
    and sequence_law: "holds w s L \<Longrightarrow> e \<in> set L \<Longrightarrow> 0 < sequence e \<and> sequence e < next_seq w"
begin

lemma read_all: "holds w s L \<Longrightarrow> read_from w 1 s = (Ok L, s)"
  using sequence_law [of w s L]
  by (simp add: read_law filter_id_conv u64_order Suc_le_eq)

text \<open>The step that \<open>compact\<close> and \<open>install_snapshot\<close> share: write a marker record, checkpoint at
  its sequence number and truncate before it. The marker survives, and everything the log
  lost came before it.\<close>

definition mark :: "bytes \<Rightarrow> ('w, unit, wal_error) meth" where
  "mark d ws =
     and_then (append d ws) (\<lambda>q ws.
     and_then (checkpoint q ws) (\<lambda>_ ws.
       truncate_before q ws))"

lemma mark_law:
  assumes "holds w s L" and "room w d"
  shows "\<exists>k w' s'. mark d (w, s) = (Ok (), (w', s')) \<and>
    holds w' s' (drop k L @ [\<lparr>sequence = next_seq w, data = d\<rparr>])"
proof -
  let ?e = "\<lparr>sequence = next_seq w, data = d\<rparr>"
  obtain w1 s1 where a: "append d (w, s) = (Ok (next_seq w), (w1, s1))" "holds w1 s1 (L @ [?e])"
    using append_law [OF assms] by blast
  obtain w2 s2 where c: "checkpoint (next_seq w) (w1, s1) = (Ok (), (w2, s2))" "holds w2 s2 (L @ [?e])"
    using checkpoint_law [OF a(2)] by blast
  obtain k w3 s3 where t: "truncate_before (next_seq w) (w2, s2) = (Ok (), (w3, s3))"
    "holds w3 s3 (drop k (L @ [?e]))" "\<forall>e \<in> set (take k (L @ [?e])). sequence e < next_seq w"
    using truncate_law [OF c(2)] by blast
  have "k \<le> length L"
  proof (rule ccontr)
    assume "\<not> k \<le> length L"
    then have "?e \<in> set (take k (L @ [?e]))" by simp
    with t(3) show False by fastforce
  qed
  with a c t show ?thesis by (intro exI [of _ k]) (simp add: mark_def)
qed

text \<open>Once the log is not empty it survives a restart.\<close>

lemma reopen_read:
  "holds w s L \<Longrightarrow> L \<noteq> [] \<Longrightarrow> and_then (reopen w s) (\<lambda>w s. read_from w 1 s) = (Ok L, s)"
  by (simp add: reopen_law read_all)

end

end
