(* ===== verification/Wal_Rep.thy ===== *)
theory Wal_Rep
  imports Wal Record_Log "HOL-Library.Multiset"
begin

text \<open>
  What the WAL promises: the abstract content of a WAL is the list of its entries, and
  \<open>wal_rep\<close> relates the state of \<open>Wal\<close> and the segment files to it. Every operation of a
  healthy file system is shown to act on the list as it should, and the WAL is an instance
  of the interface \<open>record_log\<close> of the replicated log.
\<close>

section \<open>The representation relation\<close>

text \<open>Each segment file holds the encoding of its entries; the directory has no other segment
  file; the entries are numbered consecutively and end just below the next sequence number.\<close>

definition seg_files :: "(bytes \<Rightarrow> u32) \<Rightarrow> path \<Rightarrow> (u64 \<times> entry list) list \<Rightarrow> fs \<Rightarrow> bool" where
  "seg_files crc dir segs s \<longleftrightarrow>
     (\<forall>(i, es) \<in> set segs. fs_content s (segment_path dir i) = Some (encode_all crc es) \<and> list_all entry_fits es)"

definition dir_exact :: "path \<Rightarrow> u64 list \<Rightarrow> fs \<Rightarrow> bool" where
  "dir_exact dir ids s \<longleftrightarrow>
     (\<forall>p. fs_content s p \<noteq> None \<and> p \<noteq> [] \<and> butlast p = dir \<and> is_segment_path p \<longrightarrow>
        p \<in> segment_path dir ` set ids)"

definition numbered :: "u64 \<Rightarrow> entry list \<Rightarrow> bool" where
  "numbered nxt L \<longleftrightarrow>
     length L < unat nxt \<and> map (\<lambda>e. unat (sequence e)) L = [unat nxt - length L ..< unat nxt]"

definition active_ok :: "(bytes \<Rightarrow> u32) \<Rightarrow> wal_config \<Rightarrow> segment \<Rightarrow> entry list \<Rightarrow> bool" where
  "active_ok crc cfg g act \<longleftrightarrow>
     seg_path g = segment_path (wc_dir cfg) (seg_id g) \<and> seg_writer g = [] \<and>
     seg_max_bytes g = wc_max_segment_bytes cfg \<and> unat (wc_max_segment_bytes cfg) < 2 ^ 63 \<and>
     seg_size g = of_nat (length (encode_all crc act)) \<and> length (encode_all crc act) < 2 ^ 63"

definition wal_rep :: "(bytes \<Rightarrow> u32) \<Rightarrow> wal \<Rightarrow> fs \<Rightarrow> (u64 \<times> entry list) list \<Rightarrow> entry list \<Rightarrow> bool" where
  "wal_rep crc w s sealed act \<longleftrightarrow>
     wf_fs s \<and> healthy s \<and> w_sealed w = map fst sealed \<and>
     sorted_wrt (<) (map fst sealed @ [seg_id (w_active w)]) \<and>
     active_ok crc (w_config w) (w_active w) act \<and>
     seg_files crc (w_dir w) (sealed @ [(seg_id (w_active w), act)]) s \<and>
     dir_exact (w_dir w) (map fst sealed @ [seg_id (w_active w)]) s \<and>
     checkpoint_in (w_dir w) (w_checkpoint w) s \<and>
     numbered (w_next_sequence w) (concat (map snd sealed) @ act)"

section \<open>Operations on one segment\<close>

lemma read_entries_segment:
  "healthy s \<Longrightarrow> fs_content s p = Some (encode_all crc es) \<Longrightarrow> list_all entry_fits es \<Longrightarrow>
   read_entries crc p s = (Ok es, s)"
  by (simp add: read_entries_def fs_healthy read_loop_encode_all)

lemma seg_writer_same: "seg_writer g = [] \<Longrightarrow> g\<lparr>seg_writer := []\<rparr> = g"
  by (cases g) simp

lemma append_flush:
  assumes "healthy s" and "seg_writer g = []" and "enc \<noteq> []"
    and "\<not> would_overflow (length enc) g"
  shows "\<exists>g1 s1. segment_append enc (g, s) = (Ok (), (g1, s1)) \<and> 
    segment_flush (g1, s1) = (Ok (), (g\<lparr>seg_size := seg_size g + of_nat (length enc)\<rparr>, extend_file (seg_path g) enc s)) \<and>
    segment_sync (g1, s1) = (Ok (), (g\<lparr>seg_size := seg_size g + of_nat (length enc)\<rparr>, sync_file (seg_path g) (extend_file (seg_path g) enc s)))"
proof -
  have eq: "g\<lparr>seg_writer := [], seg_size := n\<rparr> = g\<lparr>seg_size := n\<rparr>" for n
    using assms(2) by (cases g) simp
  have no: "\<not> seg_max_bytes g < seg_size g + of_nat (length enc)"
    using assms(4) by (simp add: would_overflow_def)
  show ?thesis
    using assms(1,2,3) no
    by (cases "length enc < BUF_CAPACITY")
      (auto simp: segment_append_def segment_flush_def segment_sync_def on_writer_def on_field_def io_def
        bufwriter_write_all_def bufwriter_flush_def fs_healthy eq seg_writer_same)
qed

section \<open>Rotation\<close>

lemma numbered_Nil: "numbered nxt [] \<longleftrightarrow> 0 < unat nxt"
  by (simp add: numbered_def)

lemma numbered_snoc:
  assumes "numbered nxt L" and "unat nxt + 1 < 2 ^ 64" and "sequence e = nxt"
  shows "numbered (nxt + 1) (L @ [e])"
proof -
  have n: "unat (nxt + 1) = Suc (unat nxt)"
    using assms(2) by (simp add: u64_arith)
  then have "[unat (nxt + 1) - length (L @ [e]) ..< unat (nxt + 1)] = [unat nxt - length L ..< unat nxt] @ [unat nxt]"
    by simp
  with assms n show ?thesis by (simp add: numbered_def)
qed

lemma segment_path_not_checkpoint:
  "segment_path dir i \<noteq> path_join dir CHECKPOINT_FILE" "segment_path dir i \<noteq> path_join dir ''checkpoint.tmp''"
  by (auto simp: segment_path_def PREFIX_def CHECKPOINT_FILE_def)

lemma checkpoint_in_frame:
  "fs_content s' (path_join dir CHECKPOINT_FILE) = fs_content s (path_join dir CHECKPOINT_FILE) \<Longrightarrow>
   checkpoint_in dir cp s' \<longleftrightarrow> checkpoint_in dir cp s"
  by (simp add: checkpoint_in_def checkpoint_cell.stored_def)

definition new_segment :: "wal_config \<Rightarrow> u64 \<Rightarrow> segment" where
  "new_segment cfg i = \<lparr>seg_id = i, seg_path = segment_path (wc_dir cfg) i, seg_writer = [], seg_size = 0,
     seg_max_bytes = wc_max_segment_bytes cfg\<rparr>"

definition rotated :: "wal \<Rightarrow> wal" where
  "rotated w = w\<lparr>w_sealed := w_sealed w @ [seg_id (w_active w)],
                 w_active := new_segment (w_config w) (seg_id (w_active w) + 1)\<rparr>"

definition rotated_fs :: "wal \<Rightarrow> fs \<Rightarrow> fs" where
  "rotated_fs w s = put_file (segment_path (w_dir w) (seg_id (w_active w) + 1)) \<lparr>f_content = [], f_durable = []\<rparr>
     (sync_file (seg_path (w_active w)) s)"

lemma next_id_fresh:
  assumes "wal_rep crc w s sealed act" and "unat (seg_id (w_active w)) + 1 < 2 ^ 64"
  shows "fs_content s (segment_path (w_dir w) (seg_id (w_active w) + 1)) = None"
    and "sorted_wrt (<) (map fst sealed @ [seg_id (w_active w), seg_id (w_active w) + 1])"
proof -
  let ?i = "seg_id (w_active w)"
  have lt: "?i < ?i + 1"
    using assms(2) by (simp add: u64_less_iff u64_arith)
  have srt: "sorted_wrt (<) (map fst sealed @ [?i])"
    using assms(1) by (simp add: wal_rep_def)
  with lt show "sorted_wrt (<) (map fst sealed @ [?i, ?i + 1])"
    by (auto simp: sorted_wrt_append intro: less_trans)
  then have "?i + 1 \<notin> set (map fst sealed @ [?i])"
    using lt by (auto simp: sorted_wrt_append)
  then have out: "segment_path (w_dir w) (?i + 1) \<notin> segment_path (w_dir w) ` set (map fst sealed @ [?i])"
    unfolding image_iff segment_path_inj by blast
  have "dir_exact (w_dir w) (map fst sealed @ [?i]) s"
    using assms(1) by (simp add: wal_rep_def)
  then have "fs_content s (segment_path (w_dir w) (?i + 1)) \<noteq> None \<Longrightarrow>
      segment_path (w_dir w) (?i + 1) \<in> segment_path (w_dir w) ` set (map fst sealed @ [?i])"
    unfolding dir_exact_def by (metis butlast_segment_path is_segment_path_segment_path)
  with out show "fs_content s (segment_path (w_dir w) (?i + 1)) = None"
    by blast
qed

lemma wal_rotate_eq:
  assumes "wal_rep crc w s sealed act" and "unat (seg_id (w_active w)) + 1 < 2 ^ 64"
  shows "wal_rotate (w, s) = (Ok (), (rotated w, rotated_fs w s))"
proof -
  have "fs_content (sync_file p s) (segment_path (w_dir w) (seg_id (w_active w) + 1)) = None" for p
    using next_id_fresh(1) [OF assms] by (simp add: fs_laws)
  then show ?thesis
    using assms(1) 
    by (simp add: wal_rotate_def on_active_def on_field_def segment_sync_def on_writer_def bufwriter_flush_def
      io_def fs_healthy segment_create_def wal_rep_def active_ok_def Let_def rotated_def rotated_fs_def new_segment_def seg_writer_same)
qed

lemma wal_rep_rotated:
  assumes "wal_rep crc w s sealed act" and "unat (seg_id (w_active w)) + 1 < 2 ^ 64"
  shows "wal_rep crc (rotated w) (rotated_fs w s) (sealed @ [(seg_id (w_active w), act)]) []"
proof -
  note fresh = next_id_fresh [OF assms]
  have ck: "fs_content (rotated_fs w s) (path_join (w_dir w) CHECKPOINT_FILE)
     = fs_content s (path_join (w_dir w) CHECKPOINT_FILE)"
    using segment_path_not_checkpoint(1) [THEN not_sym] by (simp add: rotated_fs_def fs_laws)
  have neq: "i \<noteq> seg_id (w_active w) + 1" if "i \<in> set (map fst sealed @ [seg_id (w_active w)])" for i
    using fresh(2) that by (auto simp: sorted_wrt_append)
  have sf: "seg_files crc (w_dir w) (sealed @ [(seg_id (w_active w), act), (seg_id (w_active w) + 1, [])]) (rotated_fs w s)"
    using assms(1) neq 
    by (force simp: wal_rep_def seg_files_def rotated_fs_def fs_laws)
  have de: "dir_exact (w_dir w) (map fst sealed @ [seg_id (w_active w), seg_id (w_active w) + 1]) (rotated_fs w s)"
    using assms(1) by (auto simp: wal_rep_def dir_exact_def rotated_fs_def fs_laws split: if_splits)
  show ?thesis
    using assms(1) sf de fresh(2) checkpoint_in_frame [OF ck]
    by (simp add: wal_rep_def rotated_def new_segment_def active_ok_def rotated_fs_def)
qed

section \<open>Appending\<close>

definition appended :: "(bytes \<Rightarrow> u32) \<Rightarrow> bytes \<Rightarrow> wal \<Rightarrow> wal" where
  "appended crc dat w = w\<lparr>
     w_active := (w_active w)\<lparr>seg_size := seg_size (w_active w) +
        of_nat (length (entry_encode crc (w_next_sequence w) dat))\<rparr>,
     w_next_sequence := w_next_sequence w + 1\<rparr>"

definition appended_fs :: "(bytes \<Rightarrow> u32) \<Rightarrow> bytes \<Rightarrow> wal \<Rightarrow> fs \<Rightarrow> fs" where
  "appended_fs crc dat w s =
     (let s' = extend_file (seg_path (w_active w)) (entry_encode crc (w_next_sequence w) dat) s
      in if wc_sync_writes (w_config w) then sync_file (seg_path (w_active w)) s' else s')"

lemma wal_append_no_rotate:
  assumes "healthy s" and "seg_writer (w_active w) = []"
    and "\<not> would_overflow (length (entry_encode crc (w_next_sequence w) dat)) (w_active w)"
  shows "wal_append crc dat (w, s) = (Ok (w_next_sequence w), (appended crc dat w, appended_fs crc dat w s))"
proof -
  let ?enc = "entry_encode crc (w_next_sequence w) dat"
  obtain g1 s1 where a: "segment_append ?enc (w_active w, s) = (Ok (), (g1, s1))"
    and f: "segment_flush (g1, s1) = (Ok (), ((w_active w)\<lparr>seg_size := seg_size (w_active w) + of_nat (length ?enc)\<rparr>,
      extend_file (seg_path (w_active w)) ?enc s))"
    and y: "segment_sync (g1, s1) = (Ok (), ((w_active w)\<lparr>seg_size := seg_size (w_active w) + of_nat (length ?enc)\<rparr>,
      sync_file (seg_path (w_active w)) (extend_file (seg_path (w_active w)) ?enc s)))"
    using append_flush [OF assms(1,2) entry_encode_not_Nil assms(3)] by blast
  show ?thesis
    using assms(3) a f y
    by (simp add: wal_append_def on_active_def on_field_def Let_def appended_def appended_fs_def)
qed

lemma wal_append_rotate:
  assumes "would_overflow (length (entry_encode crc (w_next_sequence w) dat)) (w_active w)"
    and "wal_rotate (w, s) = (Ok (), (w1, s1))" and "w_next_sequence w1 = w_next_sequence w"
    and "\<not> would_overflow (length (entry_encode crc (w_next_sequence w1) dat)) (w_active w1)"
  shows "wal_append crc dat (w, s) = wal_append crc dat (w1, s1)"
  using assms by (simp add: wal_append_def Let_def)

lemma would_overflow_iff:
  assumes "active_ok crc cfg g act" and "length dat < 2 ^ 32"
  shows "would_overflow (HEADER_SIZE + length dat) g \<longleftrightarrow>
    unat (wc_max_segment_bytes cfg) < length (encode_all crc act) + HEADER_SIZE + length dat"
  using assms by (simp add: active_ok_def would_overflow_def u64_less_iff unat_word_ariths unat_of_nat HEADER_SIZE_def add.assoc)

lemma wal_rep_appended:
  assumes rep: "wal_rep crc w s sealed act" and dat: "length dat < 2 ^ 32"
    and nxt: "unat (w_next_sequence w) + 1 < 2 ^ 64"
    and fits: "\<not> would_overflow (length (entry_encode crc (w_next_sequence w) dat)) (w_active w)"
  shows "wal_rep crc (appended crc dat w) (appended_fs crc dat w s) sealed
           (act @ [\<lparr>sequence = w_next_sequence w, data = dat\<rparr>])"
proof -
  let ?e = "\<lparr>sequence = w_next_sequence w, data = dat\<rparr>"
  let ?p = "segment_path (w_dir w) (seg_id (w_active w))"
  have ok: "active_ok crc (w_config w) (w_active w) act"
    using rep by (simp add: wal_rep_def)
  then have p: "seg_path (w_active w) = ?p" by (simp add: active_ok_def)
  have len: "length (encode_all crc act) + HEADER_SIZE + length dat \<le> unat (wc_max_segment_bytes (w_config w))"
    using would_overflow_iff [OF ok dat] fits by simp
  have ct: "fs_content (appended_fs crc dat w s) = (fs_content s)(?p := Some (encode_all crc (act @ [?e])))"
    using rep by (auto simp: appended_fs_def Let_def fs_laws p wal_rep_def seg_files_def)
  have "active_ok crc (w_config w) (w_active (appended crc dat w)) (act @ [?e])"
    using ok len by (auto simp: active_ok_def appended_def add.commute)
  moreover have "wf_fs (appended_fs crc dat w s) \<and> healthy (appended_fs crc dat w s)"
    using rep by (simp add: appended_fs_def Let_def wal_rep_def)
  moreover have "seg_files crc (w_dir w) (sealed @ [(seg_id (w_active w), act @ [?e])]) (appended_fs crc dat w s)"
    using rep dat by (fastforce simp: wal_rep_def seg_files_def ct entry_fits_def sorted_wrt_append)
  moreover have "dir_exact (w_dir w) (map fst sealed @ [seg_id (w_active w)]) (appended_fs crc dat w s)"
    using rep by (auto simp: wal_rep_def dir_exact_def ct split: if_splits)
  moreover have "checkpoint_in (w_dir w) (w_checkpoint w) (appended_fs crc dat w s)"
    using rep segment_path_not_checkpoint(1) [THEN not_sym]
      checkpoint_in_frame [of "appended_fs crc dat w s" "w_dir w" s] by (simp add: ct wal_rep_def)
  moreover have "numbered (w_next_sequence w + 1) (concat (map snd sealed) @ act @ [?e])"
    using rep numbered_snoc [OF _ nxt, of "concat (map snd sealed) @ act" ?e] by (simp add: wal_rep_def)
  ultimately show ?thesis
    using rep by (simp add: wal_rep_def appended_def)
qed

section \<open>Reading\<close>

lemma read_sealed_segments:
  "healthy s \<Longrightarrow> seg_files crc dir segs s \<Longrightarrow>
   read_sealed crc dir from (map fst segs) s =
     (Ok (filter (\<lambda>e. from \<le> sequence e) (concat (map snd segs))), s)"
proof (induction segs)
  case (Cons x segs)
  obtain i es where x: "x = (i, es)" by fastforce
  have "seg_files crc dir segs s" and "read_entries crc (segment_path dir i) s = (Ok es, s)"
    using Cons.prems by (auto simp: seg_files_def x intro: read_entries_segment)
  then show ?case
    using Cons by (simp add: x)
qed simp

lemma wal_read_from_rep:
  assumes "wal_rep crc w s sealed act"
  shows "wal_read_from crc w from s =
    (Ok (filter (\<lambda>e. from \<le> sequence e) (concat (map snd sealed) @ act)), s)"
proof -
  have "seg_files crc (w_dir w) sealed s" and h: "healthy s" and "w_sealed w = map fst sealed"
    and "read_entries crc (seg_path (w_active w)) s = (Ok act, s)"
    using assms by (auto simp: wal_rep_def seg_files_def active_ok_def intro: read_entries_segment)
  then show ?thesis
    using read_sealed_segments [OF h] by (simp add: wal_read_from_def)
qed

section \<open>Truncation\<close>

lemma max_sequence_less_iff:
  "max_sequence es < b \<longleftrightarrow> (\<forall>e \<in> set es. sequence e < b) \<and> (es = [] \<longrightarrow> 0 < b)"
proof (cases es)
  case (Cons e es')
  have "max_sequence es = Max (set (sequence e # map sequence es'))"
    using Cons by (simp only: max_sequence_def list.map list.case Max.set_eq_fold)
  then show ?thesis using Cons by simp
qed (simp add: max_sequence_def)

lemma numbered_strict:
  assumes "numbered nxt L"
  shows "sorted_wrt (\<lambda>a b. sequence a < sequence b) L"
proof -
  have "sorted_wrt (<) (map (\<lambda>e. unat (sequence e)) L)"
    using assms by (simp add: numbered_def)
  then show ?thesis
    by (simp add: sorted_wrt_map u64_less_iff)
qed

lemma numbered_drop: "numbered nxt L \<Longrightarrow> numbered nxt (drop k L)"
  by (cases "k \<le> length L") (auto simp: numbered_def drop_map [symmetric])

definition kept :: "u64 \<Rightarrow> (u64 \<times> entry list) list \<Rightarrow> (u64 \<times> entry list) list" where
  "kept before segs = filter (\<lambda>(i, es). \<not> max_sequence es < before) segs"

lemma kept_suffix:
  assumes "sorted_wrt (\<lambda>a b. sequence a < sequence b) (concat (map snd segs))"
  shows "\<exists>k. concat (map snd (kept before segs)) = drop k (concat (map snd segs)) \<and>
    (\<forall>e \<in> set (take k (concat (map snd segs))). sequence e < before)"
  using assms
proof (induction segs)
  case (Cons x segs)
  obtain i es where x: "x = (i, es)" by fastforce
  show ?case
  proof (cases "max_sequence es < before")
    case True
    obtain k where "concat (map snd (kept before segs)) = drop k (concat (map snd segs))"
      "\<forall>e \<in> set (take k (concat (map snd segs))). sequence e < before"
      using Cons by (auto simp: sorted_wrt_append)
    with True show ?thesis
      by (intro exI [of _ "length es + k"]) (auto simp: kept_def x max_sequence_less_iff)
  next
    case False
    have "concat (map snd (kept before segs)) = concat (map snd segs)"
      if "\<forall>e \<in> set (concat (map snd segs)). \<not> sequence e < before"
      using that
    proof (induction segs)
      case (Cons y ys)
      then show ?case by (cases "snd y") (auto simp: kept_def max_sequence_less_iff split: prod.splits)
    qed (simp add: kept_def)
    moreover have "\<forall>e \<in> set (concat (map snd segs)). \<not> sequence e < before"
    proof
      fix e assume e: "e \<in> set (concat (map snd segs))"
      show "\<not> sequence e < before"
      proof (cases "es = []")
        case True
        with False have "before = 0" by (simp add: max_sequence_def u64_order)
        then show ?thesis by simp
      next
        case nonempty: False
        then obtain e' where "e' \<in> set es" "\<not> sequence e' < before"
          using False by (auto simp: max_sequence_less_iff)
        moreover from this(1) e have "sequence e' < sequence e"
          using Cons.prems by (auto simp: x sorted_wrt_append)
        ultimately show ?thesis by order
      qed
    qed
    ultimately show ?thesis
      using False by (intro exI [of _ 0]) (simp add: kept_def x)
  qed
qed (simp add: kept_def)

lemma truncate_loop_segments:
  assumes "healthy s" and "wf_fs s" and "seg_files crc dir segs s" and "distinct (map fst segs)"
  shows "\<exists>s'. truncate_loop crc dir before (map fst segs) s = (Ok (map fst (kept before segs)), s') \<and>
    healthy s' \<and> wf_fs s' \<and>
    fs_content s' = (\<lambda>p. if \<exists>(i, es) \<in> set segs. p = segment_path dir i \<and> max_sequence es < before
                     then None else fs_content s p) \<and>
    fs_durable s' = (\<lambda>p. if \<exists>(i, es) \<in> set segs. p = segment_path dir i \<and> max_sequence es < before
                     then None else fs_durable s p)"
  using assms
proof (induction segs arbitrary: s)
  case (Cons x segs)
  obtain i es where x: "x = (i, es)" by fastforce
  have r: "read_entries crc (segment_path dir i) s = (Ok es, s)"
    using Cons.prems by (auto simp: seg_files_def x intro: read_entries_segment)
  show ?case
  proof (cases "max_sequence es < before")
    case True
    let ?s1 = "s\<lparr>files := AList.delete (segment_path dir i) (files s)\<rparr>"
    have rm: "fs_remove_file (segment_path dir i) s = (Ok (), ?s1)"
      using Cons.prems by (subst fs_remove_file_healthy) (auto simp: seg_files_def x)
    have "seg_files crc dir segs ?s1"
      using Cons.prems by (auto simp: seg_files_def x fs_laws rev_image_eqI)
    then obtain s' where "truncate_loop crc dir before (map fst segs) ?s1 = (Ok (map fst (kept before segs)), s')"
      "healthy s'" "wf_fs s'"
      "fs_content s' = (\<lambda>p. if \<exists>(i, es) \<in> set segs. p = segment_path dir i \<and> max_sequence es < before
                     then None else fs_content ?s1 p)"
      "fs_durable s' = (\<lambda>p. if \<exists>(i, es) \<in> set segs. p = segment_path dir i \<and> max_sequence es < before
                     then None else fs_durable ?s1 p)"
      using Cons.IH [of ?s1] Cons.prems by auto
    then show ?thesis
      using True r rm by (intro exI [of _ s']) (auto simp: x kept_def fs_laws fun_eq_iff)
  next
    case False
    have "seg_files crc dir segs s" using Cons.prems by (simp add: seg_files_def)
    then obtain s' where "truncate_loop crc dir before (map fst segs) s = (Ok (map fst (kept before segs)), s')"
      "healthy s'" "wf_fs s'"
      "fs_content s' = (\<lambda>p. if \<exists>(i, es) \<in> set segs. p = segment_path dir i \<and> max_sequence es < before
                     then None else fs_content s p)"
      "fs_durable s' = (\<lambda>p. if \<exists>(i, es) \<in> set segs. p = segment_path dir i \<and> max_sequence es < before
                     then None else fs_durable s p)"
      using Cons.IH [of s] Cons.prems by auto
    then show ?thesis
      using False r by (intro exI [of _ s']) (auto simp: x kept_def fun_eq_iff)
  qed
qed (simp add: kept_def)

lemma kept_subset: "set (kept before segs) \<subseteq> set segs"
  by (auto simp: kept_def)

lemma sorted_kept: "sorted_wrt (<) (map fst segs) \<Longrightarrow> sorted_wrt (<) (map fst (kept before segs))"
  by (simp add: kept_def sorted_wrt_map sorted_wrt_filter)

lemma wal_truncate_rep:
  assumes rep: "wal_rep crc w s sealed act"
  shows "\<exists>w' s'. wal_truncate_before crc before (w, s) = (Ok (), (w', s')) \<and>
    wal_rep crc w' s' (kept before sealed) act \<and> w' = w\<lparr>w_sealed := map fst (kept before sealed)\<rparr> \<and>
    (\<forall>i \<in> insert (seg_id (w_active w)) (set (w_sealed w')).
       fs_durable s' (segment_path (w_dir w) i) = fs_durable s (segment_path (w_dir w) i) \<and>
       fs_content s' (segment_path (w_dir w) i) = fs_content s (segment_path (w_dir w) i))"
proof -
  let ?i = "seg_id (w_active w)"
  have srt: "sorted_wrt (<) (map fst sealed @ [?i])" and num: "numbered (w_next_sequence w) (concat (map snd sealed) @ act)"
    and sf: "seg_files crc (w_dir w) sealed s" and h: "healthy s" "wf_fs s" and sl: "w_sealed w = map fst sealed"
    using rep by (auto simp: wal_rep_def seg_files_def)
  then have dst: "distinct (map fst sealed)"
    by (simp add: sorted_wrt_append strict_sorted_iff)
  obtain s' where loop: "truncate_loop crc (w_dir w) before (map fst sealed) s = (Ok (map fst (kept before sealed)), s')"
    and hs': "healthy s'" "wf_fs s'"
    and ct: "fs_content s' = (\<lambda>p. if \<exists>(i, es) \<in> set sealed. p = segment_path (w_dir w) i \<and> max_sequence es < before
                     then None else fs_content s p)"
    and du: "fs_durable s' = (\<lambda>p. if \<exists>(i, es) \<in> set sealed. p = segment_path (w_dir w) i \<and> max_sequence es < before
                     then None else fs_durable s p)"
    using truncate_loop_segments [OF h sf dst] by blast
  let ?w = "w\<lparr>w_sealed := map fst (kept before sealed)\<rparr>"
  have same: "\<not> (\<exists>(j, es') \<in> set sealed. segment_path (w_dir w) i = segment_path (w_dir w) j \<and> max_sequence es' < before)"
    if "i = ?i \<or> (\<exists>es. (i, es) \<in> set (kept before sealed))" for i
    using that srt eq_key_imp_eq_value [OF dst] by (auto simp: sorted_wrt_append kept_def)
  have same': "fs_content s' (segment_path (w_dir w) i) = fs_content s (segment_path (w_dir w) i)"
    "fs_durable s' (segment_path (w_dir w) i) = fs_durable s (segment_path (w_dir w) i)"
    if "i \<in> insert ?i (set (map fst (kept before sealed)))" for i
  proof -
    from that have "i = ?i \<or> (\<exists>es. (i, es) \<in> set (kept before sealed))" by auto
    from same [OF this]
    show "fs_content s' (segment_path (w_dir w) i) = fs_content s (segment_path (w_dir w) i)"
      "fs_durable s' (segment_path (w_dir w) i) = fs_durable s (segment_path (w_dir w) i)"
      unfolding ct du by (simp_all only: if_False)
  qed
  have run: "wal_truncate_before crc before (w, s) = (Ok (), (?w, s'))"
    using loop by (simp add: wal_truncate_before_def io_def sl)
  obtain k where k: "concat (map snd (kept before sealed)) = drop k (concat (map snd sealed))"
    using kept_suffix numbered_strict [OF num] by (force simp: sorted_wrt_append)
  have "numbered (w_next_sequence w) (concat (map snd (kept before sealed)) @ act)"
  proof (cases "k \<le> length (concat (map snd sealed))")
    case True
    with numbered_drop [OF num, of k] show ?thesis by (simp add: k)
  next
    case False
    with numbered_drop [OF num, of "length (concat (map snd sealed))"] show ?thesis by (simp add: k)
  qed
  moreover have "seg_files crc (w_dir w) (kept before sealed @ [(?i, act)]) s'"
  proof -
    have "seg_files crc (w_dir w) (sealed @ [(?i, act)]) s" using rep by (simp add: wal_rep_def)
    then have old: "fs_content s (segment_path (w_dir w) j) = Some (encode_all crc es) \<and> list_all entry_fits es"
      if "(j, es) \<in> set (sealed @ [(?i, act)])" for j es
      using that by (auto simp: seg_files_def)
    have "fs_content s' (segment_path (w_dir w) j) = Some (encode_all crc es) \<and> list_all entry_fits es"
      if "(j, es) \<in> set (kept before sealed @ [(?i, act)])" for j es
    proof -
      have "(j, es) \<in> set (sealed @ [(?i, act)])" and "j \<in> insert ?i (set (map fst (kept before sealed)))"
        using that kept_subset [of before sealed] by (auto intro: rev_image_eqI)
      with old same'(1) show ?thesis by simp
    qed
    then show ?thesis by (auto simp: seg_files_def)
  qed
  moreover have "dir_exact (w_dir w) (map fst (kept before sealed) @ [?i]) s'"
  proof -
    have de: "dir_exact (w_dir w) (map fst sealed @ [?i]) s" using rep by (simp add: wal_rep_def)
    show ?thesis
      unfolding dir_exact_def
    proof (intro allI impI, elim conjE)
      fix p assume p: "fs_content s' p \<noteq> None" "p \<noteq> []" "butlast p = w_dir w" "is_segment_path p"
      then have "fs_content s p \<noteq> None"
        and live: "\<not> (\<exists>(i, es) \<in> set sealed. p = segment_path (w_dir w) i \<and> max_sequence es < before)"
        unfolding ct by (simp_all split: if_splits)
      with p de obtain j where j: "p = segment_path (w_dir w) j" "j \<in> set (map fst sealed @ [?i])"
        unfolding dir_exact_def by blast
      show "p \<in> segment_path (w_dir w) ` set (map fst (kept before sealed) @ [?i])"
      proof (cases "j = ?i")
        case False
        with j obtain es where "(j, es) \<in> set sealed" by auto
        with live j have "(j, es) \<in> set (kept before sealed)" by (auto simp: kept_def)
        then have "j \<in> set (map fst (kept before sealed) @ [?i])" by (auto intro: rev_image_eqI)
        with j show ?thesis by blast
      qed (use j in auto)
    qed
  qed
  moreover have "checkpoint_in (w_dir w) (w_checkpoint w) s'"
    using rep segment_path_not_checkpoint(1) [THEN not_sym]
      checkpoint_in_frame [of s' "w_dir w" s] by (simp add: ct wal_rep_def case_prod_beta)
  moreover have "sorted_wrt (<) (map fst (kept before sealed) @ [?i])"
    using srt sorted_kept kept_subset [of before sealed] by (fastforce simp: sorted_wrt_append)
  ultimately have "wal_rep crc ?w s' (kept before sealed) act"
    using rep hs' by (simp add: wal_rep_def)
  moreover have "\<forall>i \<in> insert ?i (set (w_sealed ?w)).
       fs_durable s' (segment_path (w_dir w) i) = fs_durable s (segment_path (w_dir w) i) \<and>
       fs_content s' (segment_path (w_dir w) i) = fs_content s (segment_path (w_dir w) i)"
    using same' by simp
  ultimately show ?thesis
    using run by blast
qed

section \<open>Opening\<close>

lemma list_segments_exact:
  assumes "healthy s" and "wf_fs s" and "dir_exact dir ids s" and "sorted_wrt (<) ids"
    and "\<forall>i \<in> set ids. fs_content s (segment_path dir i) \<noteq> None"
  shows "list_segments dir s = (Ok (map (segment_path dir) ids), s)"
proof -
  let ?xs = "filter is_segment_path (filter (\<lambda>p. p \<noteq> [] \<and> butlast p = dir) (map fst (files s)))"
  have set: "set ?xs = segment_path dir ` set ids"
  proof (rule set_eqI)
    fix p
    have "p \<in> set (map fst (files s)) \<longleftrightarrow> fs_content s p \<noteq> None"
      using dom_fs_content [of s] by (auto simp: dom_def)
    then have "p \<in> set ?xs \<longleftrightarrow> fs_content s p \<noteq> None \<and> p \<noteq> [] \<and> butlast p = dir \<and> is_segment_path p"
      by auto
    also have "\<dots> \<longleftrightarrow> p \<in> segment_path dir ` set ids"
    proof
      assume "fs_content s p \<noteq> None \<and> p \<noteq> [] \<and> butlast p = dir \<and> is_segment_path p"
      with assms(3) show "p \<in> segment_path dir ` set ids" by (simp add: dir_exact_def)
    next
      assume "p \<in> segment_path dir ` set ids"
      with assms(5) show "fs_content s p \<noteq> None \<and> p \<noteq> [] \<and> butlast p = dir \<and> is_segment_path p" by auto
    qed
    finally show "p \<in> set ?xs \<longleftrightarrow> p \<in> segment_path dir ` set ids" .
  qed
  have srt: "sorted ids \<and> distinct ids"
    using assms(4) by (simp add: strict_sorted_iff)
  have d: "distinct ?xs" "distinct (map (segment_path dir) ids)"
    using assms(2) srt by (auto simp: wf_fs_def distinct_map inj_on_def)
  have "mset ?xs = mset (map (segment_path dir) ids)"
    by (rule iffD1 [OF set_eq_iff_mset_eq_distinct [OF d]]) (simp only: set list.set_map)
  moreover have "inj_on segment_sort_key (set ?xs)"
    unfolding set by (auto simp: inj_on_def)
  moreover have "sorted (map segment_sort_key (map (segment_path dir) ids))"
    using srt by (simp add: o_def)
  ultimately have "sort_key segment_sort_key ?xs = map (segment_path dir) ids"
    by (rule sort_key_inj_key_eq)
  then show ?thesis
    by (simp add: list_segments_def fs_healthy assms(1))
qed

lemma unwrap_ids_segment_paths [simp]: "unwrap_ids (map (segment_path dir) ids) = Ok ids"
  by (induction ids) auto

lemma highest_sealed_segments:
  "healthy s \<Longrightarrow> seg_files crc dir segs s \<Longrightarrow>
   highest_sealed crc dir (rev (map fst segs)) s =
     (Ok (if concat (map snd segs) = [] then None else Some (sequence (last (concat (map snd segs))))), s)"
proof (induction segs rule: rev_induct)
  case (snoc x segs)
  obtain i es where x: "x = (i, es)" by fastforce
  have "seg_files crc dir segs s" and "read_entries crc (segment_path dir i) s = (Ok es, s)"
    using snoc.prems by (auto simp: seg_files_def x intro: read_entries_segment)
  then show ?case
    using snoc by (simp add: x)
qed simp

definition resume_sequence :: "entry list \<Rightarrow> u64" where
  "resume_sequence L = (if L = [] then 1 else sequence (last L) + 1)"

definition reopened :: "wal_config \<Rightarrow> fs \<Rightarrow> (u64 \<times> entry list) list \<Rightarrow> u64 \<Rightarrow> entry list \<Rightarrow> (bytes \<Rightarrow> u32) \<Rightarrow> wal" where
  "reopened cfg s sealed i act crc =
     \<lparr>w_config = cfg,
      w_active = \<lparr>seg_id = i, seg_path = segment_path (wc_dir cfg) i, seg_writer = [],
                  seg_size = of_nat (length (encode_all crc act)), seg_max_bytes = wc_max_segment_bytes cfg\<rparr>,
      w_sealed = map fst sealed,
      w_checkpoint = \<lparr>cp_path = path_join (wc_dir cfg) CHECKPOINT_FILE,
                      cp_sequence = checkpoint_cell.stored (wc_dir cfg) s\<rparr>,
      w_next_sequence = resume_sequence (concat (map snd sealed) @ act)\<rparr>"

lemma wal_open_segments:
  assumes h: "healthy s" "wf_fs s" and srt: "sorted_wrt (<) (map fst sealed @ [i])"
    and sf: "seg_files crc (wc_dir cfg) (sealed @ [(i, act)]) s"
    and de: "dir_exact (wc_dir cfg) (map fst sealed @ [i]) s"
  shows "wal_open crc cfg s = (Ok (reopened cfg s sealed i act crc), s)"
proof -
  let ?dir = "wc_dir cfg"
  have ls: "list_segments ?dir s = (Ok (map (segment_path ?dir) (map fst sealed @ [i])), s)"
    using sf by (intro list_segments_exact h de srt) (auto simp: seg_files_def)
  have act: "fs_content s (segment_path ?dir i) = Some (encode_all crc act)"
    and ra: "read_entries crc (segment_path ?dir i) s = (Ok act, s)"
    using sf h(1) by (auto simp: seg_files_def intro: read_entries_segment)
  have hs: "highest_sealed crc ?dir (rev (map fst sealed)) s =
     (Ok (if concat (map snd sealed) = [] then None else Some (sequence (last (concat (map snd sealed))))), s)"
    using sf by (intro highest_sealed_segments h) (simp add: seg_files_def)
  have hi: "highest_sequence_on_disk crc (segment_path ?dir i) (map fst sealed) ?dir s =
     (Ok (if concat (map snd sealed) @ act = [] then None
          else Some (sequence (last (concat (map snd sealed) @ act)))), s)"
    by (simp add: highest_sequence_on_disk_def ra hs)
  have un: "unwrap_ids (butlast (map (segment_path ?dir) (map fst sealed @ [i]))) = Ok (map fst sealed)"
    by (simp del: map_map)
  have op: "segment_open_for_append (segment_path ?dir i) (wc_max_segment_bytes cfg) s =
     (Ok \<lparr>seg_id = i, seg_path = segment_path ?dir i, seg_writer = [],
          seg_size = of_nat (length (encode_all crc act)), seg_max_bytes = wc_max_segment_bytes cfg\<rparr>, s)"
    by (simp add: segment_open_for_append_def fs_healthy h act)
  obtain ps where ls': "list_segments ?dir s = (Ok ps, s)" and ps: "ps \<noteq> []" "last ps = segment_path ?dir i"
    "unwrap_ids (butlast ps) = Ok (map fst sealed)"
    using ls un by (metis (no_types, lifting) append_is_Nil_conv last_snoc list.distinct(1) list.map(2) map_append map_is_Nil_conv self_append_conv2 list.map(1))
  show ?thesis
    by (simp add: wal_open_def Let_def fs_healthy checkpoint_open_healthy reopened_def resume_sequence_def
      h ls' ps hi op)
qed

lemma numbered_resume:
  assumes "numbered nxt L"
  shows "resume_sequence L = (if L = [] then 1 else nxt)"
proof (cases "L = []")
  case False
  have "unat (sequence (last L)) = last (map (\<lambda>e. unat (sequence e)) L)"
    using False by (simp add: last_map)
  also have "\<dots> = unat nxt - 1"
    using assms False by (simp add: numbered_def)
  finally have "unat (sequence (last L)) = unat nxt - 1" .
  moreover have "0 < unat nxt" using assms by (simp add: numbered_def)
  ultimately have "sequence (last L) + 1 = nxt"
    using unat_u64_less [of nxt] by (simp add: u64_eq_iff u64_arith)
  with False show ?thesis by (simp add: resume_sequence_def)
qed (simp add: resume_sequence_def)

lemma wal_rep_reopen:
  assumes "wal_rep crc w s sealed act" and "concat (map snd sealed) @ act = [] \<longrightarrow> w_next_sequence w = 1"
  shows "wal_open crc (w_config w) s = (Ok w, s)"
proof -
  have "resume_sequence (concat (map snd sealed) @ act) = w_next_sequence w"
    using assms numbered_resume [of "w_next_sequence w" "concat (map snd sealed) @ act"]
    by (metis wal_rep_def)
  then have "reopened (w_config w) s sealed (seg_id (w_active w)) act crc = w"
    using assms(1) by (cases w, cases "w_active w", cases "w_checkpoint w")
      (simp add: wal_rep_def reopened_def active_ok_def checkpoint_in_def)
  moreover have "wal_open crc (w_config w) s =
      (Ok (reopened (w_config w) s sealed (seg_id (w_active w)) act crc), s)"
    using assms(1) by (intro wal_open_segments) (auto simp: wal_rep_def)
  ultimately show ?thesis by simp
qed

lemma wal_open_fresh:
  assumes "healthy s" and "wf_fs s" and "dir_exact (wc_dir cfg) [] s" and "unat (wc_max_segment_bytes cfg) < 2 ^ 63"
  shows "\<exists>w s'. wal_open crc cfg s = (Ok w, s') \<and> wal_rep crc w s' [] [] \<and> w_config w = cfg \<and>
    w_next_sequence w = 1 \<and> w_active w = new_segment cfg 1 \<and>
    s' = put_file (segment_path (wc_dir cfg) 1) \<lparr>f_content = [], f_durable = []\<rparr> s \<and>
    cp_sequence (w_checkpoint w) = checkpoint_cell.stored (wc_dir cfg) s"
proof -
  let ?dir = "wc_dir cfg" and ?s = "put_file (segment_path (wc_dir cfg) 1) \<lparr>f_content = [], f_durable = []\<rparr> s"
  let ?w = "\<lparr>w_config = cfg, w_active = new_segment cfg 1, w_sealed = [],
      w_checkpoint = \<lparr>cp_path = path_join ?dir CHECKPOINT_FILE, cp_sequence = checkpoint_cell.stored ?dir s\<rparr>,
      w_next_sequence = 1\<rparr>"
  have none: "fs_content s (segment_path ?dir 1) = None"
    using assms(3) by (force simp: dir_exact_def)
  have ls: "list_segments ?dir s = (Ok [], s)"
    using list_segments_exact [OF assms(1,2,3)] by simp
  have run: "wal_open crc cfg s = (Ok ?w, ?s)"
    using none ls assms(1)
    by (simp add: wal_open_def Let_def fs_healthy checkpoint_open_healthy segment_create_def new_segment_def)
  have "fs_content ?s (path_join ?dir CHECKPOINT_FILE) = fs_content s (path_join ?dir CHECKPOINT_FILE)"
    using segment_path_not_checkpoint(1) [THEN not_sym] by (simp add: fs_laws)
  then have "checkpoint_in ?dir \<lparr>cp_path = path_join ?dir CHECKPOINT_FILE, cp_sequence = checkpoint_cell.stored ?dir s\<rparr> ?s"
    by (simp add: checkpoint_in_def checkpoint_cell.stored_def)
  then have "wal_rep crc ?w ?s [] []"
    using assms by (auto simp: wal_rep_def new_segment_def active_ok_def seg_files_def dir_exact_def fs_laws numbered_Nil
      split: if_splits)
  with run show ?thesis by (intro exI [of _ ?w] exI [of _ ?s]) simp
qed

end
