(* ===== verification/Wal_Log.thy ===== *)
theory Wal_Log
  imports Wal_Rep
begin

text \<open>
  The WAL at the level of its list of entries: \<open>wal_holds\<close> forgets how the entries are spread
  over segments. Append, read, truncate, checkpoint and reopen act on the list, which makes
  the WAL an instance of \<open>record_log\<close>; with \<open>sync_writes\<close> every entry survives a loss of power.
\<close>

section \<open>The log as a list\<close>

definition wal_holds :: "(bytes \<Rightarrow> u32) \<Rightarrow> wal \<Rightarrow> fs \<Rightarrow> entry list \<Rightarrow> bool" where
  "wal_holds crc w s L \<longleftrightarrow> (\<exists>sealed act. wal_rep crc w s sealed act \<and> L = concat (map snd sealed) @ act)"

definition wal_room :: "wal \<Rightarrow> bytes \<Rightarrow> bool" where
  "wal_room w d \<longleftrightarrow>
     length d < 2 ^ 32 \<and> HEADER_SIZE + length d \<le> unat (wc_max_segment_bytes (w_config w)) \<and>
     unat (w_next_sequence w) + 1 < 2 ^ 64 \<and> unat (seg_id (w_active w)) + 1 < 2 ^ 64"

lemma wal_holds_facts:
  assumes "wal_holds crc w s L"
  shows "healthy s" and "numbered (w_next_sequence w) L" and "wf_fs s"
  using assms by (auto simp: wal_holds_def wal_rep_def)

lemma rotated_simps [simp]:
  "w_next_sequence (rotated w) = w_next_sequence w" "w_config (rotated w) = w_config w"
  "w_checkpoint (rotated w) = w_checkpoint w"
  by (simp_all add: rotated_def)

lemma appended_simps [simp]:
  "w_next_sequence (appended crc d w) = w_next_sequence w + 1" "w_config (appended crc d w) = w_config w"
  "w_checkpoint (appended crc d w) = w_checkpoint w" "w_sealed (appended crc d w) = w_sealed w"
  "seg_id (w_active (appended crc d w)) = seg_id (w_active w)"
  by (simp_all add: appended_def)

lemma no_overflow_after_rotation:
  assumes "wal_rep crc w s sealed act" and "wal_room w d"
  shows "\<not> would_overflow (HEADER_SIZE + length d) (w_active (rotated w))"
proof -
  have "active_ok crc (w_config w) (w_active (rotated w)) []"
    using assms by (simp add: rotated_def new_segment_def active_ok_def wal_rep_def)
  from would_overflow_iff [OF this, of d] show ?thesis
    using assms(2) by (simp add: wal_room_def)
qed

text \<open>One append, with the state it leaves: the entry goes to the active segment, or to a fresh
  one when the active segment is full.\<close>

lemma wal_append_rep:
  assumes rep: "wal_rep crc w s sealed act" and room: "wal_room w d"
  shows "if would_overflow (HEADER_SIZE + length d) (w_active w)
    then wal_append crc d (w, s) = (Ok (w_next_sequence w), (appended crc d (rotated w), appended_fs crc d (rotated w) (rotated_fs w s))) \<and>
      wal_rep crc (appended crc d (rotated w)) (appended_fs crc d (rotated w) (rotated_fs w s))
        (sealed @ [(seg_id (w_active w), act)]) [\<lparr>sequence = w_next_sequence w, data = d\<rparr>]
    else wal_append crc d (w, s) = (Ok (w_next_sequence w), (appended crc d w, appended_fs crc d w s)) \<and>
      wal_rep crc (appended crc d w) (appended_fs crc d w s)
        sealed (act @ [\<lparr>sequence = w_next_sequence w, data = d\<rparr>])"
proof -
  have r: "length d < 2 ^ 32" "unat (w_next_sequence w) + 1 < 2 ^ 64" "unat (seg_id (w_active w)) + 1 < 2 ^ 64"
    using room by (simp_all add: wal_room_def)
  have hw: "healthy s" "seg_writer (w_active w) = []"
    using rep by (simp_all add: wal_rep_def active_ok_def)
  show ?thesis
  proof (cases "would_overflow (HEADER_SIZE + length d) (w_active w)")
    case True
    note rot = wal_rep_rotated [OF rep r(3)] and no = no_overflow_after_rotation [OF rep room]
    have h: "healthy (rotated_fs w s)" "seg_writer (w_active (rotated w)) = []"
      using rot by (simp_all add: wal_rep_def active_ok_def)
    have "wal_append crc d (w, s) = wal_append crc d (rotated w, rotated_fs w s)"
      using True no by (intro wal_append_rotate wal_rotate_eq [OF rep r(3)]) simp_all
    moreover have "wal_rep crc (appended crc d (rotated w)) (appended_fs crc d (rotated w) (rotated_fs w s))
        (sealed @ [(seg_id (w_active w), act)]) ([] @ [\<lparr>sequence = w_next_sequence (rotated w), data = d\<rparr>])"
      by (rule wal_rep_appended [OF rot r(1)]) (use r(2) no in simp_all)
    ultimately show ?thesis
      using True no wal_append_no_rotate [OF h, of crc d] by simp
  next
    case False
    then show ?thesis
      using wal_append_no_rotate [OF hw, of crc d] wal_rep_appended [OF rep r(1,2)] by simp
  qed
qed

lemma wal_append_holds:
  assumes "wal_holds crc w s L" and "wal_room w d"
  shows "\<exists>w' s'. wal_append crc d (w, s) = (Ok (w_next_sequence w), (w', s')) \<and>
    wal_holds crc w' s' (L @ [\<lparr>sequence = w_next_sequence w, data = d\<rparr>]) \<and>
    w_next_sequence w' = w_next_sequence w + 1 \<and> w_config w' = w_config w"
proof -
  obtain sealed act where rep: "wal_rep crc w s sealed act" and L: "L = concat (map snd sealed) @ act"
    using assms(1) by (auto simp: wal_holds_def)
  from wal_append_rep [OF rep assms(2)] show ?thesis
  proof (cases "would_overflow (HEADER_SIZE + length d) (w_active w)")
    case True
    with wal_append_rep [OF rep assms(2)] show ?thesis
      unfolding wal_holds_def L
      by (intro exI [of _ "appended crc d (rotated w)"] exI [of _ "appended_fs crc d (rotated w) (rotated_fs w s)"] conjI
        exI [of _ "sealed @ [(seg_id (w_active w), act)]"] exI [of _ "[\<lparr>sequence = w_next_sequence w, data = d\<rparr>]"])
        simp_all
  next
    case False
    with wal_append_rep [OF rep assms(2)] show ?thesis
      unfolding wal_holds_def L
      by (intro exI [of _ "appended crc d w"] exI [of _ "appended_fs crc d w s"] conjI
        exI [of _ "sealed"] exI [of _ "act @ [\<lparr>sequence = w_next_sequence w, data = d\<rparr>]"])
        simp_all
  qed
qed

text \<open>A payload that cannot fit in any segment is refused, and the log is as before.\<close>

lemma wal_append_oversize:
  assumes rep: "wal_rep crc w s sealed act" and "length d < 2 ^ 32"
    and "unat (wc_max_segment_bytes (w_config w)) < HEADER_SIZE + length d"
    and id: "unat (seg_id (w_active w)) + 1 < 2 ^ 64"
  shows "\<exists>w' s'. wal_append crc d (w, s) =
      (Err (SegmentFull 0 (wc_max_segment_bytes (w_config w)) (of_nat (HEADER_SIZE + length d))), (w', s')) \<and>
    wal_rep crc w' s' (sealed @ [(seg_id (w_active w), act)]) [] \<and> w_next_sequence w' = w_next_sequence w"
proof -
  have ok: "active_ok crc (w_config w) (w_active w) act"
    using rep by (simp add: wal_rep_def)
  have o1: "would_overflow (HEADER_SIZE + length d) (w_active w)"
    using would_overflow_iff [OF ok assms(2)] assms(3) by simp
  note rot = wal_rep_rotated [OF rep id]
  have ok': "active_ok crc (w_config w) (w_active (rotated w)) []"
    using rot by (simp add: wal_rep_def)
  have "wc_max_segment_bytes (w_config w) < of_nat (HEADER_SIZE + length d)"
  proof -
    have "unat (of_nat (HEADER_SIZE + length d) :: u64) = HEADER_SIZE + length d"
      using assms(2) by (intro unat_of_nat_u64) (simp add: HEADER_SIZE_def)
    with assms(3) show ?thesis by (simp only: u64_less_iff)
  qed
  then have "segment_append (entry_encode crc (w_next_sequence w) d) (w_active (rotated w), rotated_fs w s) =
      (Err (SegmentFull 0 (wc_max_segment_bytes (w_config w)) (of_nat (HEADER_SIZE + length d))),
       (w_active (rotated w), rotated_fs w s))"
    by (simp add: segment_append_def rotated_def new_segment_def Let_def)
  then have "wal_append crc d (w, s) =
      (Err (SegmentFull 0 (wc_max_segment_bytes (w_config w)) (of_nat (HEADER_SIZE + length d))),
       (rotated w, rotated_fs w s))"
    using o1 wal_rotate_eq [OF rep id]
    by (simp add: wal_append_def Let_def on_active_def on_field_def del: of_nat_add)
  with rot show ?thesis by (intro exI [of _ "rotated w"] exI [of _ "rotated_fs w s"]) simp
qed

lemma wal_read_from_holds:
  "wal_holds crc w s L \<Longrightarrow> wal_read_from crc w q s = (Ok (filter (\<lambda>e. q \<le> sequence e) L), s)"
  by (auto simp: wal_holds_def wal_read_from_rep)

lemma numbered_bounds:
  assumes "numbered nxt L" and "e \<in> set L"
  shows "0 < sequence e \<and> sequence e < nxt"
proof -
  have "unat (sequence e) \<in> set (map (\<lambda>e. unat (sequence e)) L)"
    using assms(2) by simp
  then have "unat (sequence e) \<in> set [unat nxt - length L ..< unat nxt]" and "length L < unat nxt"
    using assms(1) by (simp_all only: numbered_def)
  then show ?thesis
    by (auto simp: u64_less_iff)
qed

lemma wal_truncate_holds:
  assumes "wal_holds crc w s L"
  shows "\<exists>k w' s'. wal_truncate_before crc before (w, s) = (Ok (), (w', s')) \<and>
    wal_holds crc w' s' (drop k L) \<and> (\<forall>e \<in> set (take k L). sequence e < before) \<and>
    w_next_sequence w' = w_next_sequence w \<and> w_config w' = w_config w \<and> w_active w' = w_active w"
proof -
  obtain sealed act where rep: "wal_rep crc w s sealed act" and L: "L = concat (map snd sealed) @ act"
    using assms by (auto simp: wal_holds_def)
  let ?S = "concat (map snd sealed)"
  obtain w' s' where t: "wal_truncate_before crc before (w, s) = (Ok (), (w', s'))"
    "wal_rep crc w' s' (kept before sealed) act" "w' = w\<lparr>w_sealed := map fst (kept before sealed)\<rparr>"
    using wal_truncate_rep [OF rep] by blast
  have "sorted_wrt (\<lambda>a b. sequence a < sequence b) ?S"
    using rep numbered_strict by (auto simp: wal_rep_def sorted_wrt_append dest!: numbered_strict)
  then obtain k where k: "concat (map snd (kept before sealed)) = drop k ?S"
    "\<forall>e \<in> set (take k ?S). sequence e < before"
    using kept_suffix by blast
  let ?k = "min k (length ?S)"
  have "drop ?k L = drop k ?S @ act" and "take ?k L = take k ?S"
    by (simp_all add: L min_def)
  moreover have "wal_holds crc w' s' (drop k ?S @ act)"
    unfolding wal_holds_def using t(2) k(1) by metis
  ultimately show ?thesis
    using t(1,3) k(2) by (intro exI [of _ ?k] exI [of _ w'] exI [of _ s']) simp
qed

lemma not_segment_path_checkpoint [simp]: "\<not> is_segment_path (path_join dir CHECKPOINT_FILE)"
  by (simp add: is_segment_path_def name_extension_def CHECKPOINT_FILE_def)

lemma wal_checkpoint_rep:
  assumes rep: "wal_rep crc w s sealed act"
  shows "\<exists>s'. wal_checkpoint q (w, s) = (Ok (), (w\<lparr>w_checkpoint := (w_checkpoint w)
        \<lparr>cp_sequence := max (cp_sequence (w_checkpoint w)) q\<rparr>\<rparr>, s')) \<and>
    wal_rep crc (w\<lparr>w_checkpoint := (w_checkpoint w)\<lparr>cp_sequence := max (cp_sequence (w_checkpoint w)) q\<rparr>\<rparr>) s' sealed act \<and>
    (\<forall>i. fs_durable s' (segment_path (w_dir w) i) = fs_durable s (segment_path (w_dir w) i) \<and>
         fs_content s' (segment_path (w_dir w) i) = fs_content s (segment_path (w_dir w) i))"
proof -
  let ?d = "w_dir w" and ?cp = "(w_checkpoint w)\<lparr>cp_sequence := max (cp_sequence (w_checkpoint w)) q\<rparr>"
  have ci: "checkpoint_in ?d (w_checkpoint w) s" "healthy s" "wf_fs s"
    using rep by (simp_all add: wal_rep_def)
  obtain s' where a: "checkpoint_advance q (w_checkpoint w, s) = (Ok (), (?cp, s'))"
    and s': "healthy s'" "wf_fs s'"
      "\<forall>p. p \<noteq> path_join ?d CHECKPOINT_FILE \<longrightarrow> p \<noteq> path_join ?d ''checkpoint.tmp'' \<longrightarrow>
        fs_content s' p = fs_content s p \<and> fs_durable s' p = fs_durable s p"
      "fs_content s' (path_join ?d ''checkpoint.tmp'') \<in> {None, fs_content s (path_join ?d ''checkpoint.tmp'')}"
    using checkpoint_advance_healthy [OF ci(1,2), of q] ci(3) by blast
  have seg: "fs_content s' (segment_path ?d i) = fs_content s (segment_path ?d i)"
    "fs_durable s' (segment_path ?d i) = fs_durable s (segment_path ?d i)" for i
    using s'(3) segment_path_not_checkpoint by simp_all
  have "checkpoint_in ?d ?cp s'"
    using checkpoint_advance_cases [OF ci(1) a] by simp
  moreover have "seg_files crc ?d (sealed @ [(seg_id (w_active w), act)]) s'"
    using rep by (simp add: wal_rep_def seg_files_def seg)
  moreover have "dir_exact ?d (map fst sealed @ [seg_id (w_active w)]) s'"
  proof -
    have "fs_content s p \<noteq> None" if "fs_content s' p \<noteq> None" "is_segment_path p" for p
      using that s'(3,4) by (cases "p = path_join ?d ''checkpoint.tmp''"; cases "p = path_join ?d CHECKPOINT_FILE") auto
    then show ?thesis
      using rep unfolding wal_rep_def dir_exact_def by blast
  qed
  ultimately have "wal_rep crc (w\<lparr>w_checkpoint := ?cp\<rparr>) s' sealed act"
    using rep s'(1,2) by (simp add: wal_rep_def)
  then show ?thesis
    using a seg by (intro exI [of _ s']) (simp add: wal_checkpoint_def on_field_def)
qed

text \<open>The contract of the log, as \<open>RaftLog\<close> uses it.\<close>

interpretation wal_log: record_log "wal_holds crc" wal_room w_next_sequence "wal_append crc"
  "wal_read_from crc" wal_checkpoint "wal_truncate_before crc" "\<lambda>w. wal_open crc (w_config w)" for crc
proof (unfold_locales, goal_cases)
  case (1 w s L d)
  then show ?case using wal_append_holds by blast
next
  case (2 w s L q)
  then show ?case by (rule wal_read_from_holds)
next
  case (3 w s L q)
  then show ?case using wal_checkpoint_rep unfolding wal_holds_def by blast
next
  case (4 w s L q)
  then show ?case using wal_truncate_holds [OF 4, of q] by blast
next
  case (5 w s L)
  then obtain sealed act where "wal_rep crc w s sealed act" "L = concat (map snd sealed) @ act"
    by (auto simp: wal_holds_def)
  with 5(2) show ?case by (intro wal_rep_reopen) auto
next
  case (6 w s L e)
  then show ?case using numbered_bounds wal_holds_facts(2) by blast
qed

section \<open>Durability\<close>

definition wal_synced :: "wal \<Rightarrow> fs \<Rightarrow> bool" where
  "wal_synced w s \<longleftrightarrow> (\<forall>i \<in> set (w_sealed w @ [seg_id (w_active w)]).
     fs_durable s (segment_path (w_dir w) i) = fs_content s (segment_path (w_dir w) i))"

lemma wal_synced_rotated:
  assumes "wal_rep crc w s sealed act" and "wal_synced w s" and "unat (seg_id (w_active w)) + 1 < 2 ^ 64"
  shows "wal_synced (rotated w) (rotated_fs w s)"
  using assms next_id_fresh(2) [OF assms(1,3)]
  by (auto simp: wal_synced_def rotated_def rotated_fs_def new_segment_def fs_laws wal_rep_def active_ok_def)

lemma wal_synced_appended:
  assumes "wal_rep crc w s sealed act" and "wal_synced w s" and "wc_sync_writes (w_config w)"
  shows "wal_synced (appended crc d w) (appended_fs crc d w s)"
  using assms by (auto simp: wal_synced_def appended_fs_def fs_laws wal_rep_def active_ok_def)

lemma wal_append_synced:
  assumes rep: "wal_rep crc w s sealed act" and sy: "wal_synced w s" and room: "wal_room w d"
    and cfg: "wc_sync_writes (w_config w)" and run: "wal_append crc d (w, s) = (r, (w', s'))"
  shows "wal_synced w' s'"
proof -
  have id: "unat (seg_id (w_active w)) + 1 < 2 ^ 64" using room by (simp add: wal_room_def)
  note ap = wal_append_rep [OF rep room]
  show ?thesis
  proof (cases "would_overflow (HEADER_SIZE + length d) (w_active w)")
    case True
    with ap run have "w' = appended crc d (rotated w)" "s' = appended_fs crc d (rotated w) (rotated_fs w s)"
      by auto
    then show ?thesis
      using wal_synced_appended [OF wal_rep_rotated [OF rep id] wal_synced_rotated [OF rep sy id]] cfg by simp
  next
    case False
    with ap run have "w' = appended crc d w" "s' = appended_fs crc d w s" by auto
    then show ?thesis using wal_synced_appended [OF rep sy cfg] by simp
  qed
qed

lemma fs_durable_None_iff: "fs_durable s p = None \<longleftrightarrow> fs_content s p = None"
  by (simp add: fs_durable_def fs_content_def)

text \<open>After a loss of power, opening the directory gives a WAL with the same entries.\<close>

lemma wal_open_after_power_loss:
  assumes rep: "wal_rep crc w s sealed act" and sy: "wal_synced w s"
  shows "wal_open crc (w_config w) (power_loss s) =
    (Ok (reopened (w_config w) (power_loss s) sealed (seg_id (w_active w)) act crc), power_loss s)"
proof (rule wal_open_segments)
  show "healthy (power_loss s)" and "wf_fs (power_loss s)"
    using rep by (simp_all add: wal_rep_def)
  show "sorted_wrt (<) (map fst sealed @ [seg_id (w_active w)])"
    using rep by (simp add: wal_rep_def)
  show "seg_files crc (w_dir w) (sealed @ [(seg_id (w_active w), act)]) (power_loss s)"
    using rep sy by (fastforce simp: wal_rep_def seg_files_def fs_laws wal_synced_def)
  show "dir_exact (w_dir w) (map fst sealed @ [seg_id (w_active w)]) (power_loss s)"
    using rep by (simp add: wal_rep_def dir_exact_def fs_laws fs_durable_None_iff del: not_None_eq)
qed

end
