(* ===== verification/Outcome.thy ===== *)
theory Outcome
  imports File_System
begin

text \<open>
  Reasoning about a run, whatever it returns: \<open>outcome P Q r\<close> says that the state in \<open>r\<close> satisfies
  \<open>P\<close>, also when \<open>r\<close> is an error or a panic, and that a value in \<open>r\<close> satisfies \<open>Q\<close>. The rules
  follow the combinators of the model, so that a property of every intermediate state is
  proved by walking along the code.
\<close>

definition outcome :: "('s \<Rightarrow> bool) \<Rightarrow> ('a \<Rightarrow> bool) \<Rightarrow> ('a, 'e) res \<times> 's \<Rightarrow> bool" where
  "outcome P Q r \<longleftrightarrow> P (snd r) \<and> (\<forall>v. fst r = Ok v \<longrightarrow> Q v)"

lemma outcome_simps [simp]:
  "outcome P Q (Ok v, s) \<longleftrightarrow> P s \<and> Q v"
  "outcome P Q (Err e, s) \<longleftrightarrow> P s"
  "outcome P Q (Panic, s) \<longleftrightarrow> P s"
  by (simp_all add: outcome_def)

lemma outcome_pure: "P s \<Longrightarrow> (\<And>v. r = Ok v \<Longrightarrow> Q v) \<Longrightarrow> outcome P Q (r, s)"
  by (simp add: outcome_def)

lemma outcome_and_then:
  assumes "outcome P Q m" and "\<And>v s. Q v \<Longrightarrow> P s \<Longrightarrow> outcome P R (k v s)"
  shows "outcome P R (and_then m k)"
proof (cases m)
  case (Pair r s)
  with assms show ?thesis by (cases r) auto
qed

lemma outcome_map_err [simp]: "outcome P Q (map_err f m) \<longleftrightarrow> outcome P Q m"
proof (cases m)
  case (Pair r s)
  then show ?thesis by (cases r) auto
qed

lemma outcome_on_field:
  "outcome (\<lambda>(y, s). P (put y x, s)) Q (m (get x, s)) \<Longrightarrow> outcome P Q (on_field get put m (x, s))"
  by (auto simp: on_field_def outcome_def split: prod.splits)

lemma outcome_io: "outcome (\<lambda>s. P (x, s)) Q (c s) \<Longrightarrow> outcome P Q (io c (x, s))"
  by (auto simp: io_def outcome_def split: prod.splits)

lemma outcome_mono: "outcome P Q m \<Longrightarrow> (\<And>s. P s \<Longrightarrow> P' s) \<Longrightarrow> (\<And>v. Q v \<Longrightarrow> Q' v) \<Longrightarrow> outcome P' Q' m"
  by (simp add: outcome_def)

section \<open>Runs that stay in one directory\<close>

definition same_outside :: "path \<Rightarrow> fs \<Rightarrow> fs \<Rightarrow> bool" where
  "same_outside d s s' \<longleftrightarrow> (\<forall>p. butlast p \<noteq> d \<longrightarrow> fs_content s' p = fs_content s p \<and> fs_durable s' p = fs_durable s p)"

lemma same_outside_refl [simp]: "same_outside d s s"
  by (simp add: same_outside_def)

lemma same_outside_trans: "same_outside d s s' \<Longrightarrow> same_outside d s' s'' \<Longrightarrow> same_outside d s s''"
  by (simp add: same_outside_def)

lemma butlast_path_join [simp]: "butlast (path_join d x) = d"
  by (simp add: path_join_def)

text \<open>The run also brings no faults to a file system that has none.\<close>

definition fs_step :: "path \<Rightarrow> fs \<Rightarrow> fs \<Rightarrow> bool" where
  "fs_step d s s' \<longleftrightarrow> same_outside d s s' \<and> (healthy s \<longrightarrow> healthy s')"

lemma fs_step_refl [simp]: "fs_step d s s"
  by (simp add: fs_step_def)

lemma fs_step_trans: "fs_step d s s' \<Longrightarrow> fs_step d s' s'' \<Longrightarrow> fs_step d s s''"
  by (auto simp: fs_step_def intro: same_outside_trans)

lemma io_call_step:
  assumes "\<And>t. fs_step d t (snd (act t))" and "\<And>k t. fs_step d t (torn k t)"
  shows "fs_step d s (snd (io_call act torn s))"
proof (cases "faults s")
  case Nil
  then show ?thesis using assms(1) by (simp add: io_call_def)
next
  case (Cons f fl)
  have "same_outside d s (snd (act (s\<lparr>faults := fl\<rparr>)))" "same_outside d s (torn k (s\<lparr>faults := fl\<rparr>))" for k
    using assms(1) [of "s\<lparr>faults := fl\<rparr>"] assms(2) [of "s\<lparr>faults := fl\<rparr>" k]
    by (simp_all add: fs_step_def same_outside_def)
  then show ?thesis
    using Cons by (cases f) (simp_all add: io_call_def fs_step_def same_outside_def Let_def)
qed

named_theorems fs_steps \<open>calls that change files of one directory only\<close>

lemma fs_step_put_file [fs_steps]: "butlast p = d \<Longrightarrow> fs_step d t (put_file p f t)"
  by (auto simp: fs_step_def same_outside_def fs_laws)

lemma fs_step_delete [fs_steps]: "butlast p = d \<Longrightarrow> fs_step d t (t\<lparr>files := AList.delete p (files t)\<rparr>)"
  by (auto simp: fs_step_def same_outside_def fs_laws)

lemma fs_step_extend [fs_steps]: "butlast p = d \<Longrightarrow> fs_step d t (extend_file p bs t)"
  by (auto simp: fs_step_def same_outside_def fs_laws)

lemma fs_step_replace [fs_steps]: "butlast p = d \<Longrightarrow> fs_step d t (replace_file p bs t)"
  by (auto simp: fs_step_def same_outside_def fs_laws replace_file_def)

lemma fs_calls_step [fs_steps]:
  "fs_step d s (snd (fs_read q s))" "fs_step d s (snd (fs_metadata_len q s))" "fs_step d s (snd (fs_open_append q s))"
  "fs_step d s (snd (fs_create_dir_all q s))" "fs_step d s (snd (fs_read_dir q s))"
  "butlast p = d \<Longrightarrow> fs_step d s (snd (fs_create_new p s))" "butlast p = d \<Longrightarrow> fs_step d s (snd (fs_append p bs s))"
  "butlast p = d \<Longrightarrow> fs_step d s (snd (fs_write p bs s))" "butlast p = d \<Longrightarrow> fs_step d s (snd (fs_sync_all p s))"
  "butlast p = d \<Longrightarrow> fs_step d s (snd (fs_remove_file p s))"
  unfolding fs_read_def fs_metadata_len_def fs_open_append_def fs_create_dir_all_def fs_read_dir_def
    fs_create_new_def fs_append_def fs_write_def fs_sync_all_def fs_remove_file_def
  by (rule io_call_step; simp add: fs_steps split: option.split)+

lemma fs_rename_step [fs_steps]:
  assumes "butlast a = d" and "butlast b = d"
  shows "fs_step d s (snd (fs_rename a b s))"
  unfolding fs_rename_def
proof (rule io_call_step)
  show "fs_step d t (snd (case map_of (files t) a of None \<Rightarrow> (Err NotFound, t)
      | Some f \<Rightarrow> (Ok (), put_file b f (t\<lparr>files := AList.delete a (files t)\<rparr>))))" for t
    using fs_step_trans [OF fs_step_delete fs_step_put_file, OF assms] by (simp split: option.split)
qed simp

text \<open>A call whose file system is followed from \<open>s0\<close>.\<close>

lemma outcome_fs: "fs_step d s (snd (c s)) \<Longrightarrow> fs_step d s0 s \<Longrightarrow> outcome (fs_step d s0) (\<lambda>_. True) (c s)"
  by (auto simp: outcome_def intro: fs_step_trans)

lemma outcome_fs_keep:
  "A \<Longrightarrow> fs_step d s (snd (c s)) \<Longrightarrow> fs_step d s0 s \<Longrightarrow> outcome (\<lambda>s. A \<and> fs_step d s0 s) (\<lambda>_. True) (c s)"
  by (auto simp: outcome_def intro: fs_step_trans)

lemma bufwriter_flush_step:
  assumes "butlast p = d" and "fs_step d s0 s"
  shows "outcome (\<lambda>(b, s). fs_step d s0 s) (\<lambda>_. True) (bufwriter_flush p (b, s))"
proof (cases "fs_append p b s")
  case (Pair r s')
  then have "fs_step d s0 s'"
    using fs_calls_step(7) [OF assms(1), of s b] assms(2) by (auto intro: fs_step_trans)
  then show ?thesis
    using Pair assms(2) by (cases r) (simp_all add: bufwriter_flush_def)
qed

lemma bufwriter_write_all_step:
  assumes "butlast p = d" and "fs_step d s0 s"
  shows "outcome (\<lambda>(b, s). fs_step d s0 s) (\<lambda>_. True) (bufwriter_write_all p bs (b, s))"
  using assms
  by (auto simp: bufwriter_write_all_def intro!: outcome_and_then [where Q = "\<lambda>_. True"] bufwriter_flush_step
      outcome_io outcome_fs fs_steps)

lemma fs_step_and_then:
  assumes "fs_step d s (snd m)" and "\<And>v t. fs_step d t (snd (k v t))"
  shows "fs_step d s (snd (and_then m k))"
proof (cases m)
  case (Pair r t)
  with assms show ?thesis by (cases r) (auto intro: fs_step_trans)
qed

end
