(* ===== verification/Wal_Crash.thy ===== *)
theory Wal_Crash
  imports Wal_Log Outcome
begin

text \<open>
  An append that an I/O error or a crash cuts short, at any call and after any number of bytes, and
  the open that follows. The disk holds the old entries and a prefix of the new one: the old log, the
  new log, or a torn tail, which \<open>Wal::open\<close> refuses with \<open>UnexpectedEof\<close>.
\<close>

section \<open>The calls under faults\<close>

definition tail_written :: "path \<Rightarrow> bytes \<Rightarrow> nat \<Rightarrow> fs \<Rightarrow> fs \<Rightarrow> bool" where
  "tail_written p enc k s s' \<longleftrightarrow> k \<le> length enc \<and>
     fs_content s' = (fs_content s)(p := map_option (\<lambda>c. c @ take k enc) (fs_content s p)) \<and> (wf_fs s \<longrightarrow> wf_fs s')"

lemma tail_written_0: "fs_content s' = fs_content s \<Longrightarrow> (wf_fs s \<longrightarrow> wf_fs s') \<Longrightarrow> tail_written p enc 0 s s'"
  by (auto simp: tail_written_def fun_eq_iff option.map_ident)

lemma wf_fs_faults [simp]: "wf_fs (s\<lparr>faults := fl\<rparr>) = wf_fs s"
  by (simp add: wf_fs_def)

lemma wf_fs_eqI: "files s' = files s \<Longrightarrow> wf_fs s' = wf_fs s"
  by (simp add: wf_fs_def)

lemma take_min_length: "take (min k (length xs)) xs = take k xs"
  by (simp add: min_def)

lemma fs_append_tail:
  assumes "fs_append p enc s = (r, s')"
  shows "\<exists>k. tail_written p enc k s s' \<and> r \<noteq> Panic \<and> (is_ok r \<longrightarrow> k = length enc)"
  using assms unfolding fs_append_def
proof (cases rule: io_call_cases)
  case (acted fl)
  then have "s' = extend_file p enc (s\<lparr>faults := fl\<rparr>)" and r: "r = Ok ()" by simp_all
  then have "tail_written p enc (length enc) s s'"
    by (simp add: tail_written_def fs_laws)
  with r show ?thesis by (intro exI [of _ "length enc"]) simp
next
  case failed
  have "tail_written p enc 0 s s'"
    using fs_content_eqI [OF failed(2)] wf_fs_eqI [OF failed(2)] by (intro tail_written_0) simp_all
  with failed(1) show ?thesis by (intro exI [of _ 0]) simp
next
  case (torn k fl)
  then have "tail_written p enc (min k (length enc)) s s'"
    by (simp add: tail_written_def fs_laws take_min_length)
  with torn(1) show ?thesis by (intro exI [of _ "min k (length enc)"]) simp
qed

lemma fs_sync_all_files:
  assumes "fs_sync_all p s = (r, s')"
  shows "r \<noteq> Panic \<and> fs_content s' = fs_content s \<and> (wf_fs s \<longrightarrow> wf_fs s')"
proof -
  have "wf_fs s \<longrightarrow> wf_fs s'"
    using assms unfolding fs_sync_all_def
  proof (cases rule: io_call_cases)
    case (acted fl)
    then show ?thesis by (cases "map_of (files s) p") auto
  next
    case failed
    then show ?thesis using wf_fs_eqI [OF failed(2)] by simp
  qed simp
  with fs_sync_all_cases [OF assms] show ?thesis by simp
qed

lemma fs_create_new_files:
  assumes "fs_create_new p s = (r, s')" and "fs_content s p = None"
  shows "r \<noteq> Panic \<and> (wf_fs s \<longrightarrow> wf_fs s') \<and>
    fs_content s' = (if is_ok r then (fs_content s)(p := Some []) else fs_content s)"
  using assms(1) unfolding fs_create_new_def
proof (cases rule: io_call_cases)
  case (acted fl)
  have "map_of (files s) p = None" using assms(2) by (simp add: map_of_iff_content)
  with acted have "r = Ok ()" "s' = put_file p \<lparr>f_content = [], f_durable = []\<rparr> (s\<lparr>faults := fl\<rparr>)" by simp_all
  then show ?thesis by (simp add: fs_laws)
next
  case failed
  then show ?thesis using fs_content_eqI [OF failed(2)] wf_fs_eqI [OF failed(2)] by simp
qed simp

section \<open>The writer under faults\<close>

text \<open>Writing and then flushing or syncing a segment whose buffer is empty.\<close>

definition write_out :: "bool \<Rightarrow> bytes \<Rightarrow> (segment, unit, wal_error) meth" where
  "write_out sync enc gs = and_then (segment_append enc gs) (\<lambda>_ gs. if sync then segment_sync gs else segment_flush gs)"

lemma flush_tail:
  assumes "seg_writer g = enc" and "enc \<noteq> []" and "segment_flush (g, s) = (r, (g', s'))"
  shows "\<exists>k. tail_written (seg_path g) enc k s s' \<and> r \<noteq> Panic \<and> (is_ok r \<longrightarrow> k = length enc \<and> seg_path g' = seg_path g)"
proof -
  obtain ra sa where a: "fs_append (seg_path g) enc s = (ra, sa)" by fastforce
  from fs_append_tail [OF a] obtain k where k: "tail_written (seg_path g) enc k s sa" "ra \<noteq> Panic" "is_ok ra \<longrightarrow> k = length enc"
    by blast
  have "s' = sa" "is_ok r = is_ok ra" "r \<noteq> Panic" "is_ok r \<longrightarrow> seg_path g' = seg_path g"
    using assms a k(2) by (cases ra; auto simp: segment_flush_def on_writer_def on_field_def bufwriter_flush_def)+
  with k show ?thesis by (intro exI [of _ k]) simp
qed

lemma sync_tail:
  assumes "seg_writer g = enc" and "enc \<noteq> []" and "segment_sync (g, s) = (r, (g', s'))"
  shows "\<exists>k. tail_written (seg_path g) enc k s s' \<and> r \<noteq> Panic \<and> (is_ok r \<longrightarrow> k = length enc)"
proof -
  obtain rf gf sf where f: "segment_flush (g, s) = (rf, (gf, sf))" by (metis surj_pair)
  from flush_tail [OF assms(1,2) f] obtain k where k: "tail_written (seg_path g) enc k s sf" "rf \<noteq> Panic"
    "is_ok rf \<longrightarrow> k = length enc \<and> seg_path gf = seg_path g" by blast
  have eq: "on_writer (bufwriter_flush (seg_path g)) (g, s) = (rf, (gf, sf))"
    using f by (simp add: segment_flush_def)
  show ?thesis
  proof (cases rf)
    case (Ok u)
    obtain ry sy where y: "fs_sync_all (seg_path gf) sf = (ry, sy)" by fastforce
    have "s' = sy" "r \<noteq> Panic"
      using assms(3) eq Ok y fs_sync_all_files [OF y] by (cases ry; auto simp: segment_sync_def io_def)+
    moreover have "tail_written (seg_path g) enc k s sy"
      using k(1) fs_sync_all_files [OF y] by (simp add: tail_written_def)
    ultimately show ?thesis using k Ok by auto
  qed (use assms(3) eq k in \<open>auto simp: segment_sync_def\<close>)
qed

lemma write_out_tail:
  assumes w: "seg_writer g = []" and enc: "enc \<noteq> []" and no: "\<not> would_overflow (length enc) g"
    and run: "write_out sync enc (g, s) = (r, (g', s'))"
  shows "\<exists>k. tail_written (seg_path g) enc k s s' \<and> r \<noteq> Panic \<and> (is_ok r \<longrightarrow> k = length enc)"
proof (cases "length enc < BUF_CAPACITY")
  case True
  let ?g = "g\<lparr>seg_writer := enc, seg_size := seg_size g + of_nat (length enc)\<rparr>"
  have "segment_append enc (g, s) = (Ok (), (?g, s))"
    using True no w by (simp add: segment_append_def Let_def would_overflow_def on_writer_def on_field_def bufwriter_write_all_def)
  then have "(if sync then segment_sync (?g, s) else segment_flush (?g, s)) = (r, (g', s'))"
    using run by (simp add: write_out_def)
  moreover have "seg_writer ?g = enc" "seg_path ?g = seg_path g" by simp_all
  ultimately show ?thesis
    using sync_tail [of ?g enc s r g' s'] flush_tail [of ?g enc s r g' s'] enc by (auto split: if_splits)
next
  case False
  obtain ra sa where a: "fs_append (seg_path g) enc s = (ra, sa)" by fastforce
  from fs_append_tail [OF a] obtain k where k: "tail_written (seg_path g) enc k s sa" "ra \<noteq> Panic" "is_ok ra \<longrightarrow> k = length enc"
    by blast
  let ?g = "g\<lparr>seg_writer := []\<rparr>"
  have ap: "segment_append enc (g, s) = (case ra of Ok _ \<Rightarrow> (Ok (), (?g\<lparr>seg_size := seg_size g + of_nat (length enc)\<rparr>, sa))
      | Err e \<Rightarrow> (Err (Io e), (?g, sa)) | Panic \<Rightarrow> (Panic, (?g, sa)))"
    using False no w a
    by (auto simp: segment_append_def Let_def would_overflow_def on_writer_def on_field_def bufwriter_write_all_def
        bufwriter_flush_def io_def split: res.split)
  show ?thesis
  proof (cases ra)
    case (Ok u)
    let ?g1 = "?g\<lparr>seg_size := seg_size g + of_nat (length enc)\<rparr>"
    have "(if sync then segment_sync (?g1, sa) else segment_flush (?g1, sa)) = (r, (g', s'))"
      using run ap Ok by (simp add: write_out_def)
    moreover obtain ry sy where y: "fs_sync_all (seg_path g) sa = (ry, sy)" by fastforce
    moreover note fs_sync_all_files [OF y]
    ultimately have "fs_content s' = fs_content sa \<and> (wf_fs sa \<longrightarrow> wf_fs s') \<and> r \<noteq> Panic"
      by (cases ry) (auto simp: segment_sync_def segment_flush_def on_writer_def on_field_def bufwriter_flush_def io_def split: if_splits)
    then show ?thesis using k Ok by (intro exI [of _ k]) (simp add: tail_written_def)
  next
    case (Err e)
    then show ?thesis using run ap k by (auto simp: write_out_def)
  qed (use k in simp)
qed

section \<open>One append under faults\<close>

lemma wal_rep_cong:
  assumes "wal_rep crc w s sealed act" and "fs_content s' = fs_content s" and "wf_fs s'" and "healthy s'"
  shows "wal_rep crc w s' sealed act"
  using assms checkpoint_in_frame [of s' "w_dir w" s "w_checkpoint w"]
  by (simp add: wal_rep_def seg_files_def dir_exact_def)

lemma rotate_faults:
  assumes rep: "wal_rep crc w s sealed act" and id: "unat (seg_id (w_active w)) + 1 < 2 ^ 64"
    and run: "wal_rotate (w, s\<lparr>faults := fl\<rparr>) = (r, (w1, s1))"
  shows "r \<noteq> Panic \<and> wf_fs s1 \<and>
    (if is_ok r then w1 = rotated w \<and> fs_content s1 = fs_content (rotated_fs w s) else fs_content s1 = fs_content s)"
proof -
  let ?g = "w_active w" and ?p = "segment_path (w_dir w) (seg_id (w_active w) + 1)"
  have g: "seg_writer ?g = []" "seg_path ?g = segment_path (w_dir w) (seg_id ?g)" and wf: "wf_fs s"
    using rep by (simp_all add: wal_rep_def active_ok_def)
  obtain ry sy where y: "fs_sync_all (seg_path ?g) (s\<lparr>faults := fl\<rparr>) = (ry, sy)" by fastforce
  note yf = fs_sync_all_files [OF y]
  have eqg: "?g\<lparr>seg_writer := []\<rparr> = ?g" by (rule seg_writer_same [OF g(1)])
  have sy: "segment_sync (?g, s\<lparr>faults := fl\<rparr>) = (case ry of Ok _ \<Rightarrow> (Ok (), (?g, sy)) | Err e \<Rightarrow> (Err (Io e), (?g, sy)) | Panic \<Rightarrow> (Panic, (?g, sy)))"
    using y g(1) by (auto simp: segment_sync_def on_writer_def on_field_def bufwriter_flush_def io_def eqg split: res.split)
  show ?thesis
  proof (cases ry)
    case (Ok u)
    have none: "fs_content sy ?p = None"
      using next_id_fresh(1) [OF rep id] yf by simp
    obtain rc sc where c: "fs_create_new ?p sy = (rc, sc)" by fastforce
    note cf = fs_create_new_files [OF c none]
    show ?thesis
    proof (cases rc)
      case okc: (Ok u')
      have "w1 = rotated w" "s1 = sc" "r = Ok ()"
        using run sy Ok okc c
        by (simp_all add: wal_rotate_def on_active_def on_field_def Let_def io_def segment_create_def rotated_def new_segment_def)
      moreover have "fs_content (rotated_fs w s) = (fs_content s)(?p := Some [])"
        by (simp add: rotated_fs_def fs_laws)
      ultimately show ?thesis using cf okc yf wf by simp
    next
      case (Err e)
      have "s1 = sc" "r = Err (Io e)"
        using run sy Ok Err c by (simp_all add: wal_rotate_def on_active_def on_field_def Let_def io_def segment_create_def)
      then show ?thesis using cf Err yf wf by simp
    qed (use cf in simp)
  next
    case (Err e)
    have "s1 = sy" "r = Err (Io e)"
      using run sy Err by (simp_all add: wal_rotate_def on_active_def on_field_def)
    then show ?thesis using yf wf by simp
  qed (use yf in simp)
qed

lemma wal_append_write_out:
  assumes "\<not> would_overflow (length (entry_encode crc (w_next_sequence w) d)) (w_active w)"
    and "write_out (wc_sync_writes (w_config w)) (entry_encode crc (w_next_sequence w) d) (w_active w, s) = (ro, (g, s1))"
    and "wal_append crc d (w, s) = (r, (w', s'))"
  shows "s' = s1 \<and> is_ok r = is_ok ro \<and> (r = Panic \<longleftrightarrow> ro = Panic)"
proof -
  let ?enc = "entry_encode crc (w_next_sequence w) d"
  obtain ra ga sa where a: "segment_append ?enc (w_active w, s) = (ra, (ga, sa))" by (metis surj_pair)
  show ?thesis
  proof (cases ra)
    case (Ok u)
    have "(if wc_sync_writes (w_config w) then segment_sync (ga, sa) else segment_flush (ga, sa)) = (ro, (g, s1))"
      using assms(2) a Ok by (simp add: write_out_def)
    then show ?thesis
      using assms(1,3) a Ok
      by (cases "wc_sync_writes (w_config w)"; cases ro) (auto simp: wal_append_def Let_def on_active_def on_field_def)
  qed (use assms a in \<open>auto simp: wal_append_def write_out_def Let_def on_active_def on_field_def\<close>)
qed

text \<open>Whatever fails, the disk is that of a WAL with the old entries, and a prefix of the new one at
  the end of its active segment.\<close>

lemma append_faults:
  assumes rep: "wal_rep crc w s sealed act" and room: "wal_room w d"
    and run: "wal_append crc d (w, s\<lparr>faults := fl\<rparr>) = (r, (w', s'))"
  defines "enc \<equiv> entry_encode crc (w_next_sequence w) d"
  shows "\<exists>w0 s0 sealed0 act0 k. wal_rep crc w0 s0 sealed0 act0 \<and>
    concat (map snd sealed0) @ act0 = concat (map snd sealed) @ act \<and>
    w_config w0 = w_config w \<and> w_next_sequence w0 = w_next_sequence w \<and>
    (0 < k \<longrightarrow> \<not> would_overflow (length enc) (w_active w0)) \<and>
    tail_written (seg_path (w_active w0)) enc k s0 s' \<and> r \<noteq> Panic \<and> (is_ok r \<longrightarrow> k = length enc)"
proof -
  have id: "unat (seg_id (w_active w)) + 1 < 2 ^ 64" using room by (simp add: wal_room_def)
  have wf: "wf_fs s" and g: "seg_writer (w_active w) = []" using rep by (simp_all add: wal_rep_def active_ok_def)
  have ne: "enc \<noteq> []" by (simp add: enc_def entry_encode_not_Nil)
  have direct: "\<exists>k. tail_written (seg_path (w_active wx)) enc k sx s' \<and> r \<noteq> Panic \<and> (is_ok r \<longrightarrow> k = length enc)"
    if "\<not> would_overflow (length enc) (w_active wx)" "seg_writer (w_active wx) = []" "w_next_sequence wx = w_next_sequence w"
      "wal_append crc d (wx, sx) = (r, (w', s'))" for wx sx
  proof -
    obtain ro go so where o: "write_out (wc_sync_writes (w_config wx)) enc (w_active wx, sx) = (ro, (go, so))"
      by (metis surj_pair)
    have "s' = so \<and> is_ok r = is_ok ro \<and> (r = Panic \<longleftrightarrow> ro = Panic)"
      using wal_append_write_out [of crc wx d sx ro go so r w' s'] that o by (simp add: enc_def)
    with write_out_tail [OF that(2) ne that(1) o] show ?thesis by auto
  qed
  show ?thesis
  proof (cases "would_overflow (length enc) (w_active w)")
    case False
    obtain k where k: "tail_written (seg_path (w_active w)) enc k (s\<lparr>faults := fl\<rparr>) s'" "r \<noteq> Panic" "is_ok r \<longrightarrow> k = length enc"
      using direct [OF False g refl run] by blast
    have "tail_written (seg_path (w_active w)) enc k s s'" using k(1) by (simp add: tail_written_def)
    with rep False k show ?thesis
      by (intro exI [of _ w] exI [of _ s] exI [of _ sealed] exI [of _ act] exI [of _ k]) simp
  next
    case True
    obtain rr w1 s1 where rot: "wal_rotate (w, s\<lparr>faults := fl\<rparr>) = (rr, (w1, s1))" by (metis surj_pair)
    note rf = rotate_faults [OF rep id rot]
    show ?thesis
    proof (cases "is_ok rr")
      case True': True
      then have w1: "w1 = rotated w" and c1: "fs_content s1 = fs_content (rotated_fs w s)" and wf1: "wf_fs s1"
        and rr: "rr = Ok ()" using rf by (simp_all, cases rr, simp_all)
      note rot_rep = wal_rep_rotated [OF rep id]
      have no: "\<not> would_overflow (length enc) (w_active (rotated w))"
        using no_overflow_after_rotation [OF rep room] by (simp add: enc_def)
      have "wal_append crc d (rotated w, s1) = (r, (w', s'))"
        using run wal_append_rotate [of crc w d "s\<lparr>faults := fl\<rparr>" "rotated w" s1] True rot w1 rr no
        by (simp add: enc_def)
      moreover have "seg_writer (w_active (rotated w)) = []" using rot_rep by (simp add: wal_rep_def active_ok_def)
      ultimately obtain k where k: "tail_written (seg_path (w_active (rotated w))) enc k s1 s'" "r \<noteq> Panic" "is_ok r \<longrightarrow> k = length enc"
        using direct [of "rotated w" s1] no by auto
      have "tail_written (seg_path (w_active (rotated w))) enc k (rotated_fs w s) s'"
        using k(1) wf1 c1 by (simp add: tail_written_def)
      with rot_rep no k show ?thesis
        by (intro exI [of _ "rotated w"] exI [of _ "rotated_fs w s"] exI [of _ "sealed @ [(seg_id (w_active w), act)]"]
          exI [of _ "[]"] exI [of _ k]) simp
    next
      case False
      then have r: "s' = s1" "\<not> is_ok r" "r \<noteq> Panic"
        using run True rot rf by (cases rr; auto simp: wal_append_def Let_def enc_def)+
      have "tail_written (seg_path (w_active w)) enc 0 s s'"
        using rf False r(1) by (intro tail_written_0) simp_all
      with rep r show ?thesis
        by (intro exI [of _ w] exI [of _ s] exI [of _ sealed] exI [of _ act] exI [of _ 0]) simp
    qed
  qed
qed

section \<open>Opening what is left\<close>

lemma wal_open_torn:
  assumes h: "healthy s" "wf_fs s" and srt: "sorted_wrt (<) (map fst sealed @ [i])"
    and sf: "seg_files crc (wc_dir cfg) sealed s"
    and ac: "fs_content s (segment_path (wc_dir cfg) i) = Some (encode_all crc act @ take k (encode_of crc e))"
    and fits: "list_all entry_fits act" "entry_fits e" and k: "0 < k" "k < length (encode_of crc e)"
    and de: "dir_exact (wc_dir cfg) (map fst sealed @ [i]) s"
  shows "wal_open crc cfg s = (Err (UnexpectedEof (length (encode_all crc act))), s)"
proof -
  let ?dir = "wc_dir cfg" and ?c = "encode_all crc act @ take k (encode_of crc e)"
  have ls: "list_segments ?dir s = (Ok (map (segment_path ?dir) (map fst sealed @ [i])), s)"
    using sf ac by (intro list_segments_exact h de srt) (auto simp: seg_files_def)
  have ra: "read_entries crc (segment_path ?dir i) s = (Err (UnexpectedEof (length (encode_all crc act))), s)"
    by (simp add: read_entries_def fs_healthy h ac read_loop_torn [OF fits k])
  have un: "unwrap_ids (butlast (map (segment_path ?dir) (map fst sealed @ [i]))) = Ok (map fst sealed)"
    by (simp del: map_map)
  have op: "segment_open_for_append (segment_path ?dir i) (wc_max_segment_bytes cfg) s =
     (Ok \<lparr>seg_id = i, seg_path = segment_path ?dir i, seg_writer = [],
          seg_size = of_nat (length ?c), seg_max_bytes = wc_max_segment_bytes cfg\<rparr>, s)"
    by (simp add: segment_open_for_append_def fs_healthy h ac)
  obtain ps where ls': "list_segments ?dir s = (Ok ps, s)" and ps: "ps \<noteq> []" "last ps = segment_path ?dir i"
    "unwrap_ids (butlast ps) = Ok (map fst sealed)"
    using ls un by (metis (no_types, lifting) append_is_Nil_conv last_snoc list.distinct(1) list.map(2) map_append map_is_Nil_conv self_append_conv2 list.map(1))
  show ?thesis
    by (simp add: wal_open_def Let_def fs_healthy checkpoint_open_healthy h ls' ps op highest_sequence_on_disk_def ra)
qed

lemma wal_rep_open:
  assumes rep: "wal_rep crc w s sealed act"
  shows "\<exists>w'. wal_open crc (w_config w) s = (Ok w', s) \<and> wal_rep crc w' s sealed act \<and> w_config w' = w_config w"
proof -
  let ?L = "concat (map snd sealed) @ act" and ?r = "reopened (w_config w) s sealed (seg_id (w_active w)) act crc"
  have num: "numbered (w_next_sequence w) ?L" using rep by (simp add: wal_rep_def)
  have "numbered (resume_sequence ?L) ?L"
  proof (cases "?L = []")
    case True
    show ?thesis unfolding True by (simp add: numbered_def resume_sequence_def)
  next
    case False
    then show ?thesis unfolding numbered_resume [OF num] using num by (simp only: if_False)
  qed
  then have "wal_rep crc ?r s sealed act"
    using rep by (simp add: wal_rep_def reopened_def active_ok_def checkpoint_in_def)
  moreover have "wal_open crc (w_config w) s = (Ok ?r, s)"
    using rep by (intro wal_open_segments) (auto simp: wal_rep_def)
  ultimately show ?thesis by (intro exI [of _ ?r]) (simp add: reopened_def)
qed

lemma append_crash_open:
  assumes rep: "wal_rep crc w s sealed act" and room: "wal_room w d"
    and run: "wal_append crc d (w, s\<lparr>faults := fl\<rparr>) = (r, (w', s'))"
  defines "L \<equiv> concat (map snd sealed) @ act" and "s'' \<equiv> s'\<lparr>faults := []\<rparr>"
  shows "r \<noteq> Panic \<and>
    ((\<exists>w'' L''. wal_open crc (w_config w) s'' = (Ok w'', s'') \<and> wal_holds crc w'' s'' L'' \<and>
        (if is_ok r then L'' = L @ [\<lparr>sequence = w_next_sequence w, data = d\<rparr>]
         else L'' \<in> {L, L @ [\<lparr>sequence = w_next_sequence w, data = d\<rparr>]})) \<or>
     \<not> is_ok r \<and> (\<exists>off. wal_open crc (w_config w) s'' = (Err (UnexpectedEof off), s'')))"
proof -
  let ?e = "\<lparr>sequence = w_next_sequence w, data = d\<rparr>" and ?enc = "entry_encode crc (w_next_sequence w) d"
  obtain w0 s0 sealed0 act0 k where rep0: "wal_rep crc w0 s0 sealed0 act0" and L: "concat (map snd sealed0) @ act0 = L"
    and cfg: "w_config w0 = w_config w" "w_next_sequence w0 = w_next_sequence w"
    and no: "0 < k \<longrightarrow> \<not> would_overflow (length ?enc) (w_active w0)"
    and tw: "tail_written (seg_path (w_active w0)) ?enc k s0 s'" and r: "r \<noteq> Panic" "is_ok r \<longrightarrow> k = length ?enc"
    using append_faults [OF rep room run] unfolding L_def by blast
  let ?i = "seg_id (w_active w0)" and ?d = "wc_dir (w_config w)"
  have ap: "seg_path (w_active w0) = segment_path ?d ?i" and c0: "fs_content s0 (segment_path ?d ?i) = Some (encode_all crc act0)"
    and fits: "list_all entry_fits act0" and wf0: "wf_fs s0"
    using rep0 cfg by (auto simp: wal_rep_def active_ok_def seg_files_def)
  have h: "healthy s''" "wf_fs s''" and c: "fs_content s'' = (fs_content s0)(segment_path ?d ?i := Some (encode_all crc act0 @ take k ?enc))"
    using tw wf0 by (simp_all add: s''_def tail_written_def ap c0)
  have k: "k \<le> length ?enc" and pos: "0 < length ?enc" using tw by (simp_all add: tail_written_def HEADER_SIZE_def)
  consider (old) "k = 0" | (torn) "0 < k" "k < length ?enc" | (new) "k = length ?enc" "0 < k"
    using k pos by linarith
  then show ?thesis
  proof cases
    case old
    then have "fs_content s'' = fs_content s0" using c c0 by auto
    from wal_rep_open [OF wal_rep_cong [OF rep0 this h(2,1)]] obtain w'' where
      "wal_open crc (w_config w) s'' = (Ok w'', s'')" "wal_rep crc w'' s'' sealed0 act0" using cfg by auto
    moreover have "\<not> is_ok r" using old r(2) pos by auto
    ultimately show ?thesis using L r(1) unfolding wal_holds_def by fastforce
  next
    case torn
    have de: "dir_exact ?d (map fst sealed0 @ [?i]) s''"
      using rep0 cfg c0 by (auto simp: wal_rep_def dir_exact_def c)
    have "?i \<notin> fst ` set sealed0" using rep0 by (auto simp: wal_rep_def sorted_wrt_append)
    then have sf: "seg_files crc ?d sealed0 s''"
      using rep0 cfg by (auto simp: wal_rep_def seg_files_def c rev_image_eqI)
    have "entry_fits ?e" using room by (simp add: entry_fits_def wal_room_def)
    moreover have "sorted_wrt (<) (map fst sealed0 @ [?i])" using rep0 by (simp add: wal_rep_def)
    ultimately have "wal_open crc (w_config w) s'' = (Err (UnexpectedEof (length (encode_all crc act0))), s'')"
      using torn by (intro wal_open_torn [OF h _ sf _ fits, where e = ?e and k = k and i = ?i]) (simp_all add: c de)
    moreover have "\<not> is_ok r" using torn r(2) by auto
    ultimately show ?thesis using r(1) by blast
  next
    case new
    have b: "length d < 2 ^ 32" "unat (w_next_sequence w0) + 1 < 2 ^ 64" using room cfg by (simp_all add: wal_room_def)
    have no': "\<not> would_overflow (length (entry_encode crc (w_next_sequence w0) d)) (w_active w0)"
      using no new(2) cfg by (simp only: if_True simp_thms)
    note rep1 = wal_rep_appended [OF rep0 b no']
    have "fs_content (appended_fs crc d w0 s0) = fs_content s''"
      using new by (auto simp: appended_fs_def Let_def fs_laws c ap c0 cfg)
    then have "fs_content s'' = fs_content (appended_fs crc d w0 s0)" by simp
    from wal_rep_open [OF wal_rep_cong [OF rep1 this h(2,1)]] obtain w'' where
      "wal_open crc (w_config w) s'' = (Ok w'', s'')" "wal_rep crc w'' s'' sealed0 (act0 @ [\<lparr>sequence = w_next_sequence w0, data = d\<rparr>])"
      using cfg by auto
    moreover have "concat (map snd sealed0) @ (act0 @ [\<lparr>sequence = w_next_sequence w0, data = d\<rparr>]) = L @ [?e]"
      using L cfg by simp
    ultimately have "wal_open crc (w_config w) s'' = (Ok w'', s'') \<and> wal_holds crc w'' s'' (L @ [?e])"
      unfolding wal_holds_def by metis
    then show ?thesis using r(1) by auto
  qed
qed

end
