(* ===== verification/Wal_Spec.thy ===== *)
theory Wal_Spec
  imports Wal_Crash
begin

text \<open>
  What a client of \<open>wal-core\<close> is promised, as an abstract machine: a list of entries, the next sequence
  number and the checkpoint. Every operation of the WAL on a file system without faults is a step of
  that machine, and reads and recovery are functions of its state.
\<close>

section \<open>The abstract log\<close>

record log_spec =
  ls_entries :: "entry list"
  ls_next :: u64
  ls_checkpoint :: u64

datatype wal_op = Append bytes | Checkpoint u64 | Truncate u64 | Sync | Reopen

text \<open>Truncation may keep entries that it was allowed to drop: it works on whole segments.\<close>

inductive spec_step :: "wal_op \<Rightarrow> log_spec \<Rightarrow> log_spec \<Rightarrow> bool" where
  append: "spec_step (Append d) a
    (a\<lparr>ls_entries := ls_entries a @ [\<lparr>sequence = ls_next a, data = d\<rparr>], ls_next := ls_next a + 1\<rparr>)"
| checkpoint: "spec_step (Checkpoint q) a (a\<lparr>ls_checkpoint := max (ls_checkpoint a) q\<rparr>)"
| truncate: "\<forall>e \<in> set (take k (ls_entries a)). sequence e < q \<Longrightarrow>
    spec_step (Truncate q) a (a\<lparr>ls_entries := drop k (ls_entries a)\<rparr>)"
| sync: "spec_step Sync a a"
| reopen: "spec_step Reopen a a"

inductive_cases spec_stepE: "spec_step op a a'"

inductive_simps spec_step_simps:
  "spec_step (Append d) a a'" "spec_step (Checkpoint q) a a'" "spec_step (Truncate q) a a'" "spec_step Sync a a'" "spec_step Reopen a a'"

definition spec_read :: "log_spec \<Rightarrow> u64 \<Rightarrow> entry list" where
  "spec_read a q = filter (\<lambda>e. q \<le> sequence e) (ls_entries a)"

definition spec_recover :: "log_spec \<Rightarrow> entry list" where
  "spec_recover a = filter (\<lambda>e. ls_checkpoint a < sequence e) (ls_entries a)"

section \<open>The operations\<close>

definition drop_value :: "('a, 'e) res \<times> 's \<Rightarrow> (unit, 'e) res \<times> 's" where
  "drop_value m = and_then m (\<lambda>_ s. (Ok (), s))"

fun wal_do :: "(bytes \<Rightarrow> u32) \<Rightarrow> wal_op \<Rightarrow> (wal, unit, wal_error) meth" where
  "wal_do crc (Append d) ws = drop_value (wal_append crc d ws)"
| "wal_do crc (Checkpoint q) ws = wal_checkpoint q ws"
| "wal_do crc (Truncate q) ws = wal_truncate_before crc q ws"
| "wal_do crc Sync ws = wal_sync ws"
| "wal_do crc Reopen ws = (case ws of (w, s) \<Rightarrow>
     (case wal_open crc (w_config w) s of
        (Ok w', s') \<Rightarrow> (Ok (), (w', s')) | (Err e, s') \<Rightarrow> (Err e, (w, s')) | (Panic, s') \<Rightarrow> (Panic, (w, s'))))"

definition wal_abs :: "(bytes \<Rightarrow> u32) \<Rightarrow> wal \<Rightarrow> fs \<Rightarrow> log_spec \<Rightarrow> bool" where
  "wal_abs crc w s a \<longleftrightarrow> wal_holds crc w s (ls_entries a) \<and> ls_next a = w_next_sequence w \<and>
     ls_checkpoint a = cp_sequence (w_checkpoint w)"

text \<open>An append needs room for its record, a reopened log an entry left to number from.\<close>

fun op_ok :: "wal_op \<Rightarrow> wal \<Rightarrow> log_spec \<Rightarrow> bool" where
  "op_ok (Append d) w a \<longleftrightarrow> wal_room w d"
| "op_ok Reopen w a \<longleftrightarrow> ls_entries a \<noteq> [] \<or> ls_next a = 1"
| "op_ok _ w a \<longleftrightarrow> True"

lemma wal_append_checkpoint:
  assumes "wal_holds crc w s L" and "wal_room w d" and "wal_append crc d (w, s) = (r, (w', s'))"
  shows "w_checkpoint w' = w_checkpoint w"
proof -
  obtain sealed act where rep: "wal_rep crc w s sealed act"
    using assms(1) by (auto simp: wal_holds_def)
  show ?thesis
    using wal_append_rep [OF rep assms(2)] assms(3) by (auto split: if_splits)
qed

lemma wal_sync_holds:
  assumes "wal_holds crc w s L"
  shows "\<exists>s'. wal_sync (w, s) = (Ok (), (w, s')) \<and> wal_holds crc w s' L"
proof -
  obtain sealed act where rep: "wal_rep crc w s sealed act" and L: "L = concat (map snd sealed) @ act"
    using assms by (auto simp: wal_holds_def)
  let ?s = "sync_file (seg_path (w_active w)) s"
  have h: "healthy s" "seg_writer (w_active w) = []" "wf_fs s" using rep by (simp_all add: wal_rep_def active_ok_def)
  have "w\<lparr>w_active := (w_active w)\<lparr>seg_writer := []\<rparr>\<rparr> = w" using seg_writer_same [OF h(2)] by simp
  then have "wal_sync (w, s) = (Ok (), (w, ?s))"
    using h by (simp add: wal_sync_def on_active_def segment_sync_def on_writer_def on_field_def bufwriter_flush_def io_def fs_healthy)
  moreover have "wal_rep crc w ?s sealed act"
    using rep h by (intro wal_rep_cong [OF rep]) (simp_all add: fs_laws)
  ultimately show ?thesis using L by (auto simp: wal_holds_def)
qed

lemma wal_truncate_checkpoint:
  "wal_truncate_before crc q (w, s) = (r, (w', s')) \<Longrightarrow> w_checkpoint w' = w_checkpoint w"
  by (cases "truncate_loop crc (w_dir w) q (w_sealed w) s" rule: prod.exhaust;
      cases "fst (truncate_loop crc (w_dir w) q (w_sealed w) s)")
    (auto simp: wal_truncate_before_def io_def)

text \<open>The simulation.\<close>

lemma wal_do_simulates:
  assumes abs: "wal_abs crc w s a" and ok: "op_ok op w a"
  shows "\<exists>w' s' a'. wal_do crc op (w, s) = (Ok (), (w', s')) \<and> spec_step op a a' \<and> wal_abs crc w' s' a'"
proof -
  have h: "wal_holds crc w s (ls_entries a)" and n: "ls_next a = w_next_sequence w"
    and c: "ls_checkpoint a = cp_sequence (w_checkpoint w)"
    using abs by (simp_all add: wal_abs_def)
  show ?thesis
  proof (cases op)
    case (Append d)
    then have room: "wal_room w d" using ok by simp
    obtain w' s' where r: "wal_append crc d (w, s) = (Ok (w_next_sequence w), (w', s'))"
      "wal_holds crc w' s' (ls_entries a @ [\<lparr>sequence = w_next_sequence w, data = d\<rparr>])"
      "w_next_sequence w' = w_next_sequence w + 1"
      using wal_append_holds [OF h room] by blast
    have "w_checkpoint w' = w_checkpoint w" by (rule wal_append_checkpoint [OF h room r(1)])
    then show ?thesis
      using Append r n c
      by (intro exI [of _ w'] exI [of _ s'] exI [of _ "a\<lparr>ls_entries := ls_entries a @ [\<lparr>sequence = ls_next a, data = d\<rparr>],
          ls_next := ls_next a + 1\<rparr>"]) (simp add: wal_abs_def drop_value_def spec_step_simps)
  next
    case (Checkpoint q)
    obtain sealed act where rep: "wal_rep crc w s sealed act" and L: "ls_entries a = concat (map snd sealed) @ act"
      using h by (auto simp: wal_holds_def)
    let ?w = "w\<lparr>w_checkpoint := (w_checkpoint w)\<lparr>cp_sequence := max (cp_sequence (w_checkpoint w)) q\<rparr>\<rparr>"
    obtain s' where r: "wal_checkpoint q (w, s) = (Ok (), (?w, s'))" "wal_rep crc ?w s' sealed act"
      using wal_checkpoint_rep [OF rep, of q] by blast
    then have "wal_holds crc ?w s' (ls_entries a)" using L by (auto simp: wal_holds_def)
    with r(1) n c show ?thesis
      by (intro exI [of _ ?w] exI [of _ s'] exI [of _ "a\<lparr>ls_checkpoint := max (ls_checkpoint a) q\<rparr>"])
        (simp add: Checkpoint wal_abs_def spec_step_simps)
  next
    case (Truncate q)
    obtain k w' s' where r: "wal_truncate_before crc q (w, s) = (Ok (), (w', s'))" "wal_holds crc w' s' (drop k (ls_entries a))"
      "\<forall>e \<in> set (take k (ls_entries a)). sequence e < q" "w_next_sequence w' = w_next_sequence w"
      using wal_truncate_holds [OF h, of q] by blast
    then show ?thesis
      using Truncate n c wal_truncate_checkpoint [OF r(1)] spec_step.truncate [OF r(3)]
      by (intro exI [of _ w'] exI [of _ s'] exI [of _ "a\<lparr>ls_entries := drop k (ls_entries a)\<rparr>"]) (simp add: wal_abs_def)
  next
    case Sync
    then show ?thesis
      using wal_sync_holds [OF h] n c by (auto simp: wal_abs_def spec_step_simps)
  next
    case Reopen
    obtain sealed act where rep: "wal_rep crc w s sealed act" and L: "ls_entries a = concat (map snd sealed) @ act"
      using h by (auto simp: wal_holds_def)
    have "wal_open crc (w_config w) s = (Ok w, s)"
      using ok Reopen L n by (intro wal_rep_reopen [OF rep]) auto
    then show ?thesis
      using Reopen abs by (intro exI [of _ w] exI [of _ s] exI [of _ a]) (simp add: spec_step_simps)
  qed
qed

lemma wal_abs_read: "wal_abs crc w s a \<Longrightarrow> wal_read_from crc w q s = (Ok (spec_read a q), s)"
  by (simp add: wal_abs_def wal_read_from_holds spec_read_def)

text \<open>\<open>recover\<close> starts just past the checkpoint.\<close>

lemma wal_abs_recover:
  assumes abs: "wal_abs crc w s a" and c: "unat (ls_checkpoint a) + 1 < 2 ^ 64"
  shows "wal_recover crc w s = (Ok (spec_recover a), s)"
proof -
  have "wal_recover crc w s = (Ok (filter (\<lambda>e. ls_checkpoint a + 1 \<le> sequence e) (ls_entries a)), s)"
    using abs by (simp add: wal_recover_def wal_abs_def wal_read_from_holds)
  moreover have "(\<lambda>e :: entry. ls_checkpoint a + 1 \<le> sequence e) = (\<lambda>e. ls_checkpoint a < sequence e)"
    using c by (auto simp: fun_eq_iff u64_order u64_arith)
  ultimately show ?thesis by (simp only: spec_recover_def)
qed

text \<open>Truncating at the checkpoint takes nothing from recovery.\<close>

lemma truncate_keeps_recover:
  assumes "spec_step (Truncate q) a a'" and "q \<le> ls_checkpoint a + 1" and "unat (ls_checkpoint a) + 1 < 2 ^ 64"
  shows "spec_recover a' = spec_recover a"
proof -
  obtain k where k: "a' = a\<lparr>ls_entries := drop k (ls_entries a)\<rparr>" "\<forall>e \<in> set (take k (ls_entries a)). sequence e < q"
    using assms(1) by (auto simp: spec_step_simps)
  have "unat (ls_checkpoint a + 1) = unat (ls_checkpoint a) + 1" using assms(3) by (simp add: u64_arith)
  then have "filter (\<lambda>e. ls_checkpoint a < sequence e) (take k (ls_entries a)) = []"
    using k(2) assms(2) by (fastforce simp: filter_empty_conv u64_order)
  then have "spec_recover a = filter (\<lambda>e. ls_checkpoint a < sequence e) (drop k (ls_entries a))"
    unfolding spec_recover_def by (metis append_Nil append_take_drop_id filter_append)
  then show ?thesis by (simp add: spec_recover_def k(1))
qed

end
