(* ===== verification/Raft_Log.thy ===== *)
theory Raft_Log
  imports Wal_Log
begin

text \<open>
  \<open>wal-replication/src/raft/log.rs\<close>: the replicated log. Entries live in memory and every
  mutation is a record in the WAL; \<open>raft_log_open\<close> replays the records.
\<close>

section \<open>Errors of the replication layer\<close>

text \<open>\<open>wal-replication/src/error.rs\<close>; the two transport errors carry values of the crate \<open>tonic\<close>
  and are not produced by the modelled code.\<close>

datatype raft_error =
    NotLeader "string option"
  | QuorumNotReached
  | Shutdown
  | RaftWal wal_error
  | RaftIo io_error

section \<open>Records\<close>

definition KIND_APPEND :: u8 where "KIND_APPEND = 1"
definition KIND_TRUNCATE :: u8 where "KIND_TRUNCATE = 2"
definition KIND_SNAPSHOT :: u8 where "KIND_SNAPSHOT = 3"

record log_entry =
  le_term :: u64
  le_index :: u64
  le_data :: bytes

definition encode_append :: "log_entry \<Rightarrow> bytes" where
  "encode_append e =
     [KIND_APPEND] @ u64_to_le_bytes (le_index e) @ u64_to_le_bytes (le_term e) @ le_data e"

definition decode_append :: "bytes \<Rightarrow> log_entry option" where
  "decode_append payload =
     (if length payload < 16 then None
      else Some \<lparr>le_term = u64_from_le_bytes (subslice 8 16 payload),
                 le_index = u64_from_le_bytes (subslice 0 8 payload),
                 le_data = drop 16 payload\<rparr>)"

definition encode_truncate :: "u64 \<Rightarrow> bytes" where
  "encode_truncate from_index = [KIND_TRUNCATE] @ u64_to_le_bytes from_index"

definition encode_snapshot :: "u64 \<Rightarrow> u64 \<Rightarrow> bytes" where
  "encode_snapshot last_index last_term =
     [KIND_SNAPSHOT] @ u64_to_le_bytes last_index @ u64_to_le_bytes last_term"

section \<open>State and recovery\<close>

record raft_log =
  rl_entries :: "log_entry list"
  rl_wal :: wal
  rl_snapshot_index :: u64
  rl_snapshot_term :: u64

text \<open>The three variables that the replay loop of \<open>open\<close> carries.\<close>

type_synonym replay_state = "log_entry list \<times> u64 \<times> u64"

definition saturating_sub :: "u64 \<Rightarrow> u64 \<Rightarrow> u64" where
  "saturating_sub a b = (if a < b then 0 else a - b)"

fun replay_record :: "bytes \<Rightarrow> replay_state \<Rightarrow> replay_state" where
  "replay_record payload (entries, snapshot_index, snapshot_term) =
     (case payload of
        [] \<Rightarrow> (entries, snapshot_index, snapshot_term)
      | kind # body \<Rightarrow>
          if kind = KIND_APPEND then
            (case decode_append body of
               None \<Rightarrow> (entries, snapshot_index, snapshot_term)
             | Some e \<Rightarrow>
                 (let idx = le_index e;
                      offset = unat (saturating_sub idx (snapshot_index + 1))
                  in if snapshot_index < idx then
                       (if offset < length entries then entries[offset := e] else entries @ [e],
                        snapshot_index, snapshot_term)
                     else (entries, snapshot_index, snapshot_term)))
          else if kind = KIND_TRUNCATE then
            (if 9 \<le> length payload then
               (let from_index = u64_from_le_bytes (subslice 1 9 payload) in
                if snapshot_index + 1 < from_index then
                  (take (unat (from_index - snapshot_index - 1)) entries, snapshot_index, snapshot_term)
                else if from_index = snapshot_index + 1 then ([], snapshot_index, snapshot_term)
                else (entries, snapshot_index, snapshot_term))
             else (entries, snapshot_index, snapshot_term))
          else if kind = KIND_SNAPSHOT then
            (if 17 \<le> length payload then
               (let si = u64_from_le_bytes (subslice 1 9 payload);
                    st = u64_from_le_bytes (subslice 9 17 payload)
                in (filter (\<lambda>e. si < le_index e) entries, si, st))
             else (entries, snapshot_index, snapshot_term))
          else (entries, snapshot_index, snapshot_term))"

declare replay_record.simps [simp del]

fun replay :: "bytes list \<Rightarrow> replay_state \<Rightarrow> replay_state" where
  "replay [] st = st"
| "replay (p # ps) st = replay ps (replay_record p st)"

definition raft_log_open :: "(bytes \<Rightarrow> u32) \<Rightarrow> wal_config \<Rightarrow> (raft_log, raft_error) call" where
  "raft_log_open crc wal_config s =
     and_then (map_err RaftWal (wal_open crc wal_config s)) (\<lambda>wal s.
     and_then (map_err RaftWal (wal_read_from crc wal 1 s)) (\<lambda>all s.
       case replay (map data all) ([], 0, 0) of
         (entries, snapshot_index, snapshot_term) \<Rightarrow>
           (Ok \<lparr>rl_entries = entries, rl_wal = wal, rl_snapshot_index = snapshot_index,
                rl_snapshot_term = snapshot_term\<rparr>, s)))"

section \<open>Read path\<close>

definition last_index :: "raft_log \<Rightarrow> u64" where
  "last_index l = rl_snapshot_index l + of_nat (length (rl_entries l))"

definition last_term :: "raft_log \<Rightarrow> u64" where
  "last_term l = (if rl_entries l = [] then rl_snapshot_term l else le_term (last (rl_entries l)))"

definition get_entry :: "log_entry list \<Rightarrow> nat \<Rightarrow> log_entry option" where
  "get_entry es i = (if i < length es then Some (es ! i) else None)"

definition term_at :: "raft_log \<Rightarrow> u64 \<Rightarrow> u64 option" where
  "term_at l index =
     (if index = 0 then None
      else if index = rl_snapshot_index l then Some (rl_snapshot_term l)
      else if index < rl_snapshot_index l then None
      else map_option le_term (get_entry (rl_entries l) (unat (index - rl_snapshot_index l - 1))))"

text \<open>The slice \<open>self.entries[offset..]\<close> panics when \<open>offset\<close> is past the end.\<close>

definition entries_from :: "raft_log \<Rightarrow> u64 \<Rightarrow> (log_entry list, raft_error) res" where
  "entries_from l from_index =
     (let start = max from_index (rl_snapshot_index l + 1) in
      if start = 0 \<or> last_index l < start then Ok []
      else let offset = unat (start - rl_snapshot_index l - 1) in
           if offset \<le> length (rl_entries l) then Ok (drop offset (rl_entries l)) else Panic)"

definition first_index_of_term :: "raft_log \<Rightarrow> u64 \<Rightarrow> u64 option" where
  "first_index_of_term l t =
     (if t = rl_snapshot_term l \<and> 0 < rl_snapshot_index l then Some (rl_snapshot_index l)
      else map_option le_index (find (\<lambda>e. le_term e = t) (rl_entries l)))"

section \<open>Write path\<close>

definition on_wal :: "(wal, 'a, wal_error) meth \<Rightarrow> (raft_log, 'a, raft_error) meth" where
  "on_wal m ls = map_err RaftWal (on_field rl_wal (\<lambda>w l. l\<lparr>rl_wal := w\<rparr>) m ls)"

definition raft_log_append ::
  "(bytes \<Rightarrow> u32) \<Rightarrow> u64 \<Rightarrow> bytes \<Rightarrow> (raft_log, u64, raft_error) meth" where
  "raft_log_append crc t dat = (\<lambda>(l, s).
     let index = last_index l + 1;
         entry = \<lparr>le_term = t, le_index = index, le_data = dat\<rparr>;
         payload = encode_append entry
     in and_then (on_wal (wal_append crc payload) (l, s))
          (\<lambda>_ (l, s). (Ok index, (l\<lparr>rl_entries := rl_entries l @ [entry]\<rparr>, s))))"

definition truncate_from :: "(bytes \<Rightarrow> u32) \<Rightarrow> u64 \<Rightarrow> (raft_log, unit, raft_error) meth" where
  "truncate_from crc from_index = (\<lambda>(l, s).
     if from_index \<le> rl_snapshot_index l \<or> last_index l < from_index then (Ok (), (l, s))
     else
       and_then (on_wal (wal_append crc (encode_truncate from_index)) (l, s)) (\<lambda>_ (l, s).
         let trim_to = unat (from_index - rl_snapshot_index l - 1)
         in (Ok (), (l\<lparr>rl_entries := take trim_to (rl_entries l)\<rparr>, s))))"

definition compact :: "(bytes \<Rightarrow> u32) \<Rightarrow> u64 \<Rightarrow> u64 \<Rightarrow> (raft_log, unit, raft_error) meth" where
  "compact crc last_included_index last_included_term = (\<lambda>(l, s).
     if last_included_index \<le> rl_snapshot_index l then (Ok (), (l, s))
     else
       and_then (on_wal (wal_append crc (encode_snapshot last_included_index last_included_term)) (l, s))
         (\<lambda>snap_seq ls.
       and_then (on_wal (wal_checkpoint snap_seq) ls) (\<lambda>_ ls.
       and_then (on_wal (wal_truncate_before crc snap_seq) ls) (\<lambda>_ (l, s).
         let trim = unat (min last_included_index (last_index l) - rl_snapshot_index l)
         in (Ok (), (l\<lparr>rl_entries := (if length (rl_entries l) \<le> trim then []
                                       else drop trim (rl_entries l)),
                       rl_snapshot_index := last_included_index,
                       rl_snapshot_term := last_included_term\<rparr>, s))))))"

definition install_snapshot :: "(bytes \<Rightarrow> u32) \<Rightarrow> u64 \<Rightarrow> u64 \<Rightarrow> (raft_log, unit, raft_error) meth" where
  "install_snapshot crc last_included_index last_included_term = (\<lambda>(l, s).
     if last_included_index \<le> rl_snapshot_index l then (Ok (), (l, s))
     else
       and_then (on_wal (wal_append crc (encode_snapshot last_included_index last_included_term)) (l, s))
         (\<lambda>snap_seq ls.
       and_then (on_wal (wal_checkpoint snap_seq) ls) (\<lambda>_ ls.
       and_then (on_wal (wal_truncate_before crc snap_seq) ls) (\<lambda>_ (l, s).
         (Ok (), (l\<lparr>rl_entries := filter (\<lambda>e. last_included_index < le_index e) (rl_entries l),
                    rl_snapshot_index := last_included_index,
                    rl_snapshot_term := last_included_term\<rparr>, s))))))"

lemmas raft_log_code [THEN fun_cong, code] =
  raft_log_append_def truncate_from_def compact_def install_snapshot_def

end
