(* ===== verification/Raft_Log_Rep.thy ===== *)
theory Raft_Log_Rep
  imports Raft_Log
begin

text \<open>
  What the replicated log promises. \<open>log_map\<close> is the abstract log, a partial function from
  positions to entries; the read path is shown to compute it. \<open>raft_log_rep\<close> says that a
  restart would rebuild the log in memory from the WAL, and every write operation keeps it,
  compaction and snapshot installation under the conditions that make them crash-safe. The
  proofs use the interface \<open>record_log\<close> of the WAL.
\<close>

section \<open>Well-formed logs and their abstract view\<close>

definition log_wf :: "raft_log \<Rightarrow> bool" where
  "log_wf l \<longleftrightarrow>
     unat (rl_snapshot_index l) + length (rl_entries l) + 1 < 2 ^ 64 \<and>
     (\<forall>i < length (rl_entries l). unat (le_index (rl_entries l ! i)) = unat (rl_snapshot_index l) + 1 + i)"

definition log_map :: "raft_log \<Rightarrow> nat \<rightharpoonup> log_entry" where
  "log_map l i =
     (if unat (rl_snapshot_index l) < i then get_entry (rl_entries l) (i - unat (rl_snapshot_index l) - 1) else None)"

lemma log_wf_last_index: "log_wf l \<Longrightarrow> unat (last_index l) = unat (rl_snapshot_index l) + length (rl_entries l)"
  by (simp add: log_wf_def last_index_def u64_arith)

lemma log_wf_indices:
  "log_wf l \<Longrightarrow> map (\<lambda>e. unat (le_index e)) (rl_entries l) =
     [unat (rl_snapshot_index l) + 1 ..< unat (rl_snapshot_index l) + 1 + length (rl_entries l)]"
  by (rule nth_equalityI) (simp_all add: log_wf_def del: upt_Suc)

lemma log_wf_no_wrap: "log_wf l \<Longrightarrow> unat (rl_snapshot_index l + 1) = unat (rl_snapshot_index l) + 1"
  by (simp add: log_wf_def u64_arith)

lemma log_map_index: "log_wf l \<Longrightarrow> log_map l i = Some e \<Longrightarrow> unat (le_index e) = i"
  by (auto simp: log_map_def get_entry_def log_wf_def split: if_splits)

lemma dom_log_map: "log_wf l \<Longrightarrow> dom (log_map l) = {unat (rl_snapshot_index l) <.. unat (last_index l)}"
  by (auto simp: log_map_def get_entry_def dom_def log_wf_last_index split: if_splits)

section \<open>Read path\<close>

lemma term_at_spec:
  assumes "log_wf l"
  shows "term_at l i =
    (if i = 0 then None
     else if i = rl_snapshot_index l then Some (rl_snapshot_term l)
     else map_option le_term (log_map l (unat i)))"
  using unat_sub_sub_1 [of "rl_snapshot_index l" i] by (auto simp: term_at_def log_map_def u64_order)

lemma term_at_last:
  assumes "log_wf l" and "0 < unat (last_index l)"
  shows "term_at l (last_index l) = Some (last_term l)"
proof (cases "rl_entries l = []")
  case True
  with assms show ?thesis by (auto simp: term_at_def last_index_def last_term_def)
next
  case False
  then have "rl_snapshot_index l < last_index l"
    using log_wf_last_index [OF assms(1)] by (simp add: u64_less_iff)
  then have "unat (last_index l - rl_snapshot_index l - 1) = length (rl_entries l) - 1"
    and "last_index l \<noteq> rl_snapshot_index l" "last_index l \<noteq> 0"
    using log_wf_last_index [OF assms(1)] by (auto simp: unat_sub_sub_1)
  with False \<open>rl_snapshot_index l < last_index l\<close> show ?thesis
    by (auto simp: term_at_def get_entry_def last_term_def last_conv_nth)
qed

lemma entries_from_spec:
  assumes "log_wf l"
  shows "entries_from l i = Ok (filter (\<lambda>e. i \<le> le_index e) (rl_entries l))"
proof -
  let ?s = "unat (rl_snapshot_index l)" and ?n = "length (rl_entries l)"
  define start where "start = max i (rl_snapshot_index l + 1)"
  have st: "unat start = max (unat i) (?s + 1)"
    using log_wf_no_wrap [OF assms] by (simp add: start_def max_def u64_le_iff)
  have idx: "unat (le_index (rl_entries l ! j)) = ?s + 1 + j" if "j < ?n" for j
    using assms that by (simp add: log_wf_def)
  have flt: "filter (\<lambda>e. i \<le> le_index e) (rl_entries l) = drop (unat start - ?s - 1) (rl_entries l)"
  proof -
    have "filter (\<lambda>e. i \<le> le_index e) (rl_entries l) =
        filter (\<lambda>e. i \<le> le_index e) (take (unat start - ?s - 1) (rl_entries l)) @
        filter (\<lambda>e. i \<le> le_index e) (drop (unat start - ?s - 1) (rl_entries l))"
      by (metis append_take_drop_id filter_append)
    moreover have "filter (\<lambda>e. i \<le> le_index e) (take (unat start - ?s - 1) (rl_entries l)) = []"
      using st idx by (auto simp: filter_empty_conv in_set_conv_nth u64_le_iff)
    moreover have "filter (\<lambda>e. i \<le> le_index e) (drop (unat start - ?s - 1) (rl_entries l)) =
        drop (unat start - ?s - 1) (rl_entries l)"
      using st idx by (auto simp: filter_id_conv in_set_conv_nth u64_le_iff)
    ultimately show ?thesis by simp
  qed
  show ?thesis
  proof (cases "last_index l < start")
    case True
    then have "?n \<le> unat start - ?s - 1"
      using log_wf_last_index [OF assms] by (simp add: u64_less_iff)
    with True flt show ?thesis by (simp add: entries_from_def start_def [symmetric])
  next
    case False
    then have "unat start \<le> ?s + ?n" using log_wf_last_index [OF assms] by (simp add: u64_less_iff)
    moreover have "rl_snapshot_index l < start" using st by (simp add: u64_less_iff)
    then have "unat (start - rl_snapshot_index l - 1) = unat start - ?s - 1" and "start \<noteq> 0"
      by (rule unat_sub_sub_1) (use st in auto)
    ultimately show ?thesis
      using False flt by (simp add: entries_from_def start_def [symmetric] Let_def)
  qed
qed

section \<open>Records: round trips\<close>

lemma kinds_distinct [simp]:
  "KIND_APPEND \<noteq> KIND_TRUNCATE" "KIND_APPEND \<noteq> KIND_SNAPSHOT" "KIND_TRUNCATE \<noteq> KIND_SNAPSHOT"
  "KIND_TRUNCATE \<noteq> KIND_APPEND" "KIND_SNAPSHOT \<noteq> KIND_APPEND" "KIND_SNAPSHOT \<noteq> KIND_TRUNCATE"
  by (simp_all add: KIND_APPEND_def KIND_TRUNCATE_def KIND_SNAPSHOT_def)

lemma decode_append_encode: "decode_append (tl (encode_append e)) = Some e"
  by (simp add: decode_append_def encode_append_def subslice_def)

lemma replay_snoc: "replay (ps @ [p]) st = replay_record p (replay ps st)"
  by (induction ps arbitrary: st) auto

lemma replay_append_record:
  assumes "unat (le_index e) = unat si + 1 + length es"
  shows "replay_record (encode_append e) (es, si, st) = (es @ [e], si, st)"
proof -
  have lt: "unat si + 1 < 2 ^ 64" "si < le_index e"
    using unat_u64_less [of "le_index e"] assms by (auto simp: u64_less_iff)
  then have "unat (si + 1) = unat si + 1" by (simp add: u64_arith)
  then have "unat (saturating_sub (le_index e) (si + 1)) = length es"
    using assms by (simp add: saturating_sub_def u64_order u64_arith)
  moreover obtain body where "encode_append e = KIND_APPEND # body" "decode_append body = Some e"
    using decode_append_encode [of e] by (simp add: encode_append_def)
  ultimately show ?thesis
    using lt by (simp add: replay_record.simps Let_def)
qed

lemma replay_truncate_record:
  assumes "si < i"
  shows "replay_record (encode_truncate i) (es, si, st) = (take (unat (i - si - 1)) es, si, st)"
proof -
  have s: "unat si + 1 < 2 ^ 64" using assms unat_u64_less [of i] by (simp add: u64_less_iff)
  have "u64_from_le_bytes (subslice 1 9 (encode_truncate i)) = i"
    by (simp add: encode_truncate_def subslice_def)
  moreover have "si + 1 < i \<or> i = si + 1"
    using assms s by (auto simp: u64_order u64_arith)
  ultimately show ?thesis
    by (auto simp: replay_record.simps encode_truncate_def Let_def)
qed

lemma replay_snapshot_record:
  "replay_record (encode_snapshot i t) (es, si, st) = (filter (\<lambda>e. i < le_index e) es, i, t)"
proof -
  have "u64_from_le_bytes (subslice 1 9 (encode_snapshot i t)) = i"
    "u64_from_le_bytes (subslice 9 17 (encode_snapshot i t)) = t"
    by (simp_all add: encode_snapshot_def subslice_def)
  then show ?thesis
    by (simp add: replay_record.simps encode_snapshot_def Let_def)
qed

section \<open>Memory and WAL agree\<close>

text \<open>\<open>raft_log_rep\<close>: replaying the records in the WAL gives exactly the log in memory.\<close>

definition raft_log_rep :: "(bytes \<Rightarrow> u32) \<Rightarrow> raft_log \<Rightarrow> fs \<Rightarrow> bool" where
  "raft_log_rep crc l s \<longleftrightarrow> log_wf l \<and>
     (\<exists>L. wal_holds crc (rl_wal l) s L \<and> (L = [] \<longrightarrow> w_next_sequence (rl_wal l) = 1) \<and>
          replay (map data L) ([], 0, 0) = (rl_entries l, rl_snapshot_index l, rl_snapshot_term l))"

abbreviation rl_config :: "raft_log \<Rightarrow> wal_config" where
  "rl_config l \<equiv> w_config (rl_wal l)"

lemma wal_holds_reopen:
  "wal_holds crc w s L \<Longrightarrow> (L = [] \<longrightarrow> w_next_sequence w = 1) \<Longrightarrow> wal_open crc (w_config w) s = (Ok w, s)"
  by (auto simp: wal_holds_def intro: wal_rep_reopen)

text \<open>Recovery: opening the directory again gives the same log.\<close>

lemma raft_log_open_rep:
  assumes "raft_log_rep crc l s"
  shows "raft_log_open crc (rl_config l) s = (Ok l, s)"
proof -
  obtain L where L: "wal_holds crc (rl_wal l) s L" "L = [] \<longrightarrow> w_next_sequence (rl_wal l) = 1"
    "replay (map data L) ([], 0, 0) = (rl_entries l, rl_snapshot_index l, rl_snapshot_term l)"
    using assms by (auto simp: raft_log_rep_def)
  then show ?thesis
    by (simp add: raft_log_open_def wal_holds_reopen wal_log.read_all)
qed

lemma raft_log_open_fresh:
  assumes "healthy s" and "wf_fs s" and "dir_exact (wc_dir cfg) [] s" and "unat (wc_max_segment_bytes cfg) < 2 ^ 63"
  shows "\<exists>l s'. raft_log_open crc cfg s = (Ok l, s') \<and> raft_log_rep crc l s' \<and>
    rl_entries l = [] \<and> rl_snapshot_index l = 0 \<and> rl_config l = cfg"
proof -
  obtain w s' where w: "wal_open crc cfg s = (Ok w, s')" "wal_rep crc w s' [] []" "w_config w = cfg" "w_next_sequence w = 1"
    using wal_open_fresh [OF assms] by blast
  then have h: "wal_holds crc w s' []" by (auto simp: wal_holds_def)
  show ?thesis
    using w h by (intro exI [of _ "\<lparr>rl_entries = [], rl_wal = w, rl_snapshot_index = 0, rl_snapshot_term = 0\<rparr>"] exI [of _ s'])
      (auto simp: raft_log_open_def wal_log.read_all raft_log_rep_def log_wf_def)
qed

lemma raft_log_append_rep:
  assumes rep: "raft_log_rep crc l s"
    and room: "wal_room (rl_wal l) (encode_append \<lparr>le_term = t, le_index = last_index l + 1, le_data = d\<rparr>)"
    and bound: "unat (last_index l) + 2 < 2 ^ 64"
  shows "\<exists>l' s'. raft_log_append crc t d (l, s) = (Ok (last_index l + 1), (l', s')) \<and> raft_log_rep crc l' s' \<and>
    rl_entries l' = rl_entries l @ [\<lparr>le_term = t, le_index = last_index l + 1, le_data = d\<rparr>] \<and>
    rl_snapshot_index l' = rl_snapshot_index l \<and> rl_snapshot_term l' = rl_snapshot_term l \<and> rl_config l' = rl_config l"
proof -
  let ?e = "\<lparr>le_term = t, le_index = last_index l + 1, le_data = d\<rparr>"
  have wf: "log_wf l" using rep by (simp add: raft_log_rep_def)
  obtain L where L: "wal_holds crc (rl_wal l) s L"
    "replay (map data L) ([], 0, 0) = (rl_entries l, rl_snapshot_index l, rl_snapshot_term l)"
    using rep by (auto simp: raft_log_rep_def)
  obtain w' s' where a: "wal_append crc (encode_append ?e) (rl_wal l, s) = (Ok (w_next_sequence (rl_wal l)), (w', s'))"
    "wal_holds crc w' s' (L @ [\<lparr>sequence = w_next_sequence (rl_wal l), data = encode_append ?e\<rparr>])"
    "w_config w' = rl_config l"
    using wal_append_holds [OF L(1) room] by blast
  let ?l = "l\<lparr>rl_wal := w', rl_entries := rl_entries l @ [?e]\<rparr>"
  have idx: "unat (last_index l + 1) = unat (rl_snapshot_index l) + 1 + length (rl_entries l)"
    using bound log_wf_last_index [OF wf] by (simp add: u64_arith)
  have "log_wf ?l"
    using wf idx bound log_wf_last_index [OF wf] by (auto simp: log_wf_def nth_append)
  moreover have "replay (map data (L @ [\<lparr>sequence = w_next_sequence (rl_wal l), data = encode_append ?e\<rparr>])) ([], 0, 0) =
      (rl_entries ?l, rl_snapshot_index ?l, rl_snapshot_term ?l)"
    using idx by (simp add: replay_snoc L(2) replay_append_record)
  ultimately have "raft_log_rep crc ?l s'"
    unfolding raft_log_rep_def using a(2) by fastforce
  moreover have "raft_log_append crc t d (l, s) = (Ok (last_index l + 1), (?l, s'))"
    by (simp add: raft_log_append_def Let_def on_wal_def on_field_def a(1))
  ultimately show ?thesis using a(3) by (intro exI [of _ ?l] exI [of _ s']) simp
qed

lemma truncate_from_rep:
  assumes rep: "raft_log_rep crc l s" and room: "wal_room (rl_wal l) (encode_truncate i)"
    and range: "rl_snapshot_index l < i" "i \<le> last_index l"
  shows "\<exists>l' s'. truncate_from crc i (l, s) = (Ok (), (l', s')) \<and> raft_log_rep crc l' s' \<and>
    rl_entries l' = take (unat i - unat (rl_snapshot_index l) - 1) (rl_entries l) \<and>
    rl_snapshot_index l' = rl_snapshot_index l \<and> rl_snapshot_term l' = rl_snapshot_term l \<and> rl_config l' = rl_config l"
proof -
  have wf: "log_wf l" using rep by (simp add: raft_log_rep_def)
  obtain L where L: "wal_holds crc (rl_wal l) s L"
    "replay (map data L) ([], 0, 0) = (rl_entries l, rl_snapshot_index l, rl_snapshot_term l)"
    using rep by (auto simp: raft_log_rep_def)
  obtain w' s' where a: "wal_append crc (encode_truncate i) (rl_wal l, s) = (Ok (w_next_sequence (rl_wal l)), (w', s'))"
    "wal_holds crc w' s' (L @ [\<lparr>sequence = w_next_sequence (rl_wal l), data = encode_truncate i\<rparr>])"
    "w_config w' = rl_config l"
    using wal_append_holds [OF L(1) room] by blast
  let ?n = "unat (i - rl_snapshot_index l - 1)"
  let ?l = "l\<lparr>rl_wal := w', rl_entries := take ?n (rl_entries l)\<rparr>"
  have "log_wf ?l" using wf by (auto simp: log_wf_def)
  then have "raft_log_rep crc ?l s'"
    unfolding raft_log_rep_def using a(2) L(2) replay_truncate_record [OF range(1)]
    by (auto simp: replay_snoc intro!: exI [of _ "L @ [\<lparr>sequence = w_next_sequence (rl_wal l), data = encode_truncate i\<rparr>]"])
  moreover have "truncate_from crc i (l, s) = (Ok (), (?l, s'))"
    using range by (simp add: truncate_from_def Let_def on_wal_def on_field_def a(1) not_le not_less)
  ultimately show ?thesis
    using a(3) unat_sub_sub_1 [OF range(1)] by (intro exI [of _ ?l] exI [of _ s']) simp
qed

section \<open>Compaction\<close>

text \<open>Truncating the WAL behind a snapshot marker deletes whole segments, whatever records they
  hold. Replay after a restart is right in two situations: nothing was deleted, because the
  WAL is a single segment that has room for the marker; or nothing that was deleted can
  matter, because every entry ever recorded is covered by the snapshot.\<close>

definition one_segment :: "wal \<Rightarrow> bytes \<Rightarrow> bool" where
  "one_segment w d \<longleftrightarrow> w_sealed w = [] \<and> \<not> would_overflow (HEADER_SIZE + length d) (w_active w)"

definition append_index :: "bytes \<Rightarrow> u64 option" where
  "append_index p =
     (case p of [] \<Rightarrow> None
      | kind # body \<Rightarrow> if kind = KIND_APPEND then map_option le_index (decode_append body) else None)"

definition covered :: "u64 \<Rightarrow> bytes list \<Rightarrow> bool" where
  "covered li ps \<longleftrightarrow> list_all (\<lambda>p. case append_index p of None \<Rightarrow> True | Some i \<Rightarrow> i \<le> li) ps"

lemma replay_record_covered:
  assumes "covered li [p]" and "\<forall>e \<in> set es. le_index e \<le> li" and "replay_record p (es, si, st) = (es', si', st')"
  shows "\<forall>e \<in> set es'. le_index e \<le> li"
proof (cases p)
  case Nil
  with assms show ?thesis by (simp add: replay_record.simps)
next
  case (Cons kind body)
  show ?thesis
  proof (cases "kind = KIND_APPEND")
    case True
    have "le_index e \<le> li" if "decode_append body = Some e" for e
      using assms(1) that by (simp add: covered_def append_index_def Cons True)
    then show ?thesis
      using assms(2,3) True
      by (auto simp: replay_record.simps Cons Let_def split: option.splits if_splits dest: set_update_subset_insert [THEN subsetD])
  next
    case False
    then show ?thesis
      using assms(2,3)
      by (auto simp: replay_record.simps Cons Let_def split: if_splits dest: in_set_takeD)
  qed
qed

lemma replay_covered:
  "covered li ps \<Longrightarrow> \<forall>e \<in> set es. le_index e \<le> li \<Longrightarrow> replay ps (es, si, st) = (es', si', st') \<Longrightarrow>
   \<forall>e \<in> set es'. le_index e \<le> li"
proof (induction ps arbitrary: es si st)
  case (Cons p ps)
  obtain es1 si1 st1 where r: "replay_record p (es, si, st) = (es1, si1, st1)" by (metis prod_cases3)
  have "\<forall>e \<in> set es1. le_index e \<le> li"
    using Cons.prems by (intro replay_record_covered [OF _ _ r]) (simp_all add: covered_def)
  with Cons r show ?case by (simp add: covered_def)
qed simp

lemma wal_truncate_no_sealed: "w_sealed w = [] \<Longrightarrow> wal_truncate_before crc q (w, s) = (Ok (), (w, s))"
  by (cases w) (simp add: wal_truncate_before_def io_def)

text \<open>The three WAL calls that \<open>compact\<close> and \<open>install_snapshot\<close> make.\<close>

lemma wal_mark_keeps_all:
  assumes "wal_holds crc w s L" and "wal_room w d" and "one_segment w d"
  shows "\<exists>w' s'. wal_log.mark crc d (w, s) = (Ok (), (w', s')) \<and> w_config w' = w_config w \<and>
    wal_holds crc w' s' (L @ [\<lparr>sequence = w_next_sequence w, data = d\<rparr>])"
proof -
  let ?e = "\<lparr>sequence = w_next_sequence w, data = d\<rparr>"
  obtain sealed act where rep: "wal_rep crc w s sealed act" and L: "L = concat (map snd sealed) @ act"
    using assms(1) by (auto simp: wal_holds_def)
  have no: "\<not> would_overflow (HEADER_SIZE + length d) (w_active w)" and se: "w_sealed w = []" "sealed = []"
    using assms(3) rep by (auto simp: one_segment_def wal_rep_def)
  have a: "wal_append crc d (w, s) = (Ok (w_next_sequence w), (appended crc d w, appended_fs crc d w s))"
    "wal_rep crc (appended crc d w) (appended_fs crc d w s) [] (act @ [?e])"
    using wal_append_rep [OF rep assms(2)] no se by simp_all
  obtain s2 where c: "wal_checkpoint (w_next_sequence w) (appended crc d w, appended_fs crc d w s) =
      (Ok (), ((appended crc d w)\<lparr>w_checkpoint := (w_checkpoint (appended crc d w))
         \<lparr>cp_sequence := max (cp_sequence (w_checkpoint (appended crc d w))) (w_next_sequence w)\<rparr>\<rparr>, s2))"
    "wal_rep crc ((appended crc d w)\<lparr>w_checkpoint := (w_checkpoint (appended crc d w))
         \<lparr>cp_sequence := max (cp_sequence (w_checkpoint (appended crc d w))) (w_next_sequence w)\<rparr>\<rparr>) s2 [] (act @ [?e])"
    using wal_checkpoint_rep [OF a(2)] by blast
  have "wal_holds crc ((appended crc d w)\<lparr>w_checkpoint := (w_checkpoint (appended crc d w))
         \<lparr>cp_sequence := max (cp_sequence (w_checkpoint (appended crc d w))) (w_next_sequence w)\<rparr>\<rparr>) s2 (L @ [?e])"
    unfolding wal_holds_def using c(2) se L by fastforce
  with a(1) c(1) se show ?thesis
    by (simp add: wal_log.mark_def wal_truncate_no_sealed)
qed

lemma wal_mark_drops:
  assumes "wal_holds crc w s L" and "wal_room w d"
  shows "\<exists>k w' s'. wal_log.mark crc d (w, s) = (Ok (), (w', s')) \<and> w_config w' = w_config w \<and>
    wal_holds crc w' s' (drop k L @ [\<lparr>sequence = w_next_sequence w, data = d\<rparr>])"
proof -
  obtain k w' s' where m: "wal_log.mark crc d (w, s) = (Ok (), (w', s'))"
    "wal_holds crc w' s' (drop k L @ [\<lparr>sequence = w_next_sequence w, data = d\<rparr>])"
    using wal_log.mark_law [OF assms] by blast
  obtain w1 s1 where a: "wal_append crc d (w, s) = (Ok (w_next_sequence w), (w1, s1))"
    "wal_holds crc w1 s1 (L @ [\<lparr>sequence = w_next_sequence w, data = d\<rparr>])" "w_config w1 = w_config w"
    using wal_append_holds [OF assms] by blast
  obtain s2 cp where c: "wal_checkpoint (w_next_sequence w) (w1, s1) = (Ok (), (w1\<lparr>w_checkpoint := cp\<rparr>, s2))"
    "wal_holds crc (w1\<lparr>w_checkpoint := cp\<rparr>) s2 (L @ [\<lparr>sequence = w_next_sequence w, data = d\<rparr>])"
    using a(2) wal_checkpoint_rep unfolding wal_holds_def by meson
  have "w_config w' = w_config w"
    using m(1) a(1,3) c(1) wal_truncate_holds [OF c(2), of "w_next_sequence w"] by (auto simp: wal_log.mark_def)
  with m show ?thesis by blast
qed

lemma mark_replay:
  assumes rep: "raft_log_rep crc l s" and room: "wal_room (rl_wal l) (encode_snapshot li lt)"
    and safe: "one_segment (rl_wal l) (encode_snapshot li lt) \<or>
      (\<exists>L. wal_read_from crc (rl_wal l) 1 s = (Ok L, s) \<and> covered li (map data L))"
  shows "\<exists>w' s' L'. wal_log.mark crc (encode_snapshot li lt) (rl_wal l, s) = (Ok (), (w', s')) \<and>
    w_config w' = rl_config l \<and> wal_holds crc w' s' L' \<and> L' \<noteq> [] \<and>
    replay (map data L') ([], 0, 0) = (filter (\<lambda>e. li < le_index e) (rl_entries l), li, lt)"
proof -
  let ?d = "encode_snapshot li lt"
  let ?e = "\<lparr>sequence = w_next_sequence (rl_wal l), data = ?d\<rparr>"
  obtain L where L: "wal_holds crc (rl_wal l) s L"
    "replay (map data L) ([], 0, 0) = (rl_entries l, rl_snapshot_index l, rl_snapshot_term l)"
    using rep by (auto simp: raft_log_rep_def)
  show ?thesis
  proof (cases "one_segment (rl_wal l) ?d")
    case True
    from wal_mark_keeps_all [OF L(1) room True]
    obtain w' s' where "wal_log.mark crc ?d (rl_wal l, s) = (Ok (), (w', s'))" "w_config w' = rl_config l"
      "wal_holds crc w' s' (L @ [?e])" by blast
    then show ?thesis
      using L(2) by (intro exI [of _ w'] exI [of _ s'] exI [of _ "L @ [?e]"])
        (simp add: replay_snoc replay_snapshot_record)
  next
    case False
    then have cov: "covered li (map data L)"
      using safe wal_log.read_all [OF L(1)] by auto
    have none: "filter (\<lambda>e. li < le_index e) es = []" if "\<forall>e \<in> set es. le_index e \<le> li" for es
      using that by (auto simp: filter_empty_conv not_less)
    from wal_mark_drops [OF L(1) room]
    obtain k w' s' where m: "wal_log.mark crc ?d (rl_wal l, s) = (Ok (), (w', s'))" "w_config w' = rl_config l"
      "wal_holds crc w' s' (drop k L @ [?e])" by blast
    obtain es si st where r: "replay (map data (drop k L)) ([], 0, 0) = (es, si, st)" by (metis prod_cases3)
    have "covered li (map data (drop k L))"
      using cov by (auto simp: covered_def list_all_iff dest: in_set_dropD)
    from replay_covered [OF this _ r] have "filter (\<lambda>e. li < le_index e) es = []"
      by (intro none) simp
    moreover from replay_covered [OF cov _ L(2)] have "filter (\<lambda>e. li < le_index e) (rl_entries l) = []"
      by (intro none) simp
    ultimately show ?thesis
      using m r by (intro exI [of _ w'] exI [of _ s'] exI [of _ "drop k L @ [?e]"])
        (simp add: replay_snoc replay_snapshot_record)
  qed
qed

text \<open>Dropping a prefix of the entries and filtering by index are the same on a well-formed log.\<close>

lemma log_wf_filter:
  assumes "log_wf l" and "rl_snapshot_index l < li"
  shows "filter (\<lambda>e. li < le_index e) (rl_entries l) = drop (unat li - unat (rl_snapshot_index l)) (rl_entries l)"
proof -
  let ?s = "unat (rl_snapshot_index l)"
  have idx: "unat (le_index (rl_entries l ! j)) = ?s + 1 + j" if "j < length (rl_entries l)" for j
    using assms that by (simp add: log_wf_def)
  have "filter (\<lambda>e. li < le_index e) (rl_entries l) =
      filter (\<lambda>e. li < le_index e) (take (unat li - ?s) (rl_entries l)) @
      filter (\<lambda>e. li < le_index e) (drop (unat li - ?s) (rl_entries l))"
    by (metis append_take_drop_id filter_append)
  moreover have "filter (\<lambda>e. li < le_index e) (take (unat li - ?s) (rl_entries l)) = []"
    using idx assms(2) by (auto simp: filter_empty_conv in_set_conv_nth u64_less_iff)
  moreover have "filter (\<lambda>e. li < le_index e) (drop (unat li - ?s) (rl_entries l)) = drop (unat li - ?s) (rl_entries l)"
    using idx assms(2) by (auto simp: filter_id_conv in_set_conv_nth u64_less_iff)
  ultimately show ?thesis by simp
qed

lemma log_wf_after_snapshot:
  assumes "log_wf l" and "rl_snapshot_index l < li" and "unat li + 1 < 2 ^ 64"
  shows "log_wf (l\<lparr>rl_wal := w, rl_entries := filter (\<lambda>e. li < le_index e) (rl_entries l),
    rl_snapshot_index := li, rl_snapshot_term := lt\<rparr>)"
  using assms unfolding log_wf_filter [OF assms(1,2)]
  by (auto simp: log_wf_def u64_less_iff)

text \<open>The two operations run the WAL calls and then leave the same log.\<close>

definition snapshotted :: "u64 \<Rightarrow> u64 \<Rightarrow> wal \<Rightarrow> raft_log \<Rightarrow> raft_log" where
  "snapshotted li lt w l = l\<lparr>rl_wal := w, rl_entries := filter (\<lambda>e. li < le_index e) (rl_entries l),
    rl_snapshot_index := li, rl_snapshot_term := lt\<rparr>"

lemma mark_steps:
  assumes "wal_log.mark crc d (w, s) = (Ok (), (w', s'))"
  obtains q w1 s1 w2 s2 where "wal_append crc d (w, s) = (Ok q, (w1, s1))"
    "wal_checkpoint q (w1, s1) = (Ok (), (w2, s2))" "wal_truncate_before crc q (w2, s2) = (Ok (), (w', s'))"
  using assms by (auto simp: wal_log.mark_def and_then_Ok_iff)

lemma install_snapshot_run:
  assumes "rl_snapshot_index l < li"
    and "wal_log.mark crc (encode_snapshot li lt) (rl_wal l, s) = (Ok (), (w', s'))"
  shows "install_snapshot crc li lt (l, s) = (Ok (), (snapshotted li lt w' l, s'))"
proof -
  from mark_steps [OF assms(2)] show ?thesis
    using assms(1) by (cases, simp) (simp add: install_snapshot_def on_wal_def on_field_def snapshotted_def)
qed

lemma compact_run:
  assumes "log_wf l" and "rl_snapshot_index l < li"
    and "wal_log.mark crc (encode_snapshot li lt) (rl_wal l, s) = (Ok (), (w', s'))"
  shows "compact crc li lt (l, s) = (Ok (), (snapshotted li lt w' l, s'))"
proof -
  let ?t = "unat (min li (last_index l) - rl_snapshot_index l)"
  have le: "rl_snapshot_index l \<le> min li (last_index l)"
    using assms(2) log_wf_last_index [OF assms(1)] by (simp add: u64_order)
  have "?t = min (unat li) (unat (last_index l)) - unat (rl_snapshot_index l)"
    using unat_sub_le [OF le] by (simp add: min_def u64_le_iff)
  then have "(if length (rl_entries l) \<le> ?t then [] else drop ?t (rl_entries l)) =
      filter (\<lambda>e. li < le_index e) (rl_entries l)"
    using log_wf_filter [OF assms(1,2)] log_wf_last_index [OF assms(1)] by auto
  moreover obtain q w1 s1 w2 s2 where "wal_append crc (encode_snapshot li lt) (rl_wal l, s) = (Ok q, (w1, s1))"
    "wal_checkpoint q (w1, s1) = (Ok (), (w2, s2))" "wal_truncate_before crc q (w2, s2) = (Ok (), (w', s'))"
    using mark_steps [OF assms(3)] by blast
  moreover have "last_index (l\<lparr>rl_wal := w'\<rparr>) = last_index l"
    by (simp add: last_index_def)
  ultimately show ?thesis
    using assms(2) by (cases "length (rl_entries l) \<le> ?t")
      (simp_all add: compact_def on_wal_def on_field_def snapshotted_def Let_def)
qed

lemma snapshotted_rep:
  assumes rep: "raft_log_rep crc l s" and lt: "rl_snapshot_index l < li" "unat li + 1 < 2 ^ 64"
    and w: "wal_holds crc w' s' L'" "L' \<noteq> []"
      "replay (map data L') ([], 0, 0) = (filter (\<lambda>e. li < le_index e) (rl_entries l), li, lt)"
  shows "raft_log_rep crc (snapshotted li lt w' l) s'"
  using rep w log_wf_after_snapshot [OF _ lt]
  by (auto simp: raft_log_rep_def snapshotted_def)

lemma compact_rep:
  assumes rep: "raft_log_rep crc l s" and room: "wal_room (rl_wal l) (encode_snapshot li lt)"
    and lt: "rl_snapshot_index l < li" "unat li + 1 < 2 ^ 64"
    and safe: "one_segment (rl_wal l) (encode_snapshot li lt) \<or>
      (\<exists>L. wal_read_from crc (rl_wal l) 1 s = (Ok L, s) \<and> covered li (map data L))"
  shows "\<exists>w' s'. compact crc li lt (l, s) = (Ok (), (snapshotted li lt w' l, s')) \<and>
    install_snapshot crc li lt (l, s) = (Ok (), (snapshotted li lt w' l, s')) \<and>
    raft_log_rep crc (snapshotted li lt w' l) s' \<and> w_config w' = rl_config l"
proof -
  have wf: "log_wf l" using rep by (simp add: raft_log_rep_def)
  obtain w' s' L' where "wal_log.mark crc (encode_snapshot li lt) (rl_wal l, s) = (Ok (), (w', s'))"
    and "w_config w' = rl_config l" "wal_holds crc w' s' L'" "L' \<noteq> []"
    "replay (map data L') ([], 0, 0) = (filter (\<lambda>e. li < le_index e) (rl_entries l), li, lt)"
    using mark_replay [OF rep room safe] by blast
  then show ?thesis
    using compact_run [OF wf lt(1)] install_snapshot_run [OF lt(1)] snapshotted_rep [OF rep lt] by blast
qed

end
