(* ===== verification/Confinement.thy ===== *)
theory Confinement
  imports Outcome Raft_Log
begin

text \<open>
  Whatever I/O call fails and wherever a write is cut short, the log touches only the files of its
  directory. So the vote and the snapshot, which lie next to that directory, cannot be changed by it.
\<close>

section \<open>The WAL\<close>

definition in_dir :: "path \<Rightarrow> wal \<Rightarrow> bool" where
  "in_dir d w \<longleftrightarrow> w_dir w = d \<and> butlast (seg_path (w_active w)) = d \<and> butlast (cp_path (w_checkpoint w)) = d"

definition wal_step :: "path \<Rightarrow> fs \<Rightarrow> wal \<times> fs \<Rightarrow> bool" where
  "wal_step d s0 = (\<lambda>(w, s). in_dir d w \<and> fs_step d s0 s)"

definition seg_step :: "path \<Rightarrow> fs \<Rightarrow> segment \<times> fs \<Rightarrow> bool" where
  "seg_step d s0 = (\<lambda>(g, s). butlast (seg_path g) = d \<and> fs_step d s0 s)"

lemma wal_step_simp [simp]: "wal_step d s0 (w, s) \<longleftrightarrow> in_dir d w \<and> fs_step d s0 s"
  by (simp add: wal_step_def)

lemma seg_step_simp [simp]: "seg_step d s0 (g, s) \<longleftrightarrow> butlast (seg_path g) = d \<and> fs_step d s0 s"
  by (simp add: seg_step_def)

named_theorems steps \<open>operations confined to one directory\<close>

lemma on_writer_step:
  assumes "outcome (\<lambda>(b, s). fs_step d s0 s) (\<lambda>_. True) (m (seg_writer g, s))" and "butlast (seg_path g) = d"
  shows "outcome (seg_step d s0) (\<lambda>_. True) (on_writer m (g, s))"
  unfolding on_writer_def outcome_map_err
  by (rule outcome_on_field) (use assms in \<open>auto elim: outcome_mono\<close>)

lemma segment_append_step [steps]:
  "seg_step d s0 gs \<Longrightarrow> outcome (seg_step d s0) (\<lambda>_. True) (segment_append enc gs)"
  by (cases gs)
    (auto simp: segment_append_def Let_def intro!: outcome_and_then [where Q = "\<lambda>_. True"] on_writer_step bufwriter_write_all_step)

lemma segment_flush_step [steps]:
  "seg_step d s0 gs \<Longrightarrow> outcome (seg_step d s0) (\<lambda>_. True) (segment_flush gs)"
  by (cases gs) (auto simp: segment_flush_def intro!: on_writer_step bufwriter_flush_step)

lemma segment_sync_step [steps]:
  "seg_step d s0 gs \<Longrightarrow> outcome (seg_step d s0) (\<lambda>_. True) (segment_sync gs)"
  by (cases gs)
    (auto simp: segment_sync_def intro!: outcome_and_then [where Q = "\<lambda>_. True"] on_writer_step bufwriter_flush_step outcome_io
      outcome_fs_keep outcome_fs fs_steps)

lemma segment_create_step [steps]:
  assumes "fs_step d s0 s"
  shows "outcome (fs_step d s0) (\<lambda>g. butlast (seg_path g) = d) (segment_create d i m s)"
  unfolding segment_create_def Let_def
  by (rule outcome_and_then [where Q = "\<lambda>_. True"])
    (auto intro!: outcome_fs fs_steps assms)

lemma on_active_step:
  assumes "\<And>gs. seg_step d s0 gs \<Longrightarrow> outcome (seg_step d s0) (\<lambda>_. True) (m gs)" and "wal_step d s0 ws"
  shows "outcome (wal_step d s0) (\<lambda>_. True) (on_active m ws)"
proof (cases ws)
  case (Pair w s)
  have "outcome (seg_step d s0) (\<lambda>_. True) (m (w_active w, s))"
    using assms Pair by (simp add: in_dir_def)
  then have "outcome (\<lambda>(g, s). wal_step d s0 (w\<lparr>w_active := g\<rparr>, s)) (\<lambda>_. True) (m (w_active w, s))"
    by (rule outcome_mono) (use assms(2) Pair in \<open>auto simp: in_dir_def\<close>)
  then show ?thesis
    unfolding Pair on_active_def by (rule outcome_on_field)
qed

lemma wal_rotate_step [steps]:
  assumes "wal_step d s0 ws"
  shows "outcome (wal_step d s0) (\<lambda>_. True) (wal_rotate ws)"
  unfolding wal_rotate_def
proof (rule outcome_and_then [where Q = "\<lambda>_. True"], goal_cases)
  case 1
  show ?case by (rule on_active_step [OF _ assms]) (rule segment_sync_step)
next
  case (2 v ws')
  obtain w s where ws: "ws' = (w, s)" by fastforce
  have dir: "w_dir w = d" using 2 ws by (simp add: in_dir_def)
  have "outcome (\<lambda>s. in_dir d w \<and> fs_step d s0 s) (\<lambda>g. butlast (seg_path g) = d)
      (segment_create d (seg_id (w_active w) + 1) (wc_max_segment_bytes (w_config w)) s)"
    by (rule outcome_mono [OF segment_create_step [of d s0 s]]) (use 2 ws in auto)
  then show ?case
    unfolding ws
    by (auto simp: dir Let_def in_dir_def intro!: outcome_and_then [where Q = "\<lambda>g. butlast (seg_path g) = d"] outcome_io)
qed

lemma wal_append_step [steps]:
  assumes "wal_step d s0 ws"
  shows "outcome (wal_step d s0) (\<lambda>_. True) (wal_append crc dat ws)"
  using assms
  by (cases ws)
    (auto simp: wal_append_def Let_def in_dir_def intro!: outcome_and_then [where Q = "\<lambda>_. True"] wal_rotate_step on_active_step steps)

lemma write_rename_step:
  "butlast tmp = d \<Longrightarrow> butlast p = d \<Longrightarrow> fs_step d s (snd (write_rename tmp p bs s))"
  unfolding write_rename_def by (rule fs_step_and_then) (simp_all add: fs_steps)

lemma butlast_with_extension [simp]: "butlast (with_extension p x) = butlast p"
  by (simp add: with_extension_def)

lemma wal_checkpoint_step [steps]:
  assumes "wal_step d s0 ws"
  shows "outcome (wal_step d s0) (\<lambda>_. True) (wal_checkpoint q ws)"
proof (cases ws)
  case (Pair w s)
  have "outcome (\<lambda>(c, s). butlast (cp_path c) = d \<and> fs_step d s0 s) (\<lambda>_. True) (checkpoint_advance q (w_checkpoint w, s))"
    using assms Pair
    by (auto simp: checkpoint_advance_def checkpoint_persist_def in_dir_def
        intro!: outcome_and_then [where Q = "\<lambda>_. True"] outcome_io outcome_fs_keep write_rename_step)
  then have "outcome (\<lambda>(c, s). wal_step d s0 (w\<lparr>w_checkpoint := c\<rparr>, s)) (\<lambda>_. True) (checkpoint_advance q (w_checkpoint w, s))"
    by (rule outcome_mono) (use assms Pair in \<open>auto simp: in_dir_def\<close>)
  then show ?thesis
    unfolding Pair wal_checkpoint_def by (rule outcome_on_field)
qed

lemma truncate_loop_step: "fs_step d s (snd (truncate_loop crc d q sids s))"
proof (induction sids arbitrary: s)
  case (Cons sid sids)
  show ?case
    by (auto simp: Let_def read_entries_def intro!: fs_step_and_then Cons.IH fs_steps)
qed simp

lemma wal_truncate_step [steps]:
  assumes "wal_step d s0 ws"
  shows "outcome (wal_step d s0) (\<lambda>_. True) (wal_truncate_before crc q ws)"
  using assms
  by (cases ws)
    (auto simp: wal_truncate_before_def in_dir_def
      intro!: outcome_and_then [where Q = "\<lambda>_. True"] outcome_io outcome_fs_keep outcome_fs truncate_loop_step)

section \<open>The replicated log\<close>

definition log_step :: "path \<Rightarrow> fs \<Rightarrow> raft_log \<times> fs \<Rightarrow> bool" where
  "log_step d s0 = (\<lambda>(l, s). in_dir d (rl_wal l) \<and> fs_step d s0 s)"

lemma log_step_simp [simp]: "log_step d s0 (l, s) \<longleftrightarrow> in_dir d (rl_wal l) \<and> fs_step d s0 s"
  by (simp add: log_step_def)

lemma on_wal_step:
  assumes "\<And>ws. wal_step d s0 ws \<Longrightarrow> outcome (wal_step d s0) (\<lambda>_. True) (m ws)" and "log_step d s0 ls"
  shows "outcome (log_step d s0) (\<lambda>_. True) (on_wal m ls)"
proof (cases ls)
  case (Pair l s)
  have "outcome (wal_step d s0) (\<lambda>_. True) (m (rl_wal l, s))"
    using assms Pair by simp
  then have "outcome (\<lambda>(w, s). log_step d s0 (l\<lparr>rl_wal := w\<rparr>, s)) (\<lambda>_. True) (m (rl_wal l, s))"
    by (rule outcome_mono) auto
  then show ?thesis
    unfolding Pair on_wal_def outcome_map_err by (rule outcome_on_field)
qed

lemma raft_log_append_step [steps]:
  "log_step d s0 ls \<Longrightarrow> outcome (log_step d s0) (\<lambda>_. True) (raft_log_append crc t dat ls)"
  by (cases ls) (auto simp: raft_log_append_def Let_def intro!: outcome_and_then [where Q = "\<lambda>_. True"] on_wal_step steps)

lemma truncate_from_step [steps]:
  "log_step d s0 ls \<Longrightarrow> outcome (log_step d s0) (\<lambda>_. True) (truncate_from crc i ls)"
  by (cases ls) (auto simp: truncate_from_def Let_def intro!: outcome_and_then [where Q = "\<lambda>_. True"] on_wal_step steps)

lemma compact_step [steps]:
  "log_step d s0 ls \<Longrightarrow> outcome (log_step d s0) (\<lambda>_. True) (compact crc li lt ls)"
  by (cases ls)
    (auto simp: compact_def Let_def intro!: outcome_and_then [where Q = "\<lambda>_. True" and P = "log_step d s0"] on_wal_step steps)

lemma install_snapshot_step [steps]:
  "log_step d s0 ls \<Longrightarrow> outcome (log_step d s0) (\<lambda>_. True) (install_snapshot crc li lt ls)"
  by (cases ls)
    (auto simp: install_snapshot_def Let_def intro!: outcome_and_then [where Q = "\<lambda>_. True" and P = "log_step d s0"] on_wal_step steps)

end
