(* ===== verification/Log_Frame.thy ===== *)
theory Log_Frame
  imports Raft_Log_Rep Confinement
begin

text \<open>
  What an operation of the log leaves alone, on a file system without faults: it touches only the
  files of its own directory (\<open>same_outside\<close>), and a change outside of the directory leaves the
  log as it is. \<open>wal_budget\<close> and \<open>log_budget\<close> say that there is room for a number of records, so
  that a handler that writes several can be followed.
\<close>

section \<open>Frames\<close>

lemma wal_holds_in_dir: "wal_holds crc w s L \<Longrightarrow> in_dir (w_dir w) w"
  by (auto simp: wal_holds_def wal_rep_def in_dir_def active_ok_def checkpoint_in_def)

lemma same_outside_run:
  assumes "outcome (wal_step d s) (\<lambda>_. True) (r, (w', s'))"
  shows "same_outside d s s'"
  using assms by (auto simp: outcome_def fs_step_def)

lemma wal_append_run:
  assumes "wal_holds crc w s L" and "wal_room w d" and "wal_append crc d (w, s) = (r, (w', s'))"
  shows "same_outside (w_dir w) s s' \<and> (seg_id (w_active w') = seg_id (w_active w) \<or>
    seg_id (w_active w') = seg_id (w_active w) + 1)"
proof
  show "same_outside (w_dir w) s s'"
    using wal_append_step [of "w_dir w" s "(w, s)" crc d] wal_holds_in_dir [OF assms(1)] assms(3)
    by (auto intro: same_outside_run)
  obtain sealed act where rep: "wal_rep crc w s sealed act"
    using assms(1) by (auto simp: wal_holds_def)
  show "seg_id (w_active w') = seg_id (w_active w) \<or> seg_id (w_active w') = seg_id (w_active w) + 1"
    using wal_append_rep [OF rep assms(2)] assms(3)
    by (auto simp: rotated_def new_segment_def split: if_splits)
qed

lemma wal_truncate_run:
  assumes "in_dir (w_dir w) w" and "wal_truncate_before crc q (w, s) = (r, (w', s'))"
  shows "same_outside (w_dir w) s s' \<and> w_active w' = w_active w"
proof
  show "same_outside (w_dir w) s s'"
    using wal_truncate_step [of "w_dir w" s "(w, s)" crc q] assms by (auto intro: same_outside_run)
  show "w_active w' = w_active w"
    using assms(2) by (cases "truncate_loop crc (w_dir w) q (w_sealed w) s" rule: prod.exhaust;
        cases "fst (truncate_loop crc (w_dir w) q (w_sealed w) s)")
      (auto simp: wal_truncate_before_def io_def)
qed

lemma wal_checkpoint_run:
  assumes "in_dir (w_dir w) w" and "wal_checkpoint q (w, s) = (r, (w', s'))"
  shows "same_outside (w_dir w) s s' \<and> w_active w' = w_active w"
proof
  show "same_outside (w_dir w) s s'"
    using wal_checkpoint_step [of "w_dir w" s "(w, s)" q] assms by (auto intro: same_outside_run)
  show "w_active w' = w_active w"
    using assms(2) by (auto simp: wal_checkpoint_def on_field_def split: prod.splits)
qed

lemma wal_checkpoint_config:
  "wal_checkpoint q (w, s) = (r, (w', s')) \<Longrightarrow> w_config w' = w_config w \<and> w_next_sequence w' = w_next_sequence w"
  by (auto simp: wal_checkpoint_def on_field_def split: prod.splits)

text \<open>The three calls of \<open>mark\<close>.\<close>

lemma wal_mark_run:
  assumes h: "wal_holds crc w s L" and room: "wal_room w d" and run: "wal_log.mark crc d (w, s) = (Ok (), (w', s'))"
  shows "same_outside (w_dir w) s s' \<and> (seg_id (w_active w') = seg_id (w_active w) \<or>
    seg_id (w_active w') = seg_id (w_active w) + 1)"
proof -
  from mark_steps [OF run] obtain q w1 s1 w2 s2 where
    st: "wal_append crc d (w, s) = (Ok q, (w1, s1))" "wal_checkpoint q (w1, s1) = (Ok (), (w2, s2))"
      "wal_truncate_before crc q (w2, s2) = (Ok (), (w', s'))" by blast
  obtain L1 where h1: "wal_holds crc w1 s1 L1" "w_config w1 = w_config w"
    using wal_append_holds [OF h room] st(1) by auto
  have h2: "w_config w2 = w_config w1"
    using wal_checkpoint_config [OF st(2)] by auto
  have i1: "in_dir (w_dir w1) w1" by (rule wal_holds_in_dir [OF h1(1)])
  have "wal_step (w_dir w1) s1 (w2, s2)"
    using wal_checkpoint_step [of "w_dir w1" s1 "(w1, s1)" q] i1 st(2) by (simp add: outcome_def)
  then have i2: "in_dir (w_dir w2) w2" by (simp add: h2)
  note r1 = wal_append_run [OF h room st(1)] and r2 = wal_checkpoint_run [OF i1 st(2)]
    and r3 = wal_truncate_run [OF i2 st(3)]
  show ?thesis
    using r1 r2 r3 h1(2) h2 same_outside_trans by metis
qed

section \<open>Room for several records\<close>

definition wal_budget :: "wal \<Rightarrow> nat \<Rightarrow> nat \<Rightarrow> bool" where
  "wal_budget w k m \<longleftrightarrow>
     m < 2 ^ 32 \<and> HEADER_SIZE + m \<le> unat (wc_max_segment_bytes (w_config w)) \<and>
     unat (w_next_sequence w) + k < 2 ^ 64 \<and> unat (seg_id (w_active w)) + k < 2 ^ 64"

lemma wal_budget_room: "wal_budget w (Suc k) m \<Longrightarrow> length d \<le> m \<Longrightarrow> wal_room w d"
  by (simp add: wal_budget_def wal_room_def)

lemma wal_budget_append:
  assumes "wal_holds crc w s L" and "wal_budget w (Suc k) m" and "length d \<le> m"
    and "wal_append crc d (w, s) = (r, (w', s'))"
  shows "wal_budget w' k m"
proof -
  note room = wal_budget_room [OF assms(2,3)]
  have "w_next_sequence w' = w_next_sequence w + 1" "w_config w' = w_config w"
    using wal_append_holds [OF assms(1) room] assms(4) by auto
  with wal_append_run [OF assms(1) room assms(4)] assms(2) show ?thesis
    by (auto simp: wal_budget_def u64_arith)
qed

section \<open>A change elsewhere leaves the log\<close>

lemma wal_holds_frame:
  assumes "wal_holds crc w s L" and "healthy s'" and "wf_fs s'"
    and "\<And>p. butlast p = w_dir w \<Longrightarrow> fs_content s' p = fs_content s p"
  shows "wal_holds crc w s' L"
proof -
  obtain sealed act where rep: "wal_rep crc w s sealed act" and L: "L = concat (map snd sealed) @ act"
    using assms(1) by (auto simp: wal_holds_def)
  have seg: "fs_content s' (segment_path (w_dir w) i) = fs_content s (segment_path (w_dir w) i)" for i
    by (rule assms(4)) simp
  have cp: "fs_content s' (path_join (w_dir w) CHECKPOINT_FILE) = fs_content s (path_join (w_dir w) CHECKPOINT_FILE)"
    by (rule assms(4)) simp
  have "dir_exact (w_dir w) (map fst sealed @ [seg_id (w_active w)]) s'"
    using rep assms(4) unfolding wal_rep_def dir_exact_def by metis
  with rep have "wal_rep crc w s' sealed act"
    using assms(2,3) checkpoint_in_frame [OF cp, of "w_checkpoint w"]
    by (simp add: wal_rep_def seg_files_def seg)
  with L show ?thesis by (auto simp: wal_holds_def)
qed

section \<open>The replicated log\<close>

abbreviation rl_dir :: "raft_log \<Rightarrow> path" where
  "rl_dir l \<equiv> w_dir (rl_wal l)"

definition log_budget :: "raft_log \<Rightarrow> nat \<Rightarrow> nat \<Rightarrow> bool" where
  "log_budget l k m \<longleftrightarrow> 17 \<le> m \<and> wal_budget (rl_wal l) k m \<and> unat (last_index l) + k + 1 < 2 ^ 64"

lemma length_encode_append [simp]: "length (encode_append e) = 17 + length (le_data e)"
  by (simp add: encode_append_def)

lemma length_encode_truncate [simp]: "length (encode_truncate i) = 9"
  by (simp add: encode_truncate_def)

lemma length_encode_snapshot [simp]: "length (encode_snapshot i t) = 17"
  by (simp add: encode_snapshot_def)

lemma raft_log_rep_frame:
  assumes "raft_log_rep crc l s" and "healthy s'" and "wf_fs s'"
    and "\<And>p. butlast p = rl_dir l \<Longrightarrow> fs_content s' p = fs_content s p"
  shows "raft_log_rep crc l s'"
  using assms wal_holds_frame [OF _ assms(2,3,4)] unfolding raft_log_rep_def by blast

lemma raft_log_rep_healthy: "raft_log_rep crc l s \<Longrightarrow> healthy s \<and> wf_fs s \<and> log_wf l"
  using wal_holds_facts by (auto simp: raft_log_rep_def)

lemma log_append_step:
  assumes rep: "raft_log_rep crc l s" and b: "log_budget l (Suc k) m" and d: "17 + length d \<le> m"
  shows "\<exists>l' s'. raft_log_append crc t d (l, s) = (Ok (last_index l + 1), (l', s')) \<and> raft_log_rep crc l' s' \<and>
    rl_entries l' = rl_entries l @ [\<lparr>le_term = t, le_index = last_index l + 1, le_data = d\<rparr>] \<and>
    rl_snapshot_index l' = rl_snapshot_index l \<and> rl_snapshot_term l' = rl_snapshot_term l \<and> rl_config l' = rl_config l \<and>
    log_budget l' k m \<and> same_outside (rl_dir l) s s'"
proof -
  let ?e = "\<lparr>le_term = t, le_index = last_index l + 1, le_data = d\<rparr>"
  have wb: "wal_budget (rl_wal l) (Suc k) m" and len: "length (encode_append ?e) \<le> m"
    using b d by (simp_all add: log_budget_def)
  note room = wal_budget_room [OF wb len]
  obtain l' s' where run: "raft_log_append crc t d (l, s) = (Ok (last_index l + 1), (l', s'))"
    and post: "raft_log_rep crc l' s'" "rl_entries l' = rl_entries l @ [?e]"
      "rl_snapshot_index l' = rl_snapshot_index l" "rl_snapshot_term l' = rl_snapshot_term l" "rl_config l' = rl_config l"
    using raft_log_append_rep [OF rep room] b by (auto simp: log_budget_def)
  obtain L where L: "wal_holds crc (rl_wal l) s L" using rep by (auto simp: raft_log_rep_def)
  obtain rw where "wal_append crc (encode_append ?e) (rl_wal l, s) = (rw, (rl_wal l', s'))"
    using run by (cases "wal_append crc (encode_append ?e) (rl_wal l, s)" rule: prod.exhaust;
        cases "fst (wal_append crc (encode_append ?e) (rl_wal l, s))")
      (auto simp: raft_log_append_def Let_def on_wal_def on_field_def)
  note wal_budget_append [OF L wb len this] and wal_append_run [OF L room this]
  moreover have "unat (last_index l') = unat (last_index l) + 1"
    using post(1,2,3) rep by (simp add: raft_log_rep_def log_wf_last_index)
  ultimately show ?thesis
    using run post b by (intro exI [of _ l'] exI [of _ s']) (simp add: log_budget_def)
qed

lemma log_truncate_step:
  assumes rep: "raft_log_rep crc l s" and b: "log_budget l (Suc k) m"
    and range: "rl_snapshot_index l < i" "i \<le> last_index l"
  shows "\<exists>l' s'. truncate_from crc i (l, s) = (Ok (), (l', s')) \<and> raft_log_rep crc l' s' \<and>
    rl_entries l' = take (unat i - unat (rl_snapshot_index l) - 1) (rl_entries l) \<and>
    rl_snapshot_index l' = rl_snapshot_index l \<and> rl_snapshot_term l' = rl_snapshot_term l \<and> rl_config l' = rl_config l \<and>
    log_budget l' k m \<and> same_outside (rl_dir l) s s'"
proof -
  have wb: "wal_budget (rl_wal l) (Suc k) m" and len: "length (encode_truncate i) \<le> m"
    using b by (simp_all add: log_budget_def)
  note room = wal_budget_room [OF wb len]
  obtain l' s' where run: "truncate_from crc i (l, s) = (Ok (), (l', s'))"
    and post: "raft_log_rep crc l' s'" "rl_entries l' = take (unat i - unat (rl_snapshot_index l) - 1) (rl_entries l)"
      "rl_snapshot_index l' = rl_snapshot_index l" "rl_snapshot_term l' = rl_snapshot_term l" "rl_config l' = rl_config l"
    using truncate_from_rep [OF rep room range] by blast
  obtain L where L: "wal_holds crc (rl_wal l) s L" using rep by (auto simp: raft_log_rep_def)
  have "\<not> (i \<le> rl_snapshot_index l \<or> last_index l < i)" using range by (simp add: not_le not_less)
  then obtain rw where "wal_append crc (encode_truncate i) (rl_wal l, s) = (rw, (rl_wal l', s'))"
    using run by (cases "wal_append crc (encode_truncate i) (rl_wal l, s)" rule: prod.exhaust;
        cases "fst (wal_append crc (encode_truncate i) (rl_wal l, s))")
      (auto simp: truncate_from_def Let_def on_wal_def on_field_def)
  note wal_budget_append [OF L wb len this] and wal_append_run [OF L room this]
  moreover have "unat (last_index l') \<le> unat (last_index l)"
    using post(1,2,3) rep by (simp add: raft_log_rep_def log_wf_last_index)
  ultimately show ?thesis
    using run post b by (intro exI [of _ l'] exI [of _ s']) (simp add: log_budget_def)
qed

text \<open>Compaction, for either of the two operations that snapshot the log, where the records that
  the WAL drops are all covered by the snapshot.\<close>

definition snapshot_safe :: "(bytes \<Rightarrow> u32) \<Rightarrow> u64 \<Rightarrow> u64 \<Rightarrow> raft_log \<Rightarrow> fs \<Rightarrow> bool" where
  "snapshot_safe crc li lt l s \<longleftrightarrow>
     one_segment (rl_wal l) (encode_snapshot li lt) \<or>
     (case wal_read_from crc (rl_wal l) 1 s of (Ok L, _) \<Rightarrow> covered li (map data L) | _ \<Rightarrow> False)"

lemma log_snapshot_step:
  assumes rep: "raft_log_rep crc l s" and b: "log_budget l (Suc k) m"
    and lt: "rl_snapshot_index l < li" "unat li + 1 < 2 ^ 64" and safe: "snapshot_safe crc li lt l s"
  shows "\<exists>w' s'. compact crc li lt (l, s) = (Ok (), (snapshotted li lt w' l, s')) \<and>
    install_snapshot crc li lt (l, s) = (Ok (), (snapshotted li lt w' l, s')) \<and>
    raft_log_rep crc (snapshotted li lt w' l) s' \<and> w_config w' = rl_config l \<and> same_outside (rl_dir l) s s'"
proof -
  have wb: "wal_budget (rl_wal l) (Suc k) m" and len: "length (encode_snapshot li lt) \<le> m"
    using b by (simp_all add: log_budget_def)
  note room = wal_budget_room [OF wb len]
  obtain L where L: "wal_holds crc (rl_wal l) s L" using rep by (auto simp: raft_log_rep_def)
  have s': "one_segment (rl_wal l) (encode_snapshot li lt) \<or>
      (\<exists>L. wal_read_from crc (rl_wal l) 1 s = (Ok L, s) \<and> covered li (map data L))"
    using safe wal_log.read_all [OF L] by (auto simp: snapshot_safe_def)
  obtain w' s' L' where m: "wal_log.mark crc (encode_snapshot li lt) (rl_wal l, s) = (Ok (), (w', s'))"
    "w_config w' = rl_config l" "wal_holds crc w' s' L'" "L' \<noteq> []"
    "replay (map data L') ([], 0, 0) = (filter (\<lambda>e. li < le_index e) (rl_entries l), li, lt)"
    using mark_replay [OF rep room s'] by blast
  show ?thesis
    using compact_run [OF _ lt(1) m(1)] install_snapshot_run [OF lt(1) m(1)] snapshotted_rep [OF rep lt m(3,4,5)]
      m(2) wal_mark_run [OF L room m(1)] raft_log_rep_healthy [OF rep] by blast
qed

end
