(* ===== verification/Wal_Run.thy ===== *)
theory Wal_Run
  imports Wal_Spec Log_Frame
begin

text \<open>
  Whole runs of the WAL. \<open>wal_live\<close> adds to the relation with the abstract log that the active segment
  is empty only before the first append, which every operation keeps; then any list of operations for
  which there is room succeeds, and is a run of the abstract machine.
\<close>

section \<open>Runs\<close>

fun wal_run :: "(bytes \<Rightarrow> u32) \<Rightarrow> wal_op list \<Rightarrow> (wal, unit, wal_error) meth" where
  "wal_run crc [] ws = (Ok (), ws)"
| "wal_run crc (op # ops) ws = and_then (wal_do crc op ws) (\<lambda>_ ws. wal_run crc ops ws)"

inductive spec_run :: "wal_op list \<Rightarrow> log_spec \<Rightarrow> log_spec \<Rightarrow> bool" where
  none: "spec_run [] a a"
| step: "spec_step op a b \<Longrightarrow> spec_run ops b c \<Longrightarrow> spec_run (op # ops) a c"

inductive_cases spec_runE: "spec_run ops a b"

definition wal_live :: "(bytes \<Rightarrow> u32) \<Rightarrow> wal \<Rightarrow> fs \<Rightarrow> log_spec \<Rightarrow> bool" where
  "wal_live crc w s a \<longleftrightarrow> wal_abs crc w s a \<and> (seg_size (w_active w) = 0 \<longrightarrow> w_next_sequence w = 1)"

fun op_fits :: "nat \<Rightarrow> wal_op \<Rightarrow> bool" where
  "op_fits m (Append d) \<longleftrightarrow> length d \<le> m"
| "op_fits m _ \<longleftrightarrow> True"

section \<open>One step\<close>

lemma active_size_0: "active_ok crc cfg g act \<Longrightarrow> seg_size g = 0 \<longleftrightarrow> act = []"
proof -
  assume ok: "active_ok crc cfg g act"
  then have "unat (seg_size g) = length (encode_all crc act)"
    by (simp add: active_ok_def unat_of_nat)
  moreover have "encode_all crc act = [] \<longleftrightarrow> act = []"
    using entry_format.enc_not_Nil by (cases act) auto
  ultimately show ?thesis by (metis length_0_conv unat_eq_zero)
qed

lemma wal_live_reopen: "wal_live crc w s a \<Longrightarrow> op_ok Reopen w a"
proof -
  assume live: "wal_live crc w s a"
  then obtain sealed act where rep: "wal_rep crc w s sealed act" and L: "ls_entries a = concat (map snd sealed) @ act"
    by (auto simp: wal_live_def wal_abs_def wal_holds_def)
  have "active_ok crc (w_config w) (w_active w) act" using rep by (simp add: wal_rep_def)
  with active_size_0 [OF this] live L show ?thesis by (auto simp: wal_live_def wal_abs_def)
qed

lemma wal_append_size:
  assumes "wal_holds crc w s L" and "wal_room w d" and "wal_append crc d (w, s) = (r, (w', s'))"
  shows "seg_size (w_active w') \<noteq> 0"
proof -
  obtain sealed act where rep: "wal_rep crc w s sealed act" using assms(1) by (auto simp: wal_holds_def)
  have "\<exists>sealed' act' e. wal_rep crc w' s' sealed' (act' @ [e])"
    using wal_append_rep [OF rep assms(2)] assms(3) by (auto split: if_splits) (metis append_Nil)
  then obtain sealed' act' e where "active_ok crc (w_config w') (w_active w') (act' @ [e])"
    by (auto simp: wal_rep_def)
  from active_size_0 [OF this] show ?thesis by simp
qed

lemma wal_truncate_active: "wal_truncate_before crc q (w, s) = (r, (w', s')) \<Longrightarrow> w_active w' = w_active w \<and>
    w_next_sequence w' = w_next_sequence w \<and> w_config w' = w_config w"
  by (auto simp: wal_truncate_before_def io_def and_then_def split: res.splits prod.splits)

lemma wal_checkpoint_active:
  assumes "wal_checkpoint q (w, s) = (r, (w', s'))"
  shows "w_active w' = w_active w \<and> w_next_sequence w' = w_next_sequence w \<and> w_config w' = w_config w"
  using assms by (auto simp: wal_checkpoint_def on_field_def split: prod.splits)

lemma wal_live_step:
  assumes live: "wal_live crc w s a" and b: "wal_budget w (Suc k) m" and fits: "op_fits m op"
  shows "\<exists>w' s' a'. wal_do crc op (w, s) = (Ok (), (w', s')) \<and> spec_step op a a' \<and> wal_live crc w' s' a' \<and>
    wal_budget w' k m"
proof -
  have abs: "wal_abs crc w s a" using live by (simp add: wal_live_def)
  have ok: "op_ok op w a"
    using fits wal_budget_room [OF b] wal_live_reopen [OF live] by (cases op) auto
  obtain w' s' a' where r: "wal_do crc op (w, s) = (Ok (), (w', s'))" "spec_step op a a'" "wal_abs crc w' s' a'"
    using wal_do_simulates [OF abs ok] by blast
  have h: "wal_holds crc w s (ls_entries a)" using abs by (simp add: wal_abs_def)
  have b': "wal_budget w k m" using b by (simp add: wal_budget_def)
  have "(seg_size (w_active w') = 0 \<longrightarrow> w_next_sequence w' = 1) \<and> wal_budget w' k m"
  proof (cases op)
    case (Append d)
    then obtain q where run: "wal_append crc d (w, s) = (Ok q, (w', s'))"
      using r(1) by (auto simp: drop_value_def and_then_Ok_iff)
    have d: "length d \<le> m" using fits Append by simp
    from wal_append_size [OF h wal_budget_room [OF b d] run] wal_budget_append [OF h b d run] show ?thesis by simp
  next
    case (Checkpoint q)
    with r(1) wal_checkpoint_active live b' show ?thesis by (auto simp: wal_live_def wal_budget_def)
  next
    case (Truncate q)
    with r(1) wal_truncate_active live b' show ?thesis by (auto simp: wal_live_def wal_budget_def)
  next
    case Sync
    obtain s1 where "wal_sync (w, s) = (Ok (), (w, s1))" using wal_sync_holds [OF h] by blast
    with Sync r(1) live b' show ?thesis by (auto simp: wal_live_def)
  next
    case Reopen
    have "wal_open crc (w_config w) s = (Ok w, s)"
      using h ok Reopen abs by (intro wal_holds_reopen) (auto simp: wal_abs_def)
    with Reopen r(1) live b' show ?thesis by (auto simp: wal_live_def)
  qed
  with r show ?thesis by (auto simp: wal_live_def)
qed

lemma wal_run_live:
  assumes "wal_live crc w s a" and "wal_budget w (length ops) m" and "list_all (op_fits m) ops"
  shows "\<exists>w' s' a'. wal_run crc ops (w, s) = (Ok (), (w', s')) \<and> spec_run ops a a' \<and> wal_live crc w' s' a'"
  using assms
proof (induction ops arbitrary: w s a)
  case Nil
  then show ?case by (auto intro: spec_run.intros)
next
  case (Cons op ops)
  obtain w1 s1 a1 where step: "wal_do crc op (w, s) = (Ok (), (w1, s1))" "spec_step op a a1"
    "wal_live crc w1 s1 a1" "wal_budget w1 (length ops) m"
    using wal_live_step [OF Cons.prems(1)] Cons.prems(2,3) by fastforce
  obtain w' s' a' where "wal_run crc ops (w1, s1) = (Ok (), (w', s'))" "spec_run ops a1 a'" "wal_live crc w' s' a'"
    using Cons.IH [OF step(3,4)] Cons.prems(3) by auto
  with step show ?case by (auto intro: spec_run.intros)
qed

section \<open>Where a run starts\<close>

lemma wal_live_fresh:
  assumes "healthy s" and "wf_fs s" and "dir_exact (wc_dir cfg) [] s" and "unat (wc_max_segment_bytes cfg) < 2 ^ 63"
  shows "\<exists>w s'. wal_open crc cfg s = (Ok w, s') \<and> w_config w = cfg \<and> seg_id (w_active w) = 1 \<and>
    wal_live crc w s' \<lparr>ls_entries = [], ls_next = 1, ls_checkpoint = checkpoint_cell.stored (wc_dir cfg) s\<rparr>"
proof -
  obtain w s' where o: "wal_open crc cfg s = (Ok w, s')" "wal_rep crc w s' [] []" "w_config w = cfg"
    "w_next_sequence w = 1" "w_active w = new_segment cfg 1"
    "cp_sequence (w_checkpoint w) = checkpoint_cell.stored (wc_dir cfg) s"
    using wal_open_fresh [OF assms] by blast
  then have "wal_holds crc w s' []" by (auto simp: wal_holds_def)
  with o show ?thesis
    by (intro exI [of _ w] exI [of _ s']) (simp add: wal_live_def wal_abs_def new_segment_def)
qed

end
