(* ===== verification/Sample_Run.thy ===== *)
theory Sample_Run
  imports Wal_Run
begin

text \<open>
  Concrete settings on which the general theorems are applied and the code is run: a checksum that
  sums the bytes, an empty file system, and a WAL with small segments just opened in it.
\<close>

definition sum_crc :: "bytes \<Rightarrow> u32" where
  "sum_crc bs = of_nat (sum_list (map unat bs))"

definition empty_fs :: fs where
  "empty_fs = \<lparr>files = [], faults = []\<rparr>"

definition small_config :: wal_config where
  "small_config = \<lparr>wc_dir = [''d''], wc_max_segment_bytes = 100, wc_sync_writes = True\<rparr>"

text \<open>What a call returns, and the state it leaves.\<close>

fun returned :: "('a, 'e) res \<times> 's \<Rightarrow> ('a, 'e) res" where
  "returned (r, s) = r"

fun state_after :: "('a, 'e) res \<times> 's \<Rightarrow> 's" where
  "state_after (r, s) = s"

text \<open>The same state with a fault schedule, and after a loss of power.\<close>

fun faulty :: "fault list \<Rightarrow> 'x \<times> fs \<Rightarrow> 'x \<times> fs" where
  "faulty fl (x, s) = (x, s\<lparr>faults := fl\<rparr>)"

fun lose_power :: "'x \<times> fs \<Rightarrow> 'x \<times> fs" where
  "lose_power (x, s) = (x, power_loss s)"

definition small_wal :: wal where
  "small_wal = \<lparr>w_config = small_config,
     w_active = \<lparr>seg_id = 1, seg_path = [''d'', ''wal-00000000000000000001.seg''], seg_writer = [], seg_size = 0, seg_max_bytes = 100\<rparr>,
     w_sealed = [], w_checkpoint = \<lparr>cp_path = [''d'', ''checkpoint''], cp_sequence = 0\<rparr>, w_next_sequence = 1\<rparr>"

definition small_wal_fs :: fs where
  "small_wal_fs = \<lparr>files = [([''d'', ''wal-00000000000000000001.seg''], \<lparr>f_content = [], f_durable = []\<rparr>)], faults = []\<rparr>"

lemma small_wal_opened: "wal_open sum_crc small_config empty_fs = (Ok small_wal, small_wal_fs)"
  by code_simp

lemma empty_fs_simps [simp]: "healthy empty_fs" "wf_fs empty_fs" "dir_exact d ids empty_fs" "fs_content empty_fs p = None"
  by (simp_all add: empty_fs_def wf_fs_def dir_exact_def fs_content_def)

lemma small_config_simps [simp]:
  "wc_dir small_config = [''d'']" "wc_max_segment_bytes small_config = 100" "wc_sync_writes small_config"
  by (simp_all add: small_config_def)

lemma small_wal_simps [simp]:
  "w_config small_wal = small_config" "w_next_sequence small_wal = 1" "w_sealed small_wal = []"
  "seg_id (w_active small_wal) = 1" "seg_size (w_active small_wal) = 0" "seg_max_bytes (w_active small_wal) = 100"
  by (simp_all add: small_wal_def)

abbreviation fresh_spec :: log_spec where
  "fresh_spec \<equiv> \<lparr>ls_entries = [], ls_next = 1, ls_checkpoint = 0\<rparr>"

lemma small_wal_rep: "wal_rep sum_crc small_wal small_wal_fs [] []"
  using wal_open_fresh [of empty_fs small_config sum_crc] small_wal_opened by auto

lemma small_wal_live: "wal_live sum_crc small_wal small_wal_fs fresh_spec"
  using wal_live_fresh [of empty_fs small_config sum_crc] small_wal_opened
  by (auto simp: checkpoint_cell.stored_def checkpoint_parse_def)

lemma small_wal_synced: "wal_synced small_wal small_wal_fs"
  by (simp add: wal_synced_def small_wal_fs_def fs_durable_def fs_content_def)

lemma small_wal_budget: "k < 1000 \<Longrightarrow> m \<le> 80 \<Longrightarrow> wal_budget small_wal k m"
  by (simp add: wal_budget_def HEADER_SIZE_def)

lemma small_wal_room: "length d \<le> 80 \<Longrightarrow> wal_room small_wal d"
  by (simp add: wal_room_def HEADER_SIZE_def)

section \<open>A replicated log\<close>

definition small_log :: raft_log where
  "small_log = \<lparr>rl_entries = [], rl_wal = small_wal, rl_snapshot_index = 0, rl_snapshot_term = 0\<rparr>"

lemma small_log_opened: "raft_log_open sum_crc small_config empty_fs = (Ok small_log, small_wal_fs)"
  by code_simp

lemma small_log_simps [simp]:
  "rl_entries small_log = []" "rl_wal small_log = small_wal" "rl_snapshot_index small_log = 0" "last_index small_log = 0"
  by (simp_all add: small_log_def last_index_def)

lemma small_log_rep: "raft_log_rep sum_crc small_log small_wal_fs"
  using raft_log_open_fresh [of empty_fs small_config sum_crc] small_log_opened by auto

end
