(* ===== verification/Wal_Properties.thy ===== *)
theory Wal_Properties
  imports Sample_Run
begin

text \<open>
  What \<open>wal-core\<close> guarantees, each theorem with a witness on concrete input.
\<close>

section \<open>Entries and segments\<close>

text \<open>C19: decoding an entry succeeds exactly when the buffer starts with the encoding of an entry whose
  payload fits the 32-bit length field; the entry and the number of bytes consumed are then those of
  that encoding. Nothing else, at any offset, is accepted.\<close>

theorem entry_decode_iff:
  "entry_decode crc buf off = Ok (e, n) \<longleftrightarrow>
     (\<exists>rest. buf = entry_encode crc (sequence e) (data e) @ rest) \<and> n = HEADER_SIZE + length (data e) \<and> entry_fits e"
proof
  assume "entry_decode crc buf off = Ok (e, n)"
  from entry_decode_sound [OF this] show
    "(\<exists>rest. buf = encode_of crc e @ rest) \<and> n = HEADER_SIZE + length (data e) \<and> entry_fits e"
    by (metis append_take_drop_id)
next
  assume "(\<exists>rest. buf = encode_of crc e @ rest) \<and> n = HEADER_SIZE + length (data e) \<and> entry_fits e"
  then show "entry_decode crc buf off = Ok (e, n)"
    by (auto simp: entry_decode_encode entry_fits_def)
qed

text \<open>C34: a buffer that ends inside an entry is reported as \<open>UnexpectedEof\<close> at the offset of the entry, and
  a payload whose checksum differs from the stored one as \<open>ChecksumMismatch\<close> with both checksums.\<close>

theorem entry_decode_errors:
  assumes "length dat < 2 ^ 32"
  shows "(n < HEADER_SIZE + length dat \<longrightarrow> entry_decode crc (take n (entry_encode crc seq dat)) off = Err (UnexpectedEof off)) \<and>
    (length dat' = length dat \<and> crc dat' \<noteq> crc dat \<longrightarrow>
       entry_decode crc (take HEADER_SIZE (entry_encode crc seq dat) @ dat' @ rest) off =
         Err (ChecksumMismatch off (crc dat) (crc dat')))"
proof -
  have "take HEADER_SIZE (entry_encode crc seq dat) =
      u64_to_le_bytes seq @ u32_to_le_bytes (of_nat (length dat)) @ u32_to_le_bytes (crc dat)"
    by (simp add: entry_encode_def HEADER_SIZE_def Let_def)
  with entry_decode_truncated [OF assms] entry_decode_corrupt [OF assms, of dat'] show ?thesis by simp
qed

theorem entry_decode_errors_witness:
  "entry_decode sum_crc (take 17 (entry_encode sum_crc 7 [1, 2])) 40 = Err (UnexpectedEof 40) \<and>
   entry_decode sum_crc (take HEADER_SIZE (entry_encode sum_crc 7 [1, 2]) @ [1, 3] @ []) 40 = Err (ChecksumMismatch 40 3 4)"
  using entry_decode_errors [of "[1, 2]" 17 sum_crc 7 40 "[1, 3]" "[]"] by (simp add: sum_crc_def HEADER_SIZE_def)

text \<open>C20: reading a segment file returns a list of entries exactly when the file is the concatenation of
  their encodings: no byte is skipped and no entry is invented.\<close>

theorem read_segment_iff:
  "read_loop crc raw 0 = Ok es \<longleftrightarrow> raw = concat (map (\<lambda>e. entry_encode crc (sequence e) (data e)) es) \<and> list_all entry_fits es"
  using read_loop_iff [of crc raw es] by (simp add: entry_format.stream_def)




section \<open>The log\<close>

text \<open>C7: refinement of whole runs. From a WAL that represents an abstract log, every list of appends,
  checkpoints, truncations, syncs and reopenings for which there is room succeeds and is a run of the
  abstract machine: appends add one entry under the next number, truncation drops a prefix of entries
  below its bound, a checkpoint only moves forward, and reopening changes nothing.\<close>

theorem wal_run_refines:
  assumes "wal_live crc w s a" and "wal_budget w (length ops) m" and "list_all (op_fits m) ops"
  shows "\<exists>w' s' a'. wal_run crc ops (w, s) = (Ok (), (w', s')) \<and> spec_run ops a a' \<and> wal_live crc w' s' a'"
  by (rule wal_run_live [OF assms])

theorem wal_run_refines_witness:
  "\<exists>w' s' a'. wal_run sum_crc [Append [1], Checkpoint 1, Append [2, 3], Truncate 1, Reopen] (small_wal, small_wal_fs) = (Ok (), (w', s')) \<and>
     spec_run [Append [1], Checkpoint 1, Append [2, 3], Truncate 1, Reopen] fresh_spec a' \<and> wal_live sum_crc w' s' a'"
  by (rule wal_run_refines [OF small_wal_live, where m = 10]) (simp_all add: small_wal_budget)

text \<open>Opening a directory without segments creates the empty log: next number 1, and the checkpoint that
  the checkpoint file holds.\<close>

lemma wal_open_empty:
  assumes "healthy s" and "wf_fs s" and "dir_exact (wc_dir cfg) [] s" and "unat (wc_max_segment_bytes cfg) < 2 ^ 63"
  shows "\<exists>w s'. wal_open crc cfg s = (Ok w, s') \<and> w_config w = cfg \<and>
    wal_live crc w s' \<lparr>ls_entries = [], ls_next = 1, ls_checkpoint = checkpoint_cell.stored (wc_dir cfg) s\<rparr>"
  using wal_live_fresh [OF assms] by blast

lemma wal_open_empty_sample:
  "\<exists>w s'. wal_open sum_crc small_config empty_fs = (Ok w, s') \<and> w_config w = small_config \<and>
    wal_live sum_crc w s' \<lparr>ls_entries = [], ls_next = 1, ls_checkpoint = checkpoint_cell.stored [''d''] empty_fs\<rparr>"
  using wal_open_empty [of empty_fs small_config sum_crc] by simp

text \<open>C32: reading is a function of the abstract log: \<open>read_from(q)\<close> returns the entries numbered at least \<open>q\<close>,
  and \<open>recover\<close> those after the checkpoint, both in order and without touching the disk.\<close>

theorem wal_reads:
  assumes "wal_live crc w s a" and "unat (ls_checkpoint a) + 1 < 2 ^ 64"
  shows "wal_read_from crc w q s = (Ok (spec_read a q), s) \<and> wal_recover crc w s = (Ok (spec_recover a), s)"
  using assms wal_abs_read wal_abs_recover by (auto simp: wal_live_def)

theorem wal_reads_witness:
  "wal_read_from sum_crc small_wal 3 small_wal_fs = (Ok (spec_read fresh_spec 3), small_wal_fs) \<and>
   wal_recover sum_crc small_wal small_wal_fs = (Ok (spec_recover fresh_spec), small_wal_fs)"
  by (rule wal_reads [OF small_wal_live]) simp

text \<open>The numbers of the entries of a WAL are consecutive and end just below the next number.\<close>

lemma wal_numbers_consecutive:
  assumes "wal_live crc w s a"
  shows "map (\<lambda>e. unat (sequence e)) (ls_entries a) =
      [unat (w_next_sequence w) - length (ls_entries a) ..< unat (w_next_sequence w)] \<and>
    length (ls_entries a) < unat (w_next_sequence w)"
  using assms wal_holds_facts(2) by (auto simp: wal_live_def wal_abs_def numbered_def)

lemma wal_numbers_consecutive_sample:
  "map (\<lambda>e. unat (sequence e)) (ls_entries fresh_spec) = [unat (w_next_sequence small_wal) - length (ls_entries fresh_spec) ..< unat (w_next_sequence small_wal)] \<and>
   length (ls_entries fresh_spec) < unat (w_next_sequence small_wal)"
  by (rule wal_numbers_consecutive [OF small_wal_live])

text \<open>C28: truncating up to the checkpoint removes no entry that recovery replays.\<close>

theorem truncate_preserves_recovery:
  assumes live: "wal_live crc w s a" and q: "q \<le> ls_checkpoint a + 1" and c: "unat (ls_checkpoint a) + 1 < 2 ^ 64"
  shows "\<exists>w' s'. wal_truncate_before crc q (w, s) = (Ok (), (w', s')) \<and>
    wal_recover crc w' s' = (Ok (spec_recover a), s')"
proof -
  have abs: "wal_abs crc w s a" using live by (simp add: wal_live_def)
  obtain w' s' a' where r: "wal_do crc (Truncate q) (w, s) = (Ok (), (w', s'))" "spec_step (Truncate q) a a'"
    "wal_abs crc w' s' a'"
    using wal_do_simulates [OF abs, of "Truncate q"] by auto
  have "ls_checkpoint a' = ls_checkpoint a" using r(2) by (auto elim: spec_stepE)
  then have "wal_recover crc w' s' = (Ok (spec_recover a'), s')" by (intro wal_abs_recover [OF r(3)]) (use c in simp)
  with r truncate_keeps_recover [OF r(2) q c] show ?thesis by auto
qed

theorem truncate_preserves_recovery_witness:
  "\<exists>w' s'. wal_truncate_before sum_crc 1 (small_wal, small_wal_fs) = (Ok (), (w', s')) \<and>
    wal_recover sum_crc w' s' = (Ok (spec_recover fresh_spec), s')"
  by (rule truncate_preserves_recovery [OF small_wal_live]) simp_all

text \<open>C33: a record larger than a segment is refused with \<open>SegmentFull\<close>; the log and the next number stay.\<close>

theorem wal_append_too_large:
  assumes rep: "wal_rep crc w s sealed act" and "length d < 2 ^ 32"
    and "unat (wc_max_segment_bytes (w_config w)) < HEADER_SIZE + length d" and "unat (seg_id (w_active w)) + 1 < 2 ^ 64"
  shows "\<exists>w' s'. wal_append crc d (w, s) =
      (Err (SegmentFull 0 (wc_max_segment_bytes (w_config w)) (of_nat (HEADER_SIZE + length d))), (w', s')) \<and>
    wal_holds crc w' s' (concat (map snd sealed) @ act) \<and> w_next_sequence w' = w_next_sequence w"
proof -
  obtain w' s' where r: "wal_append crc d (w, s) =
      (Err (SegmentFull 0 (wc_max_segment_bytes (w_config w)) (of_nat (HEADER_SIZE + length d))), (w', s'))"
    "wal_rep crc w' s' (sealed @ [(seg_id (w_active w), act)]) []" "w_next_sequence w' = w_next_sequence w"
    using wal_append_oversize [OF assms] by blast
  then have "wal_holds crc w' s' (concat (map snd (sealed @ [(seg_id (w_active w), act)])) @ [])"
    unfolding wal_holds_def by blast
  with r show ?thesis by (intro exI [of _ w'] exI [of _ s']) simp
qed

theorem wal_append_too_large_witness:
  "\<exists>w' s'. wal_append sum_crc (replicate 90 0) (small_wal, small_wal_fs) =
      (Err (SegmentFull 0 100 106), (w', s')) \<and> wal_holds sum_crc w' s' [] \<and> w_next_sequence w' = 1"
  using wal_append_too_large [OF small_wal_rep, of "replicate 90 0"] by (simp add: HEADER_SIZE_def)

section \<open>Faults\<close>

text \<open>C8: crash atomicity of an append. Let any file-system call of the append fail, or any write stop after any
  number of bytes, and let the process die there. Reopening the directory then finds the old log, or the
  old log with the new entry (always, when the append had returned), or is refused with \<open>UnexpectedEof\<close>:
  it never succeeds with anything else, and nothing panics.\<close>

theorem wal_append_crash:
  assumes rep: "wal_rep crc w s sealed act" and room: "wal_room w d"
    and run: "wal_append crc d (w, s\<lparr>faults := fl\<rparr>) = (r, (w', s'))"
  shows "r \<noteq> Panic \<and>
    ((\<exists>w'' L. wal_open crc (w_config w) (s'\<lparr>faults := []\<rparr>) = (Ok w'', s'\<lparr>faults := []\<rparr>) \<and> wal_holds crc w'' (s'\<lparr>faults := []\<rparr>) L \<and>
        L \<in> {concat (map snd sealed) @ act, concat (map snd sealed) @ act @ [\<lparr>sequence = w_next_sequence w, data = d\<rparr>]} \<and>
        (is_ok r \<longrightarrow> L = concat (map snd sealed) @ act @ [\<lparr>sequence = w_next_sequence w, data = d\<rparr>])) \<or>
     \<not> is_ok r \<and> (\<exists>off. wal_open crc (w_config w) (s'\<lparr>faults := []\<rparr>) = (Err (UnexpectedEof off), s'\<lparr>faults := []\<rparr>)))"
  using append_crash_open [OF rep room run] by (simp split: if_splits) blast

theorem wal_append_crash_witness:
  "\<exists>r w' s'. wal_append sum_crc [1, 2] (small_wal, small_wal_fs\<lparr>faults := [Torn 5]\<rparr>) = (r, (w', s')) \<and> r \<noteq> Panic"
proof -
  obtain r w' s' where run: "wal_append sum_crc [1, 2] (small_wal, small_wal_fs\<lparr>faults := [Torn 5]\<rparr>) = (r, (w', s'))"
    by (metis surj_pair)
  have "wal_room small_wal [1, 2]" by (rule small_wal_room) simp
  from wal_append_crash [OF small_wal_rep this run] run show ?thesis by blast
qed






text \<open>C29: a checkpoint never goes back, in memory or in its file, whichever calls of the file system fail: it is
  raised on success and left as it was on failure, and the two always agree.\<close>

theorem checkpoint_monotone:
  assumes "checkpoint_in dir cp s" and "checkpoint_advance seq (cp, s) = (r, (cp', s'))"
  shows "checkpoint_in dir cp' s' \<and> r \<noteq> Panic \<and> cp_sequence cp \<le> cp_sequence cp' \<and>
    (is_ok r \<longrightarrow> cp_sequence cp' = max (cp_sequence cp) seq) \<and> (\<not> is_ok r \<longrightarrow> cp_sequence cp' = cp_sequence cp)"
  using checkpoint_advance_cases [OF assms] by auto

theorem checkpoint_monotone_witness:
  "\<exists>r cp' s'. checkpoint_advance 4 (\<lparr>cp_path = path_join [''d''] CHECKPOINT_FILE, cp_sequence = 0\<rparr>, empty_fs\<lparr>faults := [Pass, Refuse]\<rparr>) = (r, (cp', s')) \<and>
     checkpoint_in [''d''] cp' s'"
proof -
  have "checkpoint_in [''d''] \<lparr>cp_path = path_join [''d''] CHECKPOINT_FILE, cp_sequence = 0\<rparr> (empty_fs\<lparr>faults := [Pass, Refuse]\<rparr>)"
    by (simp add: checkpoint_in_def checkpoint_cell.stored_def checkpoint_parse_def)
  from checkpoint_monotone [OF this] show ?thesis by (metis surj_pair)
qed

lemma same_outside_outcome: "outcome (wal_step d s) Q m \<Longrightarrow> same_outside d s (snd (snd m))"
  by (cases m rule: prod.exhaust; cases "snd m") (auto simp: outcome_def fs_step_def)

text \<open>C36: the operations of a WAL change no file outside of its directory, whatever the file system does.\<close>

theorem wal_confined:
  assumes "in_dir d w" and p: "butlast p \<noteq> d"
  shows "fs_content (snd (snd (wal_append crc dat (w, s)))) p = fs_content s p \<and>
    fs_content (snd (snd (wal_checkpoint q (w, s)))) p = fs_content s p \<and>
    fs_content (snd (snd (wal_truncate_before crc q (w, s)))) p = fs_content s p"
proof -
  have st: "wal_step d s (w, s)" using assms(1) by simp
  have "same_outside d s (snd (snd (wal_append crc dat (w, s))))"
    and "same_outside d s (snd (snd (wal_checkpoint q (w, s))))"
    and "same_outside d s (snd (snd (wal_truncate_before crc q (w, s))))"
    by (rule same_outside_outcome, rule steps, rule st)+
  with p show ?thesis by (simp add: same_outside_def)
qed

theorem wal_confined_witness:
  "fs_content (snd (snd (wal_append sum_crc [1] (small_wal, small_wal_fs\<lparr>faults := [Torn 3]\<rparr>)))) [''e'', ''x''] = None"
proof -
  have "in_dir [''d''] small_wal" by (simp add: in_dir_def small_wal_def)
  from wal_confined [OF this, of "[''e'', ''x'']" sum_crc "[1]" "small_wal_fs\<lparr>faults := [Torn 3]\<rparr>"]
  show ?thesis by (simp add: small_wal_fs_def fs_content_def)
qed

end
