(* ===== verification/Snapshot.thy ===== *)
theory Snapshot
  imports Durable_Cell Raft_Log
begin

text \<open>
  \<open>wal-replication/src/raft/snapshot.rs\<close>: the snapshot file and the encoding of its payload.
\<close>

section \<open>The snapshot file\<close>

record snapshot =
  sn_last_included_index :: u64
  sn_last_included_term :: u64
  sn_data :: bytes

definition snapshot_path :: "path \<Rightarrow> path" where
  "snapshot_path dir = path_join dir ''snapshot''"

definition snapshot_bytes :: "snapshot \<Rightarrow> bytes" where
  "snapshot_bytes sn =
     u64_to_le_bytes (sn_last_included_index sn) @ u64_to_le_bytes (sn_last_included_term sn) @
     u32_to_le_bytes (of_nat (length (sn_data sn))) @ sn_data sn"

definition snapshot_save :: "path \<Rightarrow> snapshot \<Rightarrow> (unit, io_error) call" where
  "snapshot_save dir sn =
     write_sync_rename (path_join dir ''snapshot.tmp'') (snapshot_path dir) (snapshot_bytes sn)"

definition snapshot_parse :: "bytes \<Rightarrow> (snapshot option, io_error) res" where
  "snapshot_parse buf =
     (if length buf < 20 then Err (InvalidData ''snapshot file too short'')
      else
        let data_len = unat (u32_from_le_bytes (subslice 16 20 buf)) in
        if length buf < 20 + data_len then Err (InvalidData ''snapshot data truncated'')
        else Ok (Some \<lparr>sn_last_included_index = u64_from_le_bytes (subslice 0 8 buf),
                       sn_last_included_term = u64_from_le_bytes (subslice 8 16 buf),
                       sn_data = subslice 20 (20 + data_len) buf\<rparr>))"

definition snapshot_load :: "path \<Rightarrow> (snapshot option, io_error) call" where
  "snapshot_load dir s =
     (case fs_read (snapshot_path dir) s of
        (Err NotFound, s) \<Rightarrow> (Ok None, s)
      | (Err e, s) \<Rightarrow> (Err e, s)
      | (Ok buf, s) \<Rightarrow> (snapshot_parse buf, s)
      | (Panic, s) \<Rightarrow> (Panic, s))"

text \<open>What a reader without I/O errors makes of the file.\<close>

definition snapshot_view :: "bytes option \<Rightarrow> (snapshot option, io_error) res" where
  "snapshot_view c = (case c of None \<Rightarrow> Ok None | Some buf \<Rightarrow> snapshot_parse buf)"

definition snapshot_fits :: "snapshot \<Rightarrow> bool" where
  "snapshot_fits sn \<longleftrightarrow> length (sn_data sn) < 2 ^ 32"

lemma snapshot_parse_bytes: "snapshot_fits sn \<Longrightarrow> snapshot_parse (snapshot_bytes sn) = Ok (Some sn)"
  by (simp add: snapshot_parse_def snapshot_bytes_def snapshot_fits_def subslice_def Let_def unat_of_nat)

interpretation snapshot_cell: durable_cell
  "snapshot_save dir" snapshot_bytes snapshot_view "\<lambda>sn. Ok (Some sn)" snapshot_fits
  "path_join dir ''snapshot.tmp''" "snapshot_path dir" for dir
  unfolding snapshot_save_def
  by (rule write_sync_rename_durable_cell) (simp_all add: snapshot_path_def snapshot_view_def snapshot_parse_bytes)

lemma snapshot_load_healthy: "healthy s \<Longrightarrow> snapshot_load dir s = (snapshot_cell.stored dir s, s)"
  by (simp add: snapshot_load_def fs_healthy snapshot_cell.stored_def snapshot_view_def split: option.split)

section \<open>The payload\<close>

definition snap_entry_bytes :: "log_entry \<Rightarrow> bytes" where
  "snap_entry_bytes e =
     u64_to_le_bytes (le_index e) @ u64_to_le_bytes (le_term e) @
     u32_to_le_bytes (of_nat (length (le_data e))) @ le_data e"

definition encode_entries :: "log_entry list \<Rightarrow> bytes" where
  "encode_entries es = u32_to_le_bytes (of_nat (length es)) @ concat (map snap_entry_bytes es)"

text \<open>The \<open>for\<close> loop of \<open>decode_entries\<close>, with the position it has reached.\<close>

fun decode_entries_loop :: "bytes \<Rightarrow> nat \<Rightarrow> nat \<Rightarrow> log_entry list option" where
  "decode_entries_loop dat pos 0 = Some []"
| "decode_entries_loop dat pos (Suc todo) =
     (if length dat < pos + 20 then None
      else
        let index = u64_from_le_bytes (subslice pos (pos + 8) dat);
            t = u64_from_le_bytes (subslice (pos + 8) (pos + 16) dat);
            len = unat (u32_from_le_bytes (subslice (pos + 16) (pos + 20) dat));
            pos = pos + 20
        in if length dat < pos + len then None
           else
             (case decode_entries_loop dat (pos + len) todo of
                None \<Rightarrow> None
              | Some es \<Rightarrow>
                  Some (\<lparr>le_term = t, le_index = index, le_data = subslice pos (pos + len) dat\<rparr> # es)))"

definition decode_entries :: "bytes \<Rightarrow> log_entry list option" where
  "decode_entries dat =
     (if length dat < 4 then Some []
      else decode_entries_loop dat 4 (unat (u32_from_le_bytes (subslice 0 4 dat))))"

section \<open>Round trip of the payload\<close>

definition log_entry_fits :: "log_entry \<Rightarrow> bool" where
  "log_entry_fits e \<longleftrightarrow> length (le_data e) < 2 ^ 32"

text \<open>One step of the loop reads one value from the front of what is left.\<close>

definition snap_entry_dec :: "bytes \<Rightarrow> (log_entry \<times> nat) option" where
  "snap_entry_dec buf =
     (if length buf < 20 then None
      else
        let len = unat (u32_from_le_bytes (subslice 16 20 buf)) in
        if length buf < 20 + len then None
        else Some (\<lparr>le_term = u64_from_le_bytes (subslice 8 16 buf),
                    le_index = u64_from_le_bytes (subslice 0 8 buf),
                    le_data = subslice 20 (20 + len) buf\<rparr>, 20 + len))"

lemma length_snap_entry_bytes [simp]: "length (snap_entry_bytes e) = 20 + length (le_data e)"
  by (simp add: snap_entry_bytes_def)

lemma snap_entry_header:
  "subslice 0 8 (snap_entry_bytes e @ rest) = u64_to_le_bytes (le_index e)"
  "subslice 8 16 (snap_entry_bytes e @ rest) = u64_to_le_bytes (le_term e)"
  "subslice 16 20 (snap_entry_bytes e @ rest) = u32_to_le_bytes (of_nat (length (le_data e)))"
  "subslice 20 (20 + length (le_data e)) (snap_entry_bytes e @ rest) = le_data e"
  by (simp_all add: snap_entry_bytes_def subslice_def)

interpretation snap_entry_format: codec snap_entry_bytes snap_entry_dec log_entry_fits
proof (unfold_locales, goal_cases)
  case (1 e)
  have "length (snap_entry_bytes e) \<noteq> 0" by simp
  then show ?case by fastforce
next
  case (2 e rest)
  then show ?case
    using snap_entry_header [of e rest]
    by (simp add: snap_entry_dec_def Let_def log_entry_fits_def unat_of_nat)
next
  case (3 e n)
  show ?case
  proof (cases "n < 20")
    case True
    then show ?thesis by (simp add: snap_entry_dec_def)
  next
    case False
    then have "subslice 16 20 (take n (snap_entry_bytes e)) = u32_to_le_bytes (of_nat (length (le_data e)))"
      using snap_entry_header(3) [of e "[]"] by (simp add: subslice_take)
    with 3 False show ?thesis
      by (simp add: snap_entry_dec_def Let_def log_entry_fits_def unat_of_nat)
  qed
qed

lemma subslice_drop: "subslice a b (drop p xs) = subslice (p + a) (p + b) xs"
  by (simp add: subslice_def add.commute)

lemma decode_entries_loop_step:
  "decode_entries_loop dat pos (Suc todo) =
     (case snap_entry_dec (drop pos dat) of
        None \<Rightarrow> None
      | Some (e, n) \<Rightarrow> map_option (\<lambda>es. e # es) (decode_entries_loop dat (pos + n) todo))"
proof -
  let ?len = "unat (u32_from_le_bytes (subslice (pos + 16) (pos + 20) dat))"
  have "length dat - pos < 20 \<longleftrightarrow> length dat < pos + 20"
    and "length dat - pos < 20 + ?len \<longleftrightarrow> length dat < pos + 20 + ?len" by auto
  then show ?thesis
    by (cases "length dat < pos + 20"; cases "length dat < pos + 20 + ?len")
      (simp_all add: snap_entry_dec_def Let_def subslice_drop add.assoc split: option.split)
qed

lemma decode_entries_loop_stream:
  "list_all log_entry_fits es \<Longrightarrow>
   decode_entries_loop (pre @ snap_entry_format.stream es @ rest) (length pre) (length es) = Some es"
proof (induction es arbitrary: pre)
  case (Cons e es)
  have "decode_entries_loop (pre @ snap_entry_format.stream (e # es) @ rest) (length pre + length (snap_entry_bytes e))
      (length es) = Some es"
    using Cons.IH [of "pre @ snap_entry_bytes e"] Cons.prems by simp
  then show ?case
    using Cons.prems snap_entry_format.dec_enc [of e "snap_entry_format.stream es @ rest"]
    by (simp add: decode_entries_loop_step del: decode_entries_loop.simps length_snap_entry_bytes)
qed simp

lemma decode_entries_encode:
  assumes "list_all log_entry_fits es" and "length es < 2 ^ 32"
  shows "decode_entries (encode_entries es) = Some es"
proof -
  have "encode_entries es = u32_to_le_bytes (of_nat (length es)) @ snap_entry_format.stream es @ []"
    by (simp add: encode_entries_def snap_entry_format.stream_def)
  moreover have "subslice 0 4 (u32_to_le_bytes (of_nat (length es)) @ snap_entry_format.stream es @ []) =
      u32_to_le_bytes (of_nat (length es))"
    by (simp add: subslice_def)
  ultimately show ?thesis
    using decode_entries_loop_stream [OF assms(1), of "u32_to_le_bytes (of_nat (length es))" "[]"] assms(2)
    by (simp add: decode_entries_def unat_of_nat)
qed

end
