(* ===== verification/Persistent_State.thy ===== *)
theory Persistent_State
  imports Durable_Cell Raft_Log
begin

text \<open>
  \<open>wal-replication/src/persistent_state.rs\<close>: the current term and the vote, in the file
  \<open>raft_state.bin\<close>.
\<close>

definition STATE_FILE :: string where
  "STATE_FILE = ''raft_state.bin''"

record pstate =
  ps_path :: path
  ps_current_term :: u64
  ps_voted_for :: "string option"

definition ps_encode :: "u64 \<Rightarrow> string option \<Rightarrow> bytes" where
  "ps_encode t voted_for =
     (let s = (case voted_for of None \<Rightarrow> [] | Some v \<Rightarrow> v)
      in u64_to_le_bytes t @ u32_to_le_bytes (of_nat (length s)) @ as_bytes s)"

definition ps_decode :: "bytes \<Rightarrow> u64 \<times> string option" where
  "ps_decode bs =
     (if length bs < 12 then (0, None)
      else
        let t = u64_from_le_bytes (subslice 0 8 bs);
            len = unat (u32_from_le_bytes (subslice 8 12 bs));
            voted_for = (if len = 0 \<or> length bs < 12 + len then None
                         else from_utf8 (subslice 12 (12 + len) bs))
        in (t, voted_for))"

text \<open>What \<open>open\<close> makes of the file, if there is one.\<close>

definition ps_parse :: "bytes option \<Rightarrow> u64 \<times> string option" where
  "ps_parse c = (case c of None \<Rightarrow> (0, None) | Some bs \<Rightarrow> ps_decode bs)"

definition ps_open :: "path \<Rightarrow> (pstate, raft_error) call" where
  "ps_open dir s =
     (let path = path_join dir STATE_FILE in
      and_then (if path_exists path s then
                  and_then (map_err RaftIo (fs_read path s)) (\<lambda>bs s. (Ok (ps_decode bs), s))
                else (Ok (0, None), s))
        (\<lambda>(t, v) s. (Ok \<lparr>ps_path = path, ps_current_term = t, ps_voted_for = v\<rparr>, s)))"

definition ps_persist :: "(pstate, unit, raft_error) meth" where
  "ps_persist = (\<lambda>(p, s).
     map_err RaftIo (io (write_rename (with_extension (ps_path p) ''tmp'') (ps_path p)
       (ps_encode (ps_current_term p) (ps_voted_for p))) (p, s)))"

definition advance_term :: "u64 \<Rightarrow> (pstate, unit, raft_error) meth" where
  "advance_term new_term = (\<lambda>(p, s).
     ps_persist (p\<lparr>ps_current_term := new_term, ps_voted_for := None\<rparr>, s))"

definition record_vote :: "string \<Rightarrow> (pstate, unit, raft_error) meth" where
  "record_vote candidate = (\<lambda>(p, s). ps_persist (p\<lparr>ps_voted_for := Some candidate\<rparr>, s))"

lemmas persistent_state_code [THEN fun_cong, code] =
  ps_persist_def advance_term_def record_vote_def

section \<open>The state file as a durable cell\<close>

text \<open>A vote that the format can hold: a nonempty string of Rust, shorter than 4 GiB. The empty
  string is read back as no vote at all.\<close>

definition vote_ok :: "u64 \<times> string option \<Rightarrow> bool" where
  "vote_ok tv \<longleftrightarrow> (case snd tv of None \<Rightarrow> True | Some v \<Rightarrow> v \<noteq> [] \<and> rust_string v \<and> length v < 2 ^ 32)"

lemma ps_decode_encode: "vote_ok (t, v) \<Longrightarrow> ps_decode (ps_encode t v) = (t, v)"
  by (auto simp: ps_decode_def ps_encode_def vote_ok_def subslice_def Let_def unat_of_nat
      from_utf8_as_bytes split: option.splits)

lemma ps_decode_name:
  assumes "ps_decode bs = (t, Some v)"
  shows "v \<noteq> [] \<and> rust_string v \<and> length v < 2 ^ 32"
proof -
  let ?len = "unat (u32_from_le_bytes (subslice 8 12 bs))"
  have l: "?len \<noteq> 0" "12 + ?len \<le> length bs" and "from_utf8 (subslice 12 (12 + ?len) bs) = Some v"
    using assms by (auto simp: ps_decode_def Let_def split: if_splits)
  with from_utf8_string have "rust_string v" "length v = ?len"
    by (auto simp: subslice_def)
  with l show ?thesis
    using unat_less_2p [of "u32_from_le_bytes (subslice 8 12 bs)"] by auto
qed

lemma state_tmp: "with_extension (path_join d STATE_FILE) ''tmp'' = path_join d ''raft_state.tmp''"
  by (simp add: with_extension_def path_join_def STATE_FILE_def name_stem_def name_extension_def)

interpretation vote_cell: durable_cell
  "\<lambda>tv. write_rename (path_join dir ''raft_state.tmp'') (path_join dir STATE_FILE) (ps_encode (fst tv) (snd tv))"
  "\<lambda>tv. ps_encode (fst tv) (snd tv)" ps_parse "\<lambda>tv. tv" vote_ok
  "path_join dir ''raft_state.tmp''" "path_join dir STATE_FILE" for dir
proof (rule write_rename_durable_cell)
  show "path_join dir ''raft_state.tmp'' \<noteq> path_join dir STATE_FILE"
    by (simp add: STATE_FILE_def)
  show "vote_ok v \<Longrightarrow> ps_parse (Some (ps_encode (fst v) (snd v))) = v" for v
    using ps_decode_encode [of "fst v" "snd v"] by (simp add: ps_parse_def)
qed

lemma ps_open_healthy:
  "healthy s \<Longrightarrow> ps_open dir s =
     (Ok \<lparr>ps_path = path_join dir STATE_FILE, ps_current_term = fst (vote_cell.stored dir s),
          ps_voted_for = snd (vote_cell.stored dir s)\<rparr>, s)"
  by (auto simp: ps_open_def Let_def fs_healthy path_exists_content vote_cell.stored_def ps_parse_def
      split: option.split prod.split)

text \<open>\<open>ps_synced\<close>: the state in memory is the one of directory \<open>dir\<close> and agrees with the file.\<close>

definition ps_synced :: "path \<Rightarrow> pstate \<Rightarrow> fs \<Rightarrow> bool" where
  "ps_synced dir p s \<longleftrightarrow>
     ps_path p = path_join dir STATE_FILE \<and> vote_cell.stored dir s = (ps_current_term p, ps_voted_for p)"

lemma ps_persist_cases:
  assumes "ps_path p = path_join dir STATE_FILE" and "ps_persist (p, s) = (r, (p', s'))"
    and "vote_ok (ps_current_term p, ps_voted_for p)"
  shows "p' = p \<and> r \<noteq> Panic \<and>
    vote_cell.stored dir s' = (if is_ok r then (ps_current_term p, ps_voted_for p) else vote_cell.stored dir s) \<and>
    (\<forall>q. q \<noteq> path_join dir STATE_FILE \<longrightarrow> q \<noteq> path_join dir ''raft_state.tmp'' \<longrightarrow>
       fs_content s' q = fs_content s q)"
proof -
  let ?tv = "(ps_current_term p, ps_voted_for p)"
  obtain rw sw where w: "write_rename (path_join dir ''raft_state.tmp'') (path_join dir STATE_FILE)
      (ps_encode (fst ?tv) (snd ?tv)) s = (rw, sw)" by fastforce
  then have r: "p' = p" "s' = sw" "r \<noteq> Panic \<longleftrightarrow> rw \<noteq> Panic" "is_ok r \<longleftrightarrow> is_ok rw"
    using assms(1,2) by (cases rw; auto simp: ps_persist_def io_def state_tmp)+
  show ?thesis
    using vote_cell.stored_after_save [OF assms(3), of dir s] w r
      vote_cell.save_no_panic [where dir = dir and v = ?tv and s = s]
      vote_cell.save_frame [where dir = dir and v = ?tv and s = s]
    by simp
qed

text \<open>Without I/O errors memory and file agree after every change; with one, the memory has moved
  on and the file has not.\<close>

lemma advance_term_cases:
  assumes "ps_synced dir p s" and "advance_term t (p, s) = (r, (p', s'))"
  shows "p' = p\<lparr>ps_current_term := t, ps_voted_for := None\<rparr> \<and> r \<noteq> Panic \<and>
    vote_cell.stored dir s' = (if is_ok r then (t, None) else vote_cell.stored dir s) \<and>
    (is_ok r \<longrightarrow> ps_synced dir p' s')"
  using assms ps_persist_cases [of "p\<lparr>ps_current_term := t, ps_voted_for := None\<rparr>" dir s r p' s']
  by (auto simp: advance_term_def ps_synced_def vote_ok_def)

lemma record_vote_cases:
  assumes "ps_synced dir p s" and "record_vote c (p, s) = (r, (p', s'))"
    and "c \<noteq> []" and "rust_string c" and "length c < 2 ^ 32"
  shows "p' = p\<lparr>ps_voted_for := Some c\<rparr> \<and> r \<noteq> Panic \<and>
    vote_cell.stored dir s' = (if is_ok r then (ps_current_term p, Some c) else vote_cell.stored dir s) \<and>
    (is_ok r \<longrightarrow> ps_synced dir p' s')"
  using assms ps_persist_cases [of "p\<lparr>ps_voted_for := Some c\<rparr>" dir s r p' s']
  by (auto simp: record_vote_def ps_synced_def vote_ok_def)

lemma ps_persist_healthy:
  assumes "healthy s" and "ps_path p = path_join dir STATE_FILE"
  shows "\<exists>s'. ps_persist (p, s) = (Ok (), (p, s')) \<and> healthy s' \<and> (wf_fs s \<longrightarrow> wf_fs s')"
proof -
  have "path_join dir ''raft_state.tmp'' \<noteq> path_join dir STATE_FILE" by (simp add: STATE_FILE_def)
  from write_rename_healthy [OF assms(1) this, of "ps_encode (ps_current_term p) (ps_voted_for p)"]
  obtain s' where "write_rename (path_join dir ''raft_state.tmp'') (path_join dir STATE_FILE)
      (ps_encode (ps_current_term p) (ps_voted_for p)) s = (Ok (), s')" "healthy s'" "wf_fs s \<longrightarrow> wf_fs s'"
    by blast
  then show ?thesis
    by (simp add: ps_persist_def io_def state_tmp assms(2))
qed

end
