(* ===== verification/Log_Properties.thy ===== *)
theory Log_Properties
  imports Sample_Run Snapshot Persistent_State
begin

text \<open>
  What the replicated log, the snapshot file and the vote file guarantee, each theorem with a witness on
  concrete input.
\<close>

section \<open>The replicated log\<close>

text \<open>C24: appending to the log gives the entry the index after the last one, adds it in memory and on disk, and
  keeps the rest.\<close>

theorem log_append_spec:
  assumes "raft_log_rep crc l s" and "log_budget l (Suc k) m" and "17 + length d \<le> m"
  shows "\<exists>l' s'. raft_log_append crc t d (l, s) = (Ok (last_index l + 1), (l', s')) \<and> raft_log_rep crc l' s' \<and>
    log_map l' = (log_map l)(unat (last_index l) + 1 \<mapsto> \<lparr>le_term = t, le_index = last_index l + 1, le_data = d\<rparr>) \<and>
    rl_snapshot_index l' = rl_snapshot_index l \<and> rl_snapshot_term l' = rl_snapshot_term l"
proof -
  obtain l' s' where r: "raft_log_append crc t d (l, s) = (Ok (last_index l + 1), (l', s'))" "raft_log_rep crc l' s'"
    "rl_entries l' = rl_entries l @ [\<lparr>le_term = t, le_index = last_index l + 1, le_data = d\<rparr>]"
    "rl_snapshot_index l' = rl_snapshot_index l" "rl_snapshot_term l' = rl_snapshot_term l"
    using log_append_step [OF assms] by blast
  have "unat (last_index l) = unat (rl_snapshot_index l) + length (rl_entries l)"
    using assms(1) raft_log_rep_healthy log_wf_last_index by blast
  with r show ?thesis
    by (intro exI [of _ l'] exI [of _ s']) (auto simp: log_map_def get_entry_def nth_append fun_eq_iff)
qed

theorem log_append_spec_witness:
  "\<exists>l' s'. raft_log_append sum_crc 3 [7] (small_log, small_wal_fs) = (Ok 1, (l', s')) \<and>
     log_map l' = (log_map small_log)(1 \<mapsto> \<lparr>le_term = 3, le_index = 1, le_data = [7]\<rparr>)"
  using log_append_spec [OF small_log_rep, of 0 60 "[7]" 3] by (auto simp: log_budget_def small_wal_budget)

text \<open>C25: truncation from an index of the log removes that index and everything after it, in memory and on
  disk, and nothing before it; outside of the log it does nothing.\<close>

theorem log_truncate_spec:
  assumes rep: "raft_log_rep crc l s" and b: "log_budget l (Suc k) m"
  shows "\<exists>l' s'. truncate_from crc i (l, s) = (Ok (), (l', s')) \<and> raft_log_rep crc l' s' \<and>
    (if rl_snapshot_index l < i \<and> i \<le> last_index l
     then log_map l' = log_map l |` {..< unat i} \<and> rl_snapshot_index l' = rl_snapshot_index l
     else l' = l \<and> s' = s)"
proof (cases "rl_snapshot_index l < i \<and> i \<le> last_index l")
  case True
  obtain l' s' where r: "truncate_from crc i (l, s) = (Ok (), (l', s'))" "raft_log_rep crc l' s'"
    "rl_entries l' = take (unat i - unat (rl_snapshot_index l) - 1) (rl_entries l)"
    "rl_snapshot_index l' = rl_snapshot_index l"
    using log_truncate_step [OF rep b] True by blast
  have "unat (last_index l) = unat (rl_snapshot_index l) + length (rl_entries l)"
    using rep raft_log_rep_healthy log_wf_last_index by blast
  moreover have "unat (rl_snapshot_index l) < unat i" "unat i \<le> unat (last_index l)" using True by (simp_all add: u64_order)
  ultimately show ?thesis
    using r True by (intro exI [of _ l'] exI [of _ s']) (auto simp: log_map_def get_entry_def restrict_map_def fun_eq_iff)
next
  case False
  with rep show ?thesis by (intro exI [of _ l] exI [of _ s]) (auto simp: truncate_from_def)
qed

theorem log_truncate_spec_witness:
  "\<exists>l' s'. truncate_from sum_crc 1 (small_log, small_wal_fs) = (Ok (), (l', s')) \<and> l' = small_log \<and> s' = small_wal_fs"
  using log_truncate_spec [OF small_log_rep, of 0 60 1] by (auto simp: log_budget_def small_wal_budget)

text \<open>C27: the read path against the map from indices to entries: \<open>term_at\<close> knows the snapshot point and the entries
  after it, \<open>last_term\<close> is the term at \<open>last_index\<close>, and \<open>entries_from\<close> returns the entries from an index on and
  never slices out of bounds.\<close>

theorem log_reads:
  assumes wf: "log_wf l"
  shows "term_at l i =
      (if i = 0 then None else if i = rl_snapshot_index l then Some (rl_snapshot_term l)
       else map_option le_term (log_map l (unat i))) \<and>
    (0 < unat (last_index l) \<longrightarrow> term_at l (last_index l) = Some (last_term l)) \<and>
    entries_from l i = Ok (filter (\<lambda>e. i \<le> le_index e) (rl_entries l)) \<and>
    dom (log_map l) = {unat (rl_snapshot_index l) <.. unat (last_index l)}"
  using term_at_spec [OF wf] term_at_last [OF wf] entries_from_spec [OF wf] dom_log_map [OF wf] by blast

definition two_entry_log :: raft_log where
  "two_entry_log = small_log\<lparr>rl_entries := [\<lparr>le_term = 1, le_index = 5, le_data = [1]\<rparr>, \<lparr>le_term = 2, le_index = 6, le_data = []\<rparr>],
     rl_snapshot_index := 4, rl_snapshot_term := 1\<rparr>"

theorem log_reads_witness:
  "term_at two_entry_log 4 = Some 1 \<and> entries_from two_entry_log 6 = Ok [\<lparr>le_term = 2, le_index = 6, le_data = []\<rparr>]"
proof -
  have "log_wf two_entry_log" by (auto simp: log_wf_def two_entry_log_def less_Suc_eq)
  from log_reads [OF this, of 4] log_reads [OF this, of 6] show ?thesis by (simp add: two_entry_log_def)
qed

text \<open>C26: compaction. \<open>compact\<close> and \<open>install_snapshot\<close> move the snapshot point forward and drop the entries up to it, in
  memory and on disk, provided that truncating the WAL deletes no later entry: the log has a single
  segment, or no record after the point.\<close>

theorem log_compact_spec:
  assumes "raft_log_rep crc l s" and "log_budget l (Suc k) m" and "rl_snapshot_index l < li" and "unat li + 1 < 2 ^ 64"
    and "snapshot_safe crc li lt l s"
  shows "\<exists>l' s'. compact crc li lt (l, s) = (Ok (), (l', s')) \<and> install_snapshot crc li lt (l, s) = (Ok (), (l', s')) \<and>
    raft_log_rep crc l' s' \<and> rl_snapshot_index l' = li \<and> rl_snapshot_term l' = lt \<and>
    log_map l' = log_map l |` {unat li <..}"
proof -
  have wf: "log_wf l" using raft_log_rep_healthy [OF assms(1)] by blast
  obtain w' s' where r: "compact crc li lt (l, s) = (Ok (), (snapshotted li lt w' l, s'))"
    "install_snapshot crc li lt (l, s) = (Ok (), (snapshotted li lt w' l, s'))"
    "raft_log_rep crc (snapshotted li lt w' l) s'"
    using log_snapshot_step [OF assms] by blast
  have "unat (rl_snapshot_index l) < unat li" using assms(3) by (simp add: u64_order)
  then have "log_map (snapshotted li lt w' l) = log_map l |` {unat li <..}"
    by (auto simp: log_map_def get_entry_def restrict_map_def fun_eq_iff snapshotted_def log_wf_filter [OF wf assms(3)])
  with r show ?thesis
    by (intro exI [of _ "snapshotted li lt w' l"] exI [of _ s']) (simp add: snapshotted_def)
qed

theorem log_compact_spec_witness:
  "\<exists>l' s'. compact sum_crc 2 1 (small_log, small_wal_fs) = (Ok (), (l', s')) \<and> raft_log_rep sum_crc l' s' \<and> rl_snapshot_index l' = 2"
proof -
  have "snapshot_safe sum_crc 2 1 small_log small_wal_fs"
    by (simp add: snapshot_safe_def one_segment_def would_overflow_def HEADER_SIZE_def encode_snapshot_def)
  from log_compact_spec [OF small_log_rep _ _ _ this, of 0 60] show ?thesis
    by (auto simp: log_budget_def small_wal_budget)
qed

section \<open>Snapshots\<close>

text \<open>C37: the payload of a snapshot decodes to the entries it was made of, for entries and counts that fit the
  32-bit length fields.\<close>

theorem snapshot_payload_roundtrip:
  assumes "list_all log_entry_fits es" and "length es < 2 ^ 32"
  shows "decode_entries (encode_entries es) = Some es"
  by (rule decode_entries_encode [OF assms])

theorem snapshot_payload_roundtrip_witness:
  "decode_entries (encode_entries [\<lparr>le_term = 1, le_index = 5, le_data = [1]\<rparr>, \<lparr>le_term = 2, le_index = 6, le_data = []\<rparr>]) =
     Some [\<lparr>le_term = 1, le_index = 5, le_data = [1]\<rparr>, \<lparr>le_term = 2, le_index = 6, le_data = []\<rparr>]"
  by (rule snapshot_payload_roundtrip) (simp_all add: log_entry_fits_def)

text \<open>C30: saving a snapshot is atomic. Whichever calls of the file system fail, and wherever a write stops, the
  directory then loads the old snapshot or the new one, the new one exactly when the save returned.\<close>

theorem snapshot_save_atomic:
  assumes "snapshot_fits sn" and "snapshot_save dir sn s = (r, s')"
  shows "r \<noteq> Panic \<and> snapshot_view (fs_content s' (snapshot_path dir)) =
    (if is_ok r then Ok (Some sn) else snapshot_view (fs_content s (snapshot_path dir)))"
  using snapshot_cell.stored_after_save [OF assms(1), of dir s] snapshot_cell.save_no_panic [of dir sn s] assms(2)
  by (simp add: snapshot_cell.stored_def)

theorem snapshot_save_atomic_witness:
  "\<exists>r s'. snapshot_save [''d''] \<lparr>sn_last_included_index = 3, sn_last_included_term = 1, sn_data = [1]\<rparr> (empty_fs\<lparr>faults := [Pass, Refuse]\<rparr>) = (r, s') \<and>
     snapshot_view (fs_content s' (snapshot_path [''d''])) =
       (if is_ok r then Ok (Some \<lparr>sn_last_included_index = 3, sn_last_included_term = 1, sn_data = [1]\<rparr>) else Ok None)"
proof -
  let ?sn = "\<lparr>sn_last_included_index = 3, sn_last_included_term = 1, sn_data = [1]\<rparr>"
  obtain r s' where run: "snapshot_save [''d''] ?sn (empty_fs\<lparr>faults := [Pass, Refuse]\<rparr>) = (r, s')" by (metis surj_pair)
  have "snapshot_fits ?sn" by (simp add: snapshot_fits_def)
  from snapshot_save_atomic [OF this run] run show ?thesis by (auto simp: snapshot_view_def)
qed

section \<open>The vote file\<close>

text \<open>Term and vote survive a round trip through the file.\<close>

lemma vote_roundtrip:
  assumes "case v of None \<Rightarrow> True | Some c \<Rightarrow> c \<noteq> [] \<and> rust_string c \<and> length c < 2 ^ 32"
  shows "ps_decode (ps_encode t v) = (t, v)"
  using assms by (intro ps_decode_encode) (simp add: vote_ok_def)

lemma vote_roundtrip_sample: "ps_decode (ps_encode 7 (Some ''node-1'')) = (7, Some ''node-1'')"
  by (rule vote_roundtrip) (simp add: rust_string_def as_bytes_def)

text \<open>C31: recording a vote is atomic. Whichever calls fail, the file then holds the old term and vote or the new
  ones, the new ones exactly when the call returned; the memory holds the new vote in any case.\<close>

theorem record_vote_atomic:
  assumes "ps_synced dir p s" and "c \<noteq> []" and "rust_string c" and "length c < 2 ^ 32"
    and "record_vote c (p, s) = (r, (p', s'))"
  shows "r \<noteq> Panic \<and> p' = p\<lparr>ps_voted_for := Some c\<rparr> \<and>
    ps_parse (fs_content s' (path_join dir STATE_FILE)) =
      (if is_ok r then (ps_current_term p, Some c) else ps_parse (fs_content s (path_join dir STATE_FILE)))"
  using record_vote_cases [OF assms(1,5,2-4)] by (simp add: vote_cell.stored_def)

theorem record_vote_atomic_witness:
  "\<exists>r p' s'. record_vote ''B'' (\<lparr>ps_path = path_join [''d''] STATE_FILE, ps_current_term = 0, ps_voted_for = None\<rparr>, empty_fs\<lparr>faults := [Torn 3]\<rparr>) = (r, (p', s')) \<and>
     r \<noteq> Panic \<and> ps_parse (fs_content s' (path_join [''d''] STATE_FILE)) = (if is_ok r then (0, Some ''B'') else (0, None))"
proof -
  let ?p = "\<lparr>ps_path = path_join [''d''] STATE_FILE, ps_current_term = 0, ps_voted_for = None\<rparr>"
  obtain r p' s' where run: "record_vote ''B'' (?p, empty_fs\<lparr>faults := [Torn 3]\<rparr>) = (r, (p', s'))" by (metis surj_pair)
  have "ps_synced [''d''] ?p (empty_fs\<lparr>faults := [Torn 3]\<rparr>)"
    by (simp add: ps_synced_def vote_cell.stored_def ps_parse_def)
  from record_vote_atomic [OF this _ _ _ run] run show ?thesis
    by (auto simp: rust_string_def as_bytes_def ps_parse_def)
qed

text \<open>C38: whatever bytes the file holds, a vote that is read from it is a nonempty valid UTF-8 string shorter than
  4 GiB, so that it can be written back.\<close>

theorem decoded_vote_valid:
  "case snd (ps_decode bs) of None \<Rightarrow> True | Some v \<Rightarrow> v \<noteq> [] \<and> rust_string v \<and> length v < 2 ^ 32"
  using ps_decode_name [of bs] by (cases "ps_decode bs") (auto split: option.split)

end
