(* ===== verification/Raft_Node.thy ===== *)
theory Raft_Node
  imports Raft_Log_Rep Snapshot Persistent_State
begin

text \<open>
  \<open>wal-replication/src/config.rs\<close> and \<open>wal-replication/src/raft/node.rs\<close>: the Raft actor. The
  actor handles one message at a time, so each handler is a function on the node and its file
  system. Metrics and tracing have no effect on either and are left out. Parameters:
  \<^item> \<open>crc\<close>, the checksum function of \<open>crc32fast\<close>;
  \<^item> \<open>env\<close>, the clock (milliseconds) and the random number generator of the crate \<open>rand\<close>;
  \<^item> the network: the answer to an RPC is \<open>None\<close> when the call failed or timed out.
  A handler that awaits RPCs is split at its \<open>join_all\<close>: the first part sends, the second
  gets the list of answers.
\<close>

section \<open>Configuration\<close>

record node_info =
  ni_id :: string
  ni_addr :: string

record cluster_config =
  cc_this_node :: node_info
  cc_peers :: "node_info list"
  cc_data_dir :: path
  cc_election_timeout_min :: nat
  cc_election_timeout_max :: nat
  cc_heartbeat_interval :: nat

definition cluster_config_new :: "node_info \<Rightarrow> node_info list \<Rightarrow> path \<Rightarrow> cluster_config" where
  "cluster_config_new this_node peers data_dir =
     \<lparr>cc_this_node = this_node, cc_peers = peers, cc_data_dir = data_dir,
      cc_election_timeout_min = 150, cc_election_timeout_max = 300, cc_heartbeat_interval = 50\<rparr>"

definition cluster_size :: "cluster_config \<Rightarrow> nat" where
  "cluster_size c = length (cc_peers c) + 1"

definition quorum :: "cluster_config \<Rightarrow> nat" where
  "quorum c = cluster_size c div 2 + 1"

section \<open>Messages\<close>

text \<open>The messages of \<open>wal-replication/proto/wal.proto\<close>; its \<open>LogEntry\<close> has the fields of the
  log's own entry and is the same type here.\<close>

record append_entries_request =
  ae_term :: u64
  ae_leader_id :: string
  ae_prev_log_index :: u64
  ae_prev_log_term :: u64
  ae_entries :: "log_entry list"
  ae_leader_commit :: u64

record append_entries_response =
  aer_term :: u64
  aer_success :: bool
  aer_conflict_index :: u64
  aer_conflict_term :: u64

record request_vote_request =
  rv_term :: u64
  rv_candidate_id :: string
  rv_last_log_index :: u64
  rv_last_log_term :: u64

record request_vote_response =
  rvr_term :: u64
  rvr_vote_granted :: bool

record install_snapshot_request =
  is_term :: u64
  is_leader_id :: string
  is_last_included_index :: u64
  is_last_included_term :: u64
  is_data :: bytes

record install_snapshot_response =
  isr_term :: u64
  isr_success :: bool

section \<open>The node\<close>

datatype role = Follower | Candidate | Leader

record env =
  e_now :: nat
  e_rng :: "nat \<Rightarrow> nat \<Rightarrow> nat"

record raft_node =
  n_id :: string
  n_config :: cluster_config
  n_peers :: "node_info list"
  n_ps :: pstate
  n_log :: raft_log
  n_role :: role
  n_commit_index :: u64
  n_current_leader :: "string option"
  n_next_index :: "string \<rightharpoonup> u64"
  n_match_index :: "string \<rightharpoonup> u64"
  n_last_heartbeat :: nat
  n_election_timeout :: nat
  n_snapshot :: "snapshot option"
  n_snapshot_trigger :: u64
  n_entries_since_snapshot :: u64
  n_data_dir :: path

abbreviation n_term :: "raft_node \<Rightarrow> u64" where
  "n_term n \<equiv> ps_current_term (n_ps n)"

abbreviation n_vote :: "raft_node \<Rightarrow> string option" where
  "n_vote n \<equiv> ps_voted_for (n_ps n)"

definition on_ps :: "(pstate, 'a, raft_error) meth \<Rightarrow> (raft_node, 'a, raft_error) meth" where
  "on_ps = on_field n_ps (\<lambda>p n. n\<lparr>n_ps := p\<rparr>)"

definition on_log :: "(raft_log, 'a, raft_error) meth \<Rightarrow> (raft_node, 'a, raft_error) meth" where
  "on_log = on_field n_log (\<lambda>l n. n\<lparr>n_log := l\<rparr>)"

text \<open>\<open>let _ = ...\<close>: an error is dropped, a panic is not.\<close>

definition ignore_result :: "('a, 'e) res \<times> 's \<Rightarrow> (unit, 'e) res \<times> 's" where
  "ignore_result m = (case m of (Panic, s) \<Rightarrow> (Panic, s) | (_, s) \<Rightarrow> (Ok (), s))"

definition random_election_timeout :: "env \<Rightarrow> cluster_config \<Rightarrow> nat" where
  "random_election_timeout env c =
     e_rng env (cc_election_timeout_min c) (cc_election_timeout_max c)"

definition node_start ::
  "(bytes \<Rightarrow> u32) \<Rightarrow> env \<Rightarrow> cluster_config \<Rightarrow> (raft_node, raft_error) call" where
  "node_start crc env config s =
     and_then (map_err RaftIo (fs_create_dir_all (cc_data_dir config) s)) (\<lambda>_ s.
     and_then (ps_open (cc_data_dir config) s) (\<lambda>ps s.
     let wal_config = \<lparr>wc_dir = path_join (cc_data_dir config) ''wal'',
                       wc_max_segment_bytes = 64 * 1024 * 1024, wc_sync_writes = True\<rparr> in
     and_then (raft_log_open crc wal_config s) (\<lambda>log s.
     and_then (case snapshot_load (cc_data_dir config) s of
                 (Ok sn, s) \<Rightarrow> (Ok sn, s) | (Err e, s) \<Rightarrow> (Ok None, s) | (Panic, s) \<Rightarrow> (Panic, s))
       (\<lambda>sn s.
         (Ok \<lparr>n_id = ni_id (cc_this_node config), n_config = config, n_peers = cc_peers config,
              n_ps = ps, n_log = log, n_role = Follower, n_commit_index = 0,
              n_current_leader = None, n_next_index = Map.empty, n_match_index = Map.empty,
              n_last_heartbeat = e_now env, n_election_timeout = random_election_timeout env config,
              n_snapshot = sn, n_snapshot_trigger = 100, n_entries_since_snapshot = 0,
              n_data_dir = cc_data_dir config\<rparr>, s)))))"

definition time_until_timeout :: "env \<Rightarrow> raft_node \<Rightarrow> nat" where
  "time_until_timeout env n =
     (case n_role n of
        Leader \<Rightarrow> cc_heartbeat_interval (n_config n)
      | _ \<Rightarrow> n_election_timeout n - (e_now env - n_last_heartbeat n))"

definition become_follower_with_leader :: "env \<Rightarrow> string option \<Rightarrow> raft_node \<Rightarrow> raft_node" where
  "become_follower_with_leader env leader n =
     n\<lparr>n_role := Follower,
       n_current_leader := (case leader of Some l \<Rightarrow> Some l | None \<Rightarrow> n_current_leader n),
       n_last_heartbeat := e_now env,
       n_election_timeout := random_election_timeout env (n_config n)\<rparr>"

section \<open>AppendEntries\<close>

definition ae_reject :: "raft_node \<Rightarrow> u64 \<Rightarrow> u64 \<Rightarrow> append_entries_response" where
  "ae_reject n conflict_index conflict_term =
     \<lparr>aer_term = n_term n, aer_success = False, aer_conflict_index = conflict_index,
      aer_conflict_term = conflict_term\<rparr>"

text \<open>Rule 3: the answer if the log does not match at the previous entry.\<close>

definition ae_consistency :: "append_entries_request \<Rightarrow> raft_node \<Rightarrow> append_entries_response option" where
  "ae_consistency req n =
     (if 0 < ae_prev_log_index req then
        (case term_at (n_log n) (ae_prev_log_index req) of
           None \<Rightarrow> Some (ae_reject n (last_index (n_log n) + 1) 0)
         | Some t \<Rightarrow>
             if t \<noteq> ae_prev_log_term req then
               Some (ae_reject n (case first_index_of_term (n_log n) t of
                                    Some i \<Rightarrow> i | None \<Rightarrow> ae_prev_log_index req) t)
             else None)
      else None)"

text \<open>Rule 4: one entry of the request, and all of them.\<close>

definition ae_entry :: "(bytes \<Rightarrow> u32) \<Rightarrow> log_entry \<Rightarrow> (raft_node, unit, raft_error) meth" where
  "ae_entry crc e = (\<lambda>(n, s).
     case term_at (n_log n) (le_index e) of
       Some t \<Rightarrow>
         if t = le_term e then (Ok (), (n, s))
         else
           and_then (ignore_result (on_log (truncate_from crc (le_index e)) (n, s)))
             (\<lambda>_ ns. ignore_result (on_log (raft_log_append crc (le_term e) (le_data e)) ns))
     | None \<Rightarrow> ignore_result (on_log (raft_log_append crc (le_term e) (le_data e)) (n, s)))"

fun ae_loop :: "(bytes \<Rightarrow> u32) \<Rightarrow> log_entry list \<Rightarrow> (raft_node, unit, raft_error) meth" where
  "ae_loop crc [] ns = (Ok (), ns)"
| "ae_loop crc (e # es) ns = and_then (ae_entry crc e ns) (\<lambda>_ ns. ae_loop crc es ns)"

definition on_append_entries ::
  "(bytes \<Rightarrow> u32) \<Rightarrow> env \<Rightarrow> append_entries_request \<Rightarrow> (raft_node, append_entries_response, raft_error) meth" where
  "on_append_entries crc env req = (\<lambda>(n, s).
     if ae_term req < n_term n then (Ok (ae_reject n 0 0), (n, s))
     else
       and_then (if n_term n < ae_term req then ignore_result (on_ps (advance_term (ae_term req)) (n, s))
                 else (Ok (), (n, s)))
         (\<lambda>_ (n, s).
           let n = become_follower_with_leader env (Some (ae_leader_id req)) n in
           case ae_consistency req n of
             Some resp \<Rightarrow> (Ok resp, (n, s))
           | None \<Rightarrow>
               and_then (ae_loop crc (ae_entries req) (n, s)) (\<lambda>_ (n, s).
                 let n = (if n_commit_index n < ae_leader_commit req
                          then n\<lparr>n_commit_index := min (ae_leader_commit req) (last_index (n_log n))\<rparr>
                          else n)
                 in (Ok \<lparr>aer_term = n_term n, aer_success = True, aer_conflict_index = 0,
                         aer_conflict_term = 0\<rparr>, (n, s)))))"

section \<open>RequestVote\<close>

definition log_ok :: "request_vote_request \<Rightarrow> raft_log \<Rightarrow> bool" where
  "log_ok req l \<longleftrightarrow>
     last_term l < rv_last_log_term req \<or>
     rv_last_log_term req = last_term l \<and> last_index l \<le> rv_last_log_index req"

definition rv_answer :: "raft_node \<Rightarrow> bool \<Rightarrow> request_vote_response" where
  "rv_answer n granted = \<lparr>rvr_term = n_term n, rvr_vote_granted = granted\<rparr>"

definition on_request_vote ::
  "env \<Rightarrow> request_vote_request \<Rightarrow> (raft_node, request_vote_response, raft_error) meth" where
  "on_request_vote env req = (\<lambda>(n, s).
     and_then (if n_term n < rv_term req then
                 and_then (ignore_result (on_ps (advance_term (rv_term req)) (n, s)))
                   (\<lambda>_ (n, s). (Ok (), (n\<lparr>n_role := Follower\<rparr>, s)))
               else (Ok (), (n, s)))
       (\<lambda>_ (n, s).
         if rv_term req < n_term n then (Ok (rv_answer n False), (n, s))
         else if (case n_vote n of None \<Rightarrow> False | Some v \<Rightarrow> v \<noteq> rv_candidate_id req) then
           (Ok (rv_answer n False), (n, s))
         else if \<not> log_ok req (n_log n) then (Ok (rv_answer n False), (n, s))
         else
           and_then (ignore_result (on_ps (record_vote (rv_candidate_id req)) (n, s)))
             (\<lambda>_ (n, s). let n = n\<lparr>n_last_heartbeat := e_now env\<rparr> in (Ok (rv_answer n True), (n, s)))))"

section \<open>Elections\<close>

definition become_leader :: "raft_node \<Rightarrow> raft_node" where
  "become_leader n =
     (let nxt = last_index (n_log n) + 1 in
      n\<lparr>n_role := Leader, n_current_leader := Some (n_id n),
        n_next_index := fold (\<lambda>p m. m(ni_id p \<mapsto> nxt)) (n_peers n) (n_next_index n),
        n_match_index := fold (\<lambda>p m. m(ni_id p \<mapsto> 0)) (n_peers n) (n_match_index n)\<rparr>)"

text \<open>Up to the \<open>join_all\<close>: a new term, a vote for oneself, and the request for the peers.\<close>

definition start_election_begin :: "env \<Rightarrow> (raft_node, request_vote_request, raft_error) meth" where
  "start_election_begin env = (\<lambda>(n, s).
     let new_term = n_term n + 1 in
     and_then (ignore_result (on_ps (advance_term new_term) (n, s))) (\<lambda>_ (n, s).
     and_then (ignore_result (on_ps (record_vote (n_id n)) (n, s))) (\<lambda>_ (n, s).
       let n = n\<lparr>n_role := Candidate, n_last_heartbeat := e_now env,
                 n_election_timeout := random_election_timeout env (n_config n)\<rparr>
       in (Ok \<lparr>rv_term = new_term, rv_candidate_id = n_id n,
               rv_last_log_index = last_index (n_log n), rv_last_log_term = last_term (n_log n)\<rparr>,
           (n, s)))))"

lemmas raft_node_code [THEN fun_cong, code] =
  ae_entry_def on_append_entries_def on_request_vote_def start_election_begin_def

lemmas on_fields_code [THEN fun_cong, THEN fun_cong, code] =
  on_ps_def on_log_def

text \<open>The loop over the answers: \<open>None\<close> when a higher term made the node step down.\<close>

fun count_votes ::
  "env \<Rightarrow> request_vote_response option list \<Rightarrow> nat \<Rightarrow> (raft_node, nat option, raft_error) meth" where
  "count_votes env [] votes ns = (Ok (Some votes), ns)"
| "count_votes env (None # rs) votes ns = count_votes env rs votes ns"
| "count_votes env (Some resp # rs) votes (n, s) =
     (if n_term n < rvr_term resp then
        and_then (ignore_result (on_ps (advance_term (rvr_term resp)) (n, s)))
          (\<lambda>_ (n, s). (Ok None, (become_follower_with_leader env None n, s)))
      else count_votes env rs (if rvr_vote_granted resp then votes + 1 else votes) (n, s))"

definition start_election_finish ::
  "env \<Rightarrow> request_vote_response option list \<Rightarrow> (raft_node, unit, raft_error) meth" where
  "start_election_finish env results ns =
     and_then (count_votes env results 1 ns) (\<lambda>outcome (n, s).
       case outcome of
         None \<Rightarrow> (Ok (), (n, s))
       | Some votes \<Rightarrow>
           if n_role n \<noteq> Candidate then (Ok (), (n, s))
           else if quorum (n_config n) \<le> votes then (Ok (), (become_leader n, s))
           else (Ok (), (n\<lparr>n_role := Follower\<rparr>, s)))"

definition start_election ::
  "env \<Rightarrow> (node_info \<Rightarrow> request_vote_request \<Rightarrow> request_vote_response option) \<Rightarrow>
   (raft_node, unit, raft_error) meth" where
  "start_election env net ns =
     and_then (start_election_begin env ns) (\<lambda>req (n, s).
       start_election_finish env (map (\<lambda>p. net p req) (n_peers n)) (n, s))"

end
