(* ===== verification/Raft_Replication.thy ===== *)
theory Raft_Replication
  imports Raft_Node
begin

text \<open>
  The rest of \<open>wal-replication/src/raft/node.rs\<close>: what a leader does (client writes, replication,
  snapshots, heartbeats), the \<open>InstallSnapshot\<close> handler, and the actor that dispatches messages
  and timeouts, with the handle through which the services reach it.
\<close>

section \<open>The network\<close>

text \<open>The client of a peer: \<open>None\<close> is a call that failed, could not connect or timed out.\<close>

record network =
  net_append_entries :: "node_info \<Rightarrow> append_entries_request \<Rightarrow> append_entries_response option"
  net_request_vote :: "node_info \<Rightarrow> request_vote_request \<Rightarrow> request_vote_response option"
  net_install_snapshot :: "node_info \<Rightarrow> install_snapshot_request \<Rightarrow> install_snapshot_response option"

section \<open>Requests of the leader\<close>

definition next_for :: "raft_node \<Rightarrow> string \<Rightarrow> u64 \<Rightarrow> u64" where
  "next_for n peer_id up_to_index =
     (case n_next_index n peer_id of Some i \<Rightarrow> i | None \<Rightarrow> up_to_index + 1)"

definition build_append_entries_for ::
  "raft_node \<Rightarrow> string \<Rightarrow> u64 \<Rightarrow> (append_entries_request, raft_error) res" where
  "build_append_entries_for n peer_id up_to_index =
     (let next = next_for n peer_id up_to_index;
          prev_log_index = saturating_sub next 1;
          prev_log_term = (case term_at (n_log n) prev_log_index of Some t \<Rightarrow> t | None \<Rightarrow> 0)
      in case entries_from (n_log n) next of
           Ok es \<Rightarrow>
             Ok \<lparr>ae_term = n_term n, ae_leader_id = n_id n, ae_prev_log_index = prev_log_index,
                 ae_prev_log_term = prev_log_term,
                 ae_entries = filter (\<lambda>e. le_index e \<le> up_to_index) es,
                 ae_leader_commit = n_commit_index n\<rparr>
         | Err e \<Rightarrow> Err e
         | Panic \<Rightarrow> Panic)"

definition install_request :: "raft_node \<Rightarrow> snapshot \<Rightarrow> install_snapshot_request" where
  "install_request n sn =
     \<lparr>is_term = n_term n, is_leader_id = n_id n, is_last_included_index = sn_last_included_index sn,
      is_last_included_term = sn_last_included_term sn, is_data = sn_data sn\<rparr>"

text \<open>The snapshot that a lagging peer needs, if this node has one.\<close>

definition snapshot_for :: "raft_node \<Rightarrow> string \<Rightarrow> u64 \<Rightarrow> snapshot option" where
  "snapshot_for n peer_id up_to_index =
     (if next_for n peer_id up_to_index \<le> rl_snapshot_index (n_log n) then n_snapshot n else None)"

text \<open>The loop that splits the peers: the two lists of futures, each with the peer it goes to.\<close>

fun peer_requests ::
  "raft_node \<Rightarrow> u64 \<Rightarrow> node_info list \<Rightarrow>
   ((node_info \<times> append_entries_request) list \<times> (node_info \<times> install_snapshot_request) list, raft_error) res" where
  "peer_requests n up_to_index [] = Ok ([], [])"
| "peer_requests n up_to_index (p # ps) =
     (case snapshot_for n (ni_id p) up_to_index of
        Some sn \<Rightarrow>
          (case peer_requests n up_to_index ps of
             Ok (aes, snaps) \<Rightarrow> Ok (aes, (p, install_request n sn) # snaps)
           | Err e \<Rightarrow> Err e
           | Panic \<Rightarrow> Panic)
      | None \<Rightarrow>
          (case build_append_entries_for n (ni_id p) up_to_index of
             Ok req \<Rightarrow>
               (case peer_requests n up_to_index ps of
                  Ok (aes, snaps) \<Rightarrow> Ok ((p, req) # aes, snaps)
                | Err e \<Rightarrow> Err e
                | Panic \<Rightarrow> Panic)
           | Err e \<Rightarrow> Err e
           | Panic \<Rightarrow> Panic))"

section \<open>Answers of the peers\<close>

text \<open>\<open>advance_term\<close>, then \<open>become_follower_with_leader(.., None)\<close>.\<close>

definition step_down :: "env \<Rightarrow> u64 \<Rightarrow> (raft_node, unit, raft_error) meth" where
  "step_down env t = (\<lambda>(n, s).
     and_then (ignore_result (on_ps (advance_term t) (n, s)))
       (\<lambda>_ (n, s). (Ok (), (become_follower_with_leader env None n, s))))"

text \<open>A failed call counts as the all-zero answer.\<close>

definition ae_failed :: append_entries_response where
  "ae_failed = \<lparr>aer_term = 0, aer_success = False, aer_conflict_index = 0, aer_conflict_term = 0\<rparr>"

text \<open>The result is the number of acknowledgments, and whether the loop returned early.\<close>

fun ae_acks ::
  "env \<Rightarrow> u64 \<Rightarrow> (string \<times> append_entries_response) list \<Rightarrow> nat \<Rightarrow>
   (raft_node, bool \<times> nat, raft_error) meth" where
  "ae_acks env up_to_index [] acks ns = (Ok (False, acks), ns)"
| "ae_acks env up_to_index ((peer_id, resp) # rs) acks (n, s) =
     (if n_term n < aer_term resp then
        and_then (step_down env (aer_term resp) (n, s)) (\<lambda>_ ns. (Ok (True, acks), ns))
      else if aer_success resp then
        ae_acks env up_to_index rs (acks + 1)
          (n\<lparr>n_match_index := (n_match_index n)(peer_id \<mapsto> up_to_index),
             n_next_index := (n_next_index n)(peer_id \<mapsto> up_to_index + 1)\<rparr>, s)
      else if 0 < aer_conflict_index resp then
        ae_acks env up_to_index rs acks
          (n\<lparr>n_next_index := (n_next_index n)(peer_id \<mapsto> aer_conflict_index resp)\<rparr>, s)
      else ae_acks env up_to_index rs acks (n, s))"

fun snap_acks ::
  "env \<Rightarrow> (string \<times> install_snapshot_response option) list \<Rightarrow> nat \<Rightarrow> (raft_node, nat, raft_error) meth" where
  "snap_acks env [] acks ns = (Ok acks, ns)"
| "snap_acks env ((peer_id, None) # rs) acks ns = snap_acks env rs acks ns"
| "snap_acks env ((peer_id, Some resp) # rs) acks (n, s) =
     (if n_term n < isr_term resp then
        and_then (step_down env (isr_term resp) (n, s)) (\<lambda>_ ns. (Ok acks, ns))
      else if isr_success resp then
        (let snap_idx = rl_snapshot_index (n_log n) in
         snap_acks env rs (acks + 1)
           (n\<lparr>n_match_index := (n_match_index n)(peer_id \<mapsto> snap_idx),
              n_next_index := (n_next_index n)(peer_id \<mapsto> snap_idx + 1)\<rparr>, s))
      else snap_acks env rs acks (n, s))"

definition replicate_to_peers ::
  "env \<Rightarrow> network \<Rightarrow> u64 \<Rightarrow> (raft_node, nat, raft_error) meth" where
  "replicate_to_peers env net up_to_index = (\<lambda>(n, s).
     case peer_requests n up_to_index (n_peers n) of
       Ok (aes, snaps) \<Rightarrow>
         (let ae_results = map (\<lambda>(p, req). (ni_id p, case net_append_entries net p req of
                                                       Some resp \<Rightarrow> resp | None \<Rightarrow> ae_failed)) aes;
              snap_results = map (\<lambda>(p, req). (ni_id p, net_install_snapshot net p req)) snaps
          in and_then (ae_acks env up_to_index ae_results 1 (n, s)) (\<lambda>(returned, acks) ns.
               if returned then (Ok acks, ns) else snap_acks env snap_results acks ns))
     | Err e \<Rightarrow> (Err e, (n, s))
     | Panic \<Rightarrow> (Panic, (n, s)))"

section \<open>Snapshots\<close>

definition take_snapshot :: "(bytes \<Rightarrow> u32) \<Rightarrow> (raft_node, unit, raft_error) meth" where
  "take_snapshot crc = (\<lambda>(n, s).
     let last_index = n_commit_index n in
     if last_index = 0 then (Ok (), (n, s))
     else
       let last_term = (case term_at (n_log n) last_index of
                          Some t \<Rightarrow> t | None \<Rightarrow> rl_snapshot_term (n_log n)) in
       (case entries_from (n_log n) (rl_snapshot_index (n_log n) + 1) of
          Ok es \<Rightarrow>
            (let committed_entries = filter (\<lambda>e. le_index e \<le> last_index) es;
                 snap = \<lparr>sn_last_included_index = last_index, sn_last_included_term = last_term,
                         sn_data = encode_entries committed_entries\<rparr>
             in and_then (map_err RaftIo (io (snapshot_save (n_data_dir n) snap) (n, s))) (\<lambda>_ ns.
                and_then (on_log (compact crc last_index last_term) ns) (\<lambda>_ (n, s).
                  (Ok (), (n\<lparr>n_entries_since_snapshot := 0, n_snapshot := Some snap\<rparr>, s)))))
        | Err e \<Rightarrow> (Err e, (n, s))
        | Panic \<Rightarrow> (Panic, (n, s))))"

definition is_answer :: "raft_node \<Rightarrow> bool \<Rightarrow> install_snapshot_response" where
  "is_answer n success = \<lparr>isr_term = n_term n, isr_success = success\<rparr>"

definition on_install_snapshot ::
  "(bytes \<Rightarrow> u32) \<Rightarrow> env \<Rightarrow> install_snapshot_request \<Rightarrow> (raft_node, install_snapshot_response, raft_error) meth" where
  "on_install_snapshot crc env req = (\<lambda>(n, s).
     if is_term req < n_term n then (Ok (is_answer n False), (n, s))
     else
       and_then (if n_term n < is_term req then ignore_result (on_ps (advance_term (is_term req)) (n, s))
                 else (Ok (), (n, s)))
         (\<lambda>_ (n, s).
           let n = become_follower_with_leader env (Some (is_leader_id req)) n in
           if is_last_included_index req \<le> rl_snapshot_index (n_log n) then (Ok (is_answer n True), (n, s))
           else
             let snap = \<lparr>sn_last_included_index = is_last_included_index req,
                         sn_last_included_term = is_last_included_term req, sn_data = is_data req\<rparr> in
             case io (snapshot_save (n_data_dir n) snap) (n, s) of
               (Panic, ns) \<Rightarrow> (Panic, ns)
             | (Err _, (n, s)) \<Rightarrow> (Ok (is_answer n False), (n, s))
             | (Ok _, ns) \<Rightarrow>
                 (case on_log (install_snapshot crc (is_last_included_index req) (is_last_included_term req)) ns of
                    (Panic, ns) \<Rightarrow> (Panic, ns)
                  | (Err _, (n, s)) \<Rightarrow> (Ok (is_answer n False), (n, s))
                  | (Ok _, (n, s)) \<Rightarrow>
                      (let n = n\<lparr>n_commit_index := max (n_commit_index n) (is_last_included_index req),
                                 n_entries_since_snapshot := 0, n_snapshot := Some snap\<rparr>
                       in (Ok (is_answer n True), (n, s))))))"

section \<open>Client writes and heartbeats\<close>

definition on_client_write ::
  "(bytes \<Rightarrow> u32) \<Rightarrow> env \<Rightarrow> network \<Rightarrow> bytes \<Rightarrow> (raft_node, u64, raft_error) meth" where
  "on_client_write crc env net dat = (\<lambda>(n, s).
     if n_role n \<noteq> Leader then (Err (NotLeader (n_current_leader n)), (n, s))
     else
       and_then (on_log (raft_log_append crc (n_term n) dat) (n, s)) (\<lambda>index ns.
       and_then (replicate_to_peers env net index ns) (\<lambda>acks (n, s).
         if acks < quorum (n_config n) then (Err QuorumNotReached, (n, s))
         else
           let n = n\<lparr>n_commit_index := index, n_entries_since_snapshot := n_entries_since_snapshot n + 1\<rparr>
           in and_then (if n_snapshot_trigger n \<le> n_entries_since_snapshot n
                        then ignore_result (take_snapshot crc (n, s)) else (Ok (), (n, s)))
                (\<lambda>_ ns. (Ok index, ns)))))"

definition heartbeat :: "raft_node \<Rightarrow> append_entries_request" where
  "heartbeat n =
     \<lparr>ae_term = n_term n, ae_leader_id = n_id n, ae_prev_log_index = last_index (n_log n),
      ae_prev_log_term = last_term (n_log n), ae_entries = [], ae_leader_commit = n_commit_index n\<rparr>"

fun heartbeat_answers :: "env \<Rightarrow> append_entries_response list \<Rightarrow> (raft_node, unit, raft_error) meth" where
  "heartbeat_answers env [] ns = (Ok (), ns)"
| "heartbeat_answers env (resp # rs) (n, s) =
     (if n_term n < aer_term resp then step_down env (aer_term resp) (n, s)
      else heartbeat_answers env rs (n, s))"

definition send_heartbeats :: "env \<Rightarrow> network \<Rightarrow> (raft_node, unit, raft_error) meth" where
  "send_heartbeats env net = (\<lambda>(n, s).
     heartbeat_answers env
       (List.map_filter (\<lambda>p. net_append_entries net p (heartbeat n)) (n_peers n)) (n, s))"

section \<open>The actor\<close>

definition handle_timeout :: "env \<Rightarrow> network \<Rightarrow> (raft_node, unit, raft_error) meth" where
  "handle_timeout env net = (\<lambda>(n, s).
     case n_role n of
       Leader \<Rightarrow> send_heartbeats env net (n, s)
     | _ \<Rightarrow> start_election env (net_request_vote net) (n, s))"

datatype raft_msg =
    MsgAppendEntries append_entries_request
  | MsgRequestVote request_vote_request
  | MsgInstallSnapshot install_snapshot_request
  | MsgClientWrite bytes
  | MsgClientRead u64

datatype raft_reply =
    ReplyAppendEntries append_entries_response
  | ReplyRequestVote request_vote_response
  | ReplyInstallSnapshot install_snapshot_response
  | ReplyClientWrite "raft_error + u64"
  | ReplyClientRead "log_entry list"

definition reply_with :: "('a \<Rightarrow> raft_reply) \<Rightarrow> ('a, raft_error) res \<times> 's \<Rightarrow> (raft_reply, raft_error) res \<times> 's" where
  "reply_with f m = and_then m (\<lambda>x s. (Ok (f x), s))"

definition handle_msg ::
  "(bytes \<Rightarrow> u32) \<Rightarrow> env \<Rightarrow> network \<Rightarrow> raft_msg \<Rightarrow> (raft_node, raft_reply, raft_error) meth" where
  "handle_msg crc env net msg = (\<lambda>(n, s).
     case msg of
       MsgAppendEntries req \<Rightarrow> reply_with ReplyAppendEntries (on_append_entries crc env req (n, s))
     | MsgRequestVote req \<Rightarrow> reply_with ReplyRequestVote (on_request_vote env req (n, s))
     | MsgInstallSnapshot req \<Rightarrow> reply_with ReplyInstallSnapshot (on_install_snapshot crc env req (n, s))
     | MsgClientWrite dat \<Rightarrow>
         (case on_client_write crc env net dat (n, s) of
            (Ok i, ns) \<Rightarrow> (Ok (ReplyClientWrite (Inr i)), ns)
          | (Err e, ns) \<Rightarrow> (Ok (ReplyClientWrite (Inl e)), ns)
          | (Panic, ns) \<Rightarrow> (Panic, ns))
     | MsgClientRead from_index \<Rightarrow>
         (case entries_from (n_log n) from_index of
            Ok es \<Rightarrow> (Ok (ReplyClientRead es), (n, s))
          | Err e \<Rightarrow> (Err e, (n, s))
          | Panic \<Rightarrow> (Panic, (n, s))))"

text \<open>One turn of the loop of \<open>run\<close>: a message or the expiry of the timer. A panic ends the task
  and drops the receiver of the channel: the actor is then \<open>None\<close>.\<close>

datatype event = Message raft_msg | Timeout

type_synonym actor = "raft_node option \<times> fs"

definition actor_step ::
  "(bytes \<Rightarrow> u32) \<Rightarrow> env \<Rightarrow> network \<Rightarrow> event \<Rightarrow> actor \<Rightarrow> raft_reply option \<times> actor" where
  "actor_step crc env net ev = (\<lambda>(a, s).
     case a of
       None \<Rightarrow> (None, (None, s))
     | Some n \<Rightarrow>
         (case ev of
            Message msg \<Rightarrow>
              (case handle_msg crc env net msg (n, s) of
                 (Ok r, (n, s)) \<Rightarrow> (Some r, (Some n, s))
               | (Err e, (n, s)) \<Rightarrow> (None, (Some n, s))
               | (Panic, (n, s)) \<Rightarrow> (None, (None, s)))
          | Timeout \<Rightarrow>
              (case handle_timeout env net (n, s) of
                 (Panic, (n, s)) \<Rightarrow> (None, (None, s))
               | (_, (n, s)) \<Rightarrow> (None, (Some n, s)))))"

lemmas raft_replication_code [THEN fun_cong, code] =
  step_down_def replicate_to_peers_def take_snapshot_def on_install_snapshot_def on_client_write_def send_heartbeats_def handle_timeout_def handle_msg_def actor_step_def

text \<open>The handle: send a message, wait for the answer. A dead actor, or one that dies on the way,
  is \<open>Shutdown\<close>.\<close>

definition ask :: "(bytes \<Rightarrow> u32) \<Rightarrow> env \<Rightarrow> network \<Rightarrow> raft_msg \<Rightarrow> actor \<Rightarrow> (raft_reply, raft_error) res \<times> actor" where
  "ask crc env net msg a =
     (case actor_step crc env net (Message msg) a of
        (Some r, a) \<Rightarrow> (Ok r, a)
      | (None, a) \<Rightarrow> (Err Shutdown, a))"

definition handle_append_entries where
  "handle_append_entries crc env net req a =
     and_then (ask crc env net (MsgAppendEntries req) a)
       (\<lambda>r a. case r of ReplyAppendEntries resp \<Rightarrow> (Ok resp, a) | _ \<Rightarrow> (Err Shutdown, a))"

definition handle_request_vote where
  "handle_request_vote crc env net req a =
     and_then (ask crc env net (MsgRequestVote req) a)
       (\<lambda>r a. case r of ReplyRequestVote resp \<Rightarrow> (Ok resp, a) | _ \<Rightarrow> (Err Shutdown, a))"

definition handle_install_snapshot where
  "handle_install_snapshot crc env net req a =
     and_then (ask crc env net (MsgInstallSnapshot req) a)
       (\<lambda>r a. case r of ReplyInstallSnapshot resp \<Rightarrow> (Ok resp, a) | _ \<Rightarrow> (Err Shutdown, a))"

definition handle_write where
  "handle_write crc env net dat a =
     and_then (ask crc env net (MsgClientWrite dat) a)
       (\<lambda>r a. case r of ReplyClientWrite (Inr i) \<Rightarrow> (Ok i, a) | ReplyClientWrite (Inl e) \<Rightarrow> (Err e, a)
              | _ \<Rightarrow> (Err Shutdown, a))"

definition handle_read_from where
  "handle_read_from crc env net from_index a =
     and_then (ask crc env net (MsgClientRead from_index) a)
       (\<lambda>r a. case r of ReplyClientRead es \<Rightarrow> (Ok es, a) | _ \<Rightarrow> (Err Shutdown, a))"

end
