(* ===== verification/Node_Rep.thy ===== *)
theory Node_Rep
  imports Log_Frame Raft_Replication
begin

text \<open>
  The node and its directory: \<open>node_rep\<close> says that the log, the vote and the snapshot in memory
  are those on disk. A restart then gives the same node back, as a follower; and every change
  that the handlers make through \<open>PersistentState\<close>, \<open>RaftLog\<close> and \<open>Snapshot\<close> keeps it,
  on a file system without faults.
\<close>

section \<open>The relation\<close>

definition node_wal_config :: "path \<Rightarrow> wal_config" where
  "node_wal_config d = \<lparr>wc_dir = path_join d ''wal'', wc_max_segment_bytes = 64 * 1024 * 1024, wc_sync_writes = True\<rparr>"

definition node_rep :: "(bytes \<Rightarrow> u32) \<Rightarrow> raft_node \<Rightarrow> fs \<Rightarrow> bool" where
  "node_rep crc n s \<longleftrightarrow>
     raft_log_rep crc (n_log n) s \<and> rl_config (n_log n) = node_wal_config (n_data_dir n) \<and>
     ps_synced (n_data_dir n) (n_ps n) s \<and> snapshot_cell.stored (n_data_dir n) s = Ok (n_snapshot n) \<and>
     cc_data_dir (n_config n) = n_data_dir n \<and> cc_peers (n_config n) = n_peers n \<and>
     ni_id (cc_this_node (n_config n)) = n_id n \<and> n_snapshot_trigger n = 100"

lemma wal_dir_distinct [simp]: "butlast p = path_join d x \<Longrightarrow> p \<noteq> path_join d y"
  by (auto simp: path_join_def)

lemma rl_dir_node [simp]: "node_rep crc n s \<Longrightarrow> rl_dir (n_log n) = path_join (n_data_dir n) ''wal''"
  by (simp add: node_rep_def node_wal_config_def)

lemma node_rep_log: "node_rep crc n s \<Longrightarrow> raft_log_rep crc (n_log n) s \<and> log_wf (n_log n) \<and> healthy s \<and> wf_fs s"
  by (auto simp: node_rep_def dest: raft_log_rep_healthy)

text \<open>Only the fields below matter.\<close>

lemma node_rep_cong:
  assumes "node_rep crc n s" and "n_log n' = n_log n" and "n_ps n' = n_ps n" and "n_snapshot n' = n_snapshot n"
    and "n_data_dir n' = n_data_dir n" and "n_config n' = n_config n" and "n_peers n' = n_peers n"
    and "n_id n' = n_id n" and "n_snapshot_trigger n' = n_snapshot_trigger n"
  shows "node_rep crc n' s"
  using assms by (simp add: node_rep_def)

section \<open>Restart\<close>

definition restarted :: "env \<Rightarrow> raft_node \<Rightarrow> raft_node" where
  "restarted env n = n\<lparr>n_role := Follower, n_commit_index := 0, n_current_leader := None,
     n_next_index := Map.empty, n_match_index := Map.empty, n_last_heartbeat := e_now env,
     n_election_timeout := random_election_timeout env (n_config n), n_entries_since_snapshot := 0\<rparr>"

lemma node_start_rep:
  assumes rep: "node_rep crc n s"
  shows "node_start crc env (n_config n) s = (Ok (restarted env n), s)"
proof -
  have h: "healthy s" and dir: "cc_data_dir (n_config n) = n_data_dir n"
    using node_rep_log [OF rep] rep by (simp_all add: node_rep_def)
  have l: "raft_log_open crc (node_wal_config (n_data_dir n)) s = (Ok (n_log n), s)"
    using raft_log_open_rep [of crc "n_log n" s] rep by (simp add: node_rep_def)
  have "ps_open (n_data_dir n) s = (Ok (n_ps n), s)"
    using ps_open_healthy [OF h] rep by (cases "n_ps n") (simp add: node_rep_def ps_synced_def)
  with l h dir rep show ?thesis
    by (cases n) (simp add: node_start_def fs_healthy node_wal_config_def Let_def snapshot_load_healthy
        node_rep_def restarted_def)
qed

lemma node_rep_restarted: "node_rep crc n s \<Longrightarrow> node_rep crc (restarted env n) s"
  by (rule node_rep_cong) (simp_all add: restarted_def)

section \<open>Changes of the vote, the log and the snapshot\<close>

lemma node_ps_step:
  assumes rep: "node_rep crc n s" and v: "vote_ok (t, v)"
  defines "p \<equiv> (n_ps n)\<lparr>ps_current_term := t, ps_voted_for := v\<rparr>"
  shows "\<exists>s'. ps_persist (p, s) = (Ok (), (p, s')) \<and> node_rep crc (n\<lparr>n_ps := p\<rparr>) s'"
proof -
  let ?d = "n_data_dir n"
  have pth: "ps_path p = path_join ?d STATE_FILE" and vp: "vote_ok (ps_current_term p, ps_voted_for p)"
    using rep v by (simp_all add: p_def node_rep_def ps_synced_def)
  obtain s' where run: "ps_persist (p, s) = (Ok (), (p, s'))" and h: "healthy s'" "wf_fs s'"
    using ps_persist_healthy [OF _ pth, of s] node_rep_log [OF rep] by blast
  note c = ps_persist_cases [OF pth run vp]
  have fr: "fs_content s' q = fs_content s q" if "q \<noteq> path_join ?d STATE_FILE" "q \<noteq> path_join ?d ''raft_state.tmp''" for q
    using c that by blast
  have "raft_log_rep crc (n_log n) s'"
  proof (rule raft_log_rep_frame [OF _ h])
    show "raft_log_rep crc (n_log n) s" using node_rep_log [OF rep] by simp
    show "fs_content s' q = fs_content s q" if "butlast q = rl_dir (n_log n)" for q
      by (rule fr) (use that rep in simp_all)
  qed
  moreover have "snapshot_cell.stored ?d s' = snapshot_cell.stored ?d s"
    unfolding snapshot_cell.stored_def by (subst fr) (simp_all add: snapshot_path_def STATE_FILE_def)
  moreover have "ps_synced ?d p s'"
    using c pth by (simp add: ps_synced_def)
  ultimately show ?thesis
    using rep run by (intro exI [of _ s']) (simp add: node_rep_def)
qed

lemma node_advance_term:
  assumes "node_rep crc n s"
  shows "\<exists>s'. ignore_result (on_ps (advance_term t) (n, s)) =
      (Ok (), (n\<lparr>n_ps := (n_ps n)\<lparr>ps_current_term := t, ps_voted_for := None\<rparr>\<rparr>, s')) \<and>
    node_rep crc (n\<lparr>n_ps := (n_ps n)\<lparr>ps_current_term := t, ps_voted_for := None\<rparr>\<rparr>) s'"
  using node_ps_step [OF assms, of t None]
  by (auto simp: on_ps_def on_field_def advance_term_def ignore_result_def vote_ok_def)

text \<open>Names that the format can hold: nonempty strings shorter than 4 GiB.\<close>

definition name_ok :: "string \<Rightarrow> bool" where
  "name_ok c \<longleftrightarrow> c \<noteq> [] \<and> rust_string c \<and> length c < 2 ^ 32"

lemma node_record_vote:
  assumes "node_rep crc n s" and "name_ok c"
  shows "\<exists>s'. ignore_result (on_ps (record_vote c) (n, s)) =
      (Ok (), (n\<lparr>n_ps := (n_ps n)\<lparr>ps_voted_for := Some c\<rparr>\<rparr>, s')) \<and>
    node_rep crc (n\<lparr>n_ps := (n_ps n)\<lparr>ps_voted_for := Some c\<rparr>\<rparr>) s'"
  using node_ps_step [OF assms(1), of "n_term n" "Some c"] assms(2)
  by (auto simp: on_ps_def on_field_def record_vote_def ignore_result_def vote_ok_def name_ok_def)

lemma node_log_step:
  assumes rep: "node_rep crc n s" and l: "raft_log_rep crc l s'" "rl_config l = rl_config (n_log n)"
    and so: "same_outside (rl_dir (n_log n)) s s'"
  shows "node_rep crc (n\<lparr>n_log := l\<rparr>) s'"
proof -
  have fr: "fs_content s' (path_join (n_data_dir n) x) = fs_content s (path_join (n_data_dir n) x)" for x
    using so rep by (simp add: same_outside_def) (simp add: path_join_def)
  then have "fs_content s' (snapshot_path (n_data_dir n)) = fs_content s (snapshot_path (n_data_dir n))"
    by (simp add: snapshot_path_def)
  then have "ps_synced (n_data_dir n) (n_ps n) s'" "snapshot_cell.stored (n_data_dir n) s' = Ok (n_snapshot n)"
    using rep fr by (simp_all add: node_rep_def ps_synced_def vote_cell.stored_def snapshot_cell.stored_def)
  with rep l show ?thesis by (simp add: node_rep_def)
qed

lemma node_save_snapshot:
  assumes rep: "node_rep crc n s" and fits: "snapshot_fits sn"
  shows "\<exists>s'. snapshot_save (n_data_dir n) sn s = (Ok (), s') \<and> node_rep crc (n\<lparr>n_snapshot := Some sn\<rparr>) s' \<and>
    (\<forall>p. butlast p = rl_dir (n_log n) \<longrightarrow> fs_content s' p = fs_content s p)"
proof -
  let ?d = "n_data_dir n"
  let ?t = "path_join ?d ''snapshot.tmp''"
  have neq: "?t \<noteq> snapshot_path ?d" by (simp add: snapshot_path_def)
  obtain s' where run: "snapshot_save ?d sn s = (Ok (), s')" and h: "healthy s'" "wf_fs s'"
    and c: "fs_content s' = (fs_content s)(?t := None, snapshot_path ?d := Some (snapshot_bytes sn))"
    using write_sync_rename_healthy [OF _ neq, of s "snapshot_bytes sn"] node_rep_log [OF rep]
    by (auto simp: snapshot_save_def)
  have fr: "fs_content s' q = fs_content s q" if "q \<noteq> ?t" "q \<noteq> snapshot_path ?d" for q
    using that by (simp add: c)
  have fw: "fs_content s' p = fs_content s p" if "butlast p = path_join ?d ''wal''" for p
    by (rule fr) (use that in \<open>auto simp: snapshot_path_def\<close>)
  have "raft_log_rep crc (n_log n) s'"
    using node_rep_log [OF rep] rep by (intro raft_log_rep_frame [OF _ h]) (simp_all add: fw)
  moreover have "ps_synced ?d (n_ps n) s'"
  proof -
    have "fs_content s' (path_join ?d STATE_FILE) = fs_content s (path_join ?d STATE_FILE)"
      by (rule fr) (simp_all add: snapshot_path_def STATE_FILE_def)
    then show ?thesis using rep by (simp add: node_rep_def ps_synced_def vote_cell.stored_def)
  qed
  moreover have "snapshot_cell.stored ?d s' = Ok (Some sn)"
    using snapshot_cell.stored_after_save [OF fits, of ?d s] run by simp
  ultimately have "node_rep crc (n\<lparr>n_snapshot := Some sn\<rparr>) s'"
    using rep by (simp add: node_rep_def)
  with run fw rl_dir_node [OF rep] show ?thesis by auto
qed

end
