(* ===== verification/Sample_Node.thy ===== *)
theory Sample_Node
  imports Sample_Run Node_Rep
begin

text \<open>
  A node \<open>A\<close> of a cluster with \<open>B\<close> and \<open>C\<close>, and one of a cluster of its own, just started on an empty
  disk; a network on which nobody answers, and one on which everybody agrees.
\<close>

definition member :: "string \<Rightarrow> node_info" where
  "member i = \<lparr>ni_id = i, ni_addr = i\<rparr>"

definition three_config :: "string \<Rightarrow> string \<Rightarrow> string \<Rightarrow> cluster_config" where
  "three_config i j k = cluster_config_new (member i) [member j, member k] [i]"

definition alone_config :: cluster_config where
  "alone_config = cluster_config_new (member ''A'') [] [''A'']"

definition still :: env where
  "still = \<lparr>e_now = 0, e_rng = (\<lambda>a b. a)\<rparr>"

text \<open>Everybody says yes; every answer carries term 0.\<close>

definition yes_net :: network where
  "yes_net = \<lparr>net_append_entries = (\<lambda>p req. Some \<lparr>aer_term = 0, aer_success = True, aer_conflict_index = 0, aer_conflict_term = 0\<rparr>),
     net_request_vote = (\<lambda>p req. Some \<lparr>rvr_term = 0, rvr_vote_granted = True\<rparr>),
     net_install_snapshot = (\<lambda>p req. Some \<lparr>isr_term = 0, isr_success = True\<rparr>)\<rparr>"

definition sample_wal :: "string \<Rightarrow> wal" where
  "sample_wal i = \<lparr>w_config = node_wal_config [i],
     w_active = \<lparr>seg_id = 1, seg_path = [i, ''wal'', ''wal-00000000000000000001.seg''], seg_writer = [], seg_size = 0,
                 seg_max_bytes = 67108864\<rparr>,
     w_sealed = [], w_checkpoint = \<lparr>cp_path = [i, ''wal'', ''checkpoint''], cp_sequence = 0\<rparr>, w_next_sequence = 1\<rparr>"

definition started :: "cluster_config \<Rightarrow> raft_node" where
  "started cfg =
     \<lparr>n_id = ni_id (cc_this_node cfg), n_config = cfg, n_peers = cc_peers cfg,
      n_ps = \<lparr>ps_path = cc_data_dir cfg @ [''raft_state.bin''], ps_current_term = 0, ps_voted_for = None\<rparr>,
      n_log = \<lparr>rl_entries = [], rl_wal = sample_wal (ni_id (cc_this_node cfg)), rl_snapshot_index = 0, rl_snapshot_term = 0\<rparr>,
      n_role = Follower, n_commit_index = 0, n_current_leader = None, n_next_index = Map.empty, n_match_index = Map.empty,
      n_last_heartbeat = 0, n_election_timeout = 150, n_snapshot = None, n_snapshot_trigger = 100,
      n_entries_since_snapshot = 0, n_data_dir = cc_data_dir cfg\<rparr>"

definition started_fs :: "string \<Rightarrow> fs" where
  "started_fs i = \<lparr>files = [([i, ''wal'', ''wal-00000000000000000001.seg''], \<lparr>f_content = [], f_durable = []\<rparr>)], faults = []\<rparr>"

lemma segment_name_1: "segment_path d 1 = d @ [''wal-00000000000000000001.seg'']"
proof -
  have "PREFIX @ zero_padded 20 (unat (1 :: u64)) @ SUFFIX = ''wal-00000000000000000001.seg''" by code_simp
  then show ?thesis by (simp add: segment_path_def path_join_def)
qed

lemma sample_wal_opened: "wal_open sum_crc (node_wal_config [i]) empty_fs = (Ok (sample_wal i), started_fs i)"
proof -
  let ?cfg = "node_wal_config [i]"
  have "unat (wc_max_segment_bytes ?cfg) < 2 ^ 63" by (simp add: node_wal_config_def)
  from wal_open_fresh [OF empty_fs_simps(1-3) this] obtain w s' where o:
    "wal_open sum_crc ?cfg empty_fs = (Ok w, s')" "wal_rep sum_crc w s' [] []" "w_config w = ?cfg"
    "w_next_sequence w = 1" "w_active w = new_segment ?cfg 1"
    "s' = put_file (segment_path (wc_dir ?cfg) 1) \<lparr>f_content = [], f_durable = []\<rparr> empty_fs"
    "cp_sequence (w_checkpoint w) = checkpoint_cell.stored (wc_dir ?cfg) empty_fs"
    by blast
  have "w_sealed w = []" and "cp_path (w_checkpoint w) = [i, ''wal'', ''checkpoint'']"
    using o(2,3) by (simp_all add: wal_rep_def checkpoint_in_def node_wal_config_def path_join_def CHECKPOINT_FILE_def)
  moreover have "cp_sequence (w_checkpoint w) = 0"
    using o(7) by (simp add: checkpoint_cell.stored_def checkpoint_parse_def)
  ultimately have "w = sample_wal i"
    using o(3-5) by (cases w; cases "w_checkpoint w")
      (simp add: sample_wal_def new_segment_def node_wal_config_def segment_name_1 path_join_def)
  moreover have "s' = started_fs i"
    using o(6) by (simp add: started_fs_def put_file_def empty_fs_def node_wal_config_def segment_name_1 path_join_def)
  ultimately show ?thesis using o(1) by simp
qed

lemma started_fs_content:
  "fs_content (started_fs i) p = (if p = [i, ''wal'', ''wal-00000000000000000001.seg''] then Some [] else None)"
  by (simp add: started_fs_def fs_content_def)

lemma started_fs_simps [simp]: "healthy (started_fs i)" "wf_fs (started_fs i)"
  by (simp_all add: started_fs_def wf_fs_def)

lemma started_cells [simp]:
  "vote_cell.stored [i] (started_fs i) = (0, None)" "snapshot_cell.stored [i] (started_fs i) = Ok None"
  unfolding vote_cell.stored_def snapshot_cell.stored_def started_fs_content
  by (simp_all add: ps_parse_def snapshot_view_def snapshot_path_def path_join_def STATE_FILE_def)

lemma start_fresh:
  assumes "cc_data_dir cfg = [i]" and "ni_id (cc_this_node cfg) = i" and "cc_election_timeout_min cfg = 150"
  shows "node_start sum_crc still cfg empty_fs = (Ok (started cfg), started_fs i)"
proof -
  have "raft_log_open sum_crc (node_wal_config [i]) empty_fs =
      (Ok \<lparr>rl_entries = [], rl_wal = sample_wal i, rl_snapshot_index = 0, rl_snapshot_term = 0\<rparr>, started_fs i)"
  proof -
    have "wal_read_from sum_crc (sample_wal i) 1 (started_fs i) = (Ok [], started_fs i)"
      by (simp add: wal_read_from_def sample_wal_def node_wal_config_def read_entries_def fs_healthy started_fs_content read_loop_done)
    then show ?thesis by (simp add: raft_log_open_def sample_wal_opened)
  qed
  moreover have "ps_open [i] empty_fs = (Ok \<lparr>ps_path = [i, ''raft_state.bin''], ps_current_term = 0, ps_voted_for = None\<rparr>, empty_fs)"
  proof -
    have "vote_cell.stored [i] empty_fs = (0, None)" by (simp add: vote_cell.stored_def ps_parse_def)
    then show ?thesis by (simp add: ps_open_healthy) (simp add: path_join_def STATE_FILE_def)
  qed
  moreover have "snapshot_load [i] (started_fs i) = (Ok None, started_fs i)"
    by (simp add: snapshot_load_healthy)
  ultimately show ?thesis
    using assms by (simp add: node_start_def fs_healthy started_def node_wal_config_def random_election_timeout_def still_def)
qed

lemma sample_wal_simps [simp]:
  "w_config (sample_wal i) = node_wal_config [i]" "w_next_sequence (sample_wal i) = 1" "w_sealed (sample_wal i) = []"
  "seg_id (w_active (sample_wal i)) = 1" "seg_size (w_active (sample_wal i)) = 0" "seg_max_bytes (w_active (sample_wal i)) = 67108864"
  by (simp_all add: sample_wal_def)

lemma sample_wal_rep: "wal_rep sum_crc (sample_wal i) (started_fs i) [] []"
  using wal_open_fresh [of empty_fs "node_wal_config [i]" sum_crc] sample_wal_opened [of i] by (auto simp: node_wal_config_def)

lemma started_rep:
  assumes "cc_data_dir cfg = [i]" and "ni_id (cc_this_node cfg) = i"
  shows "node_rep sum_crc (started cfg) (started_fs i)"
proof -
  have "wal_holds sum_crc (sample_wal i) (started_fs i) []"
    unfolding wal_holds_def by (intro exI [of _ "[]"]) (simp add: sample_wal_rep)
  then have "raft_log_rep sum_crc (n_log (started cfg)) (started_fs i)"
    using assms by (auto simp: raft_log_rep_def log_wf_def started_def)
  then show ?thesis
    using assms by (simp add: node_rep_def started_def ps_synced_def) (simp add: path_join_def STATE_FILE_def)
qed

lemma started_simps [simp]:
  "n_role (started cfg) = Follower" "n_term (started cfg) = 0" "n_vote (started cfg) = None" "n_commit_index (started cfg) = 0"
  "n_config (started cfg) = cfg" "n_peers (started cfg) = cc_peers cfg" "n_id (started cfg) = ni_id (cc_this_node cfg)"
  "rl_entries (n_log (started cfg)) = []" "rl_snapshot_index (n_log (started cfg)) = 0" "last_index (n_log (started cfg)) = 0"
  "last_term (n_log (started cfg)) = 0" "n_data_dir (started cfg) = cc_data_dir cfg" "n_snapshot (started cfg) = None"
  "rl_wal (n_log (started cfg)) = sample_wal (ni_id (cc_this_node cfg))" "n_entries_since_snapshot (started cfg) = 0"
  by (simp_all add: started_def last_index_def last_term_def)

lemma started_budget: "k < 1000 \<Longrightarrow> 17 \<le> m \<Longrightarrow> m \<le> 1000 \<Longrightarrow> log_budget (n_log (started cfg)) k m"
  by (simp add: log_budget_def wal_budget_def node_wal_config_def HEADER_SIZE_def)

abbreviation node_A :: raft_node where
  "node_A \<equiv> started (three_config ''A'' ''B'' ''C'')"

text \<open>The same node as a leader.\<close>

abbreviation lead_A :: raft_node where
  "lead_A \<equiv> node_A\<lparr>n_role := Leader\<rparr>"

lemma three_config_simps [simp]:
  "cc_data_dir (three_config i j k) = [i]" "ni_id (cc_this_node (three_config i j k)) = i"
  "cc_election_timeout_min (three_config i j k) = 150" "cc_peers (three_config i j k) = [member j, member k]"
  "cc_data_dir alone_config = [''A'']" "ni_id (cc_this_node alone_config) = ''A''" "cc_peers alone_config = []"
  "quorum (three_config i j k) = 2" "quorum alone_config = 1" "cc_election_timeout_min alone_config = 150"
  by (simp_all add: three_config_def alone_config_def cluster_config_new_def member_def quorum_def cluster_size_def)

lemma member_simps [simp]: "ni_id (member i) = i"
  by (simp add: member_def)

lemma still_simps [simp]: "e_now still = 0" "e_rng still a b = a"
  by (simp_all add: still_def)

lemma node_A_rep: "node_rep sum_crc node_A (started_fs ''A'')"
  by (rule started_rep) simp_all

lemma name_ok_letters [simp]: "name_ok ''A''" "name_ok ''B''" "name_ok ''C''"
  by (simp_all add: name_ok_def rust_string_def as_bytes_def)

end
