(* ===== verification/Follower.thy ===== *)
theory Follower
  imports Node_Rep
begin

text \<open>
  The handlers of a follower. \<open>merge\<close> is what rule 4 of \<open>on_append_entries\<close> does to the list of
  entries; \<open>on_append_entries_rep\<close> shows that the handler performs it on the log in memory and on
  disk, and \<open>merge_agrees\<close> that the log then holds the leader's entries.
\<close>

section \<open>The effect of AppendEntries on the list of entries\<close>

text \<open>The first entry of the request belongs at offset \<open>k\<close>.\<close>

fun merge :: "nat \<Rightarrow> log_entry list \<Rightarrow> log_entry list \<Rightarrow> log_entry list" where
  "merge k [] xs = xs"
| "merge k (e # es) xs =
     (if k < length xs then
        (if le_term (xs ! k) = le_term e then merge (Suc k) es xs
         else merge (Suc k) es (take k xs @ [e]))
      else merge (Suc k) es (xs @ [e]))"

text \<open>The log either has all the entries already, or it is cut and ends with the request's.\<close>

definition terms_match :: "nat \<Rightarrow> log_entry list \<Rightarrow> log_entry list \<Rightarrow> bool" where
  "terms_match k es xs \<longleftrightarrow> k + length es \<le> length xs \<and> map le_term (take (length es) (drop k xs)) = map le_term es"

text \<open>Entries of one index and one term are the same entry (the log matching property of Raft).\<close>

definition same_entries :: "nat \<Rightarrow> log_entry list \<Rightarrow> log_entry list \<Rightarrow> bool" where
  "same_entries k es xs \<longleftrightarrow>
     (\<forall>i < length es. k + i < length xs \<longrightarrow> le_term (xs ! (k + i)) = le_term (es ! i) \<longrightarrow> xs ! (k + i) = es ! i)"

lemma same_entries_Cons:
  "same_entries k (e # es) xs \<longleftrightarrow>
     (k < length xs \<longrightarrow> le_term (xs ! k) = le_term e \<longrightarrow> xs ! k = e) \<and> same_entries (Suc k) es xs"
  by (auto simp: same_entries_def nth_Cons less_Suc_eq_0_disj split: nat.splits)

lemma merge_past_end: "length xs \<le> k \<Longrightarrow> k = length xs \<Longrightarrow> merge k es xs = xs @ es"
proof (induction es arbitrary: k xs)
  case (Cons e es)
  then show ?case using Cons.IH [of "xs @ [e]" "Suc k"] by simp
qed simp

lemma terms_match_Cons:
  "terms_match k (e # es) xs \<longleftrightarrow> k < length xs \<and> le_term (xs ! k) = le_term e \<and> terms_match (Suc k) es xs"
proof (cases "k < length xs")
  case True
  then have "drop k xs = xs ! k # drop (Suc k) xs" by (rule Cons_nth_drop_Suc [symmetric])
  with True show ?thesis by (auto simp: terms_match_def)
qed (simp add: terms_match_def)

lemma merge_cases:
  assumes "k \<le> length xs" and "same_entries k es xs"
  shows "merge k es xs = (if terms_match k es xs then xs else take k xs @ es)"
  using assms
proof (induction es arbitrary: k xs)
  case Nil
  then show ?case by (simp add: terms_match_def)
next
  case (Cons e es)
  show ?case
  proof (cases "k < length xs \<and> le_term (xs ! k) = le_term e")
    case True
    then have "xs ! k = e" and "same_entries (Suc k) es xs"
      using Cons.prems(2) by (simp_all add: same_entries_Cons)
    moreover have "take (Suc k) xs = take k xs @ [xs ! k]"
      using True by (simp add: take_Suc_conv_app_nth)
    ultimately show ?thesis
      using True Cons.IH [of "Suc k" xs] by (simp add: terms_match_Cons)
  next
    case False
    have "length (take k xs @ [e]) = Suc k" using Cons.prems(1) by simp
    then have "merge (Suc k) es (take k xs @ [e]) = (take k xs @ [e]) @ es"
      by (intro merge_past_end) simp_all
    moreover have "k < length xs \<or> take k xs = xs" by auto
    ultimately show ?thesis
      using False by (auto simp: terms_match_Cons)
  qed
qed

text \<open>After the merge the log holds the request's entries at their place and the old ones before.\<close>

lemma merge_agrees:
  assumes "k \<le> length xs" and "same_entries k es xs"
  shows "take (k + length es) (merge k es xs) = take k xs @ es"
proof (cases "terms_match k es xs")
  case True
  then have len: "k + length es \<le> length xs" by (simp add: terms_match_def)
  have "take (length es) (drop k xs) = es"
  proof (rule nth_equalityI)
    show "length (take (length es) (drop k xs)) = length es" using len by simp
    fix i assume i: "i < length (take (length es) (drop k xs))"
    have "map le_term (take (length es) (drop k xs)) ! i = map le_term es ! i"
      using True by (simp add: terms_match_def)
    with i len have "le_term (xs ! (k + i)) = le_term (es ! i)" by simp
    with assms(2) i len show "take (length es) (drop k xs) ! i = es ! i"
      by (simp add: same_entries_def)
  qed
  with True show ?thesis by (simp add: merge_cases [OF assms] take_add)
qed (simp add: merge_cases [OF assms])

section \<open>The loop of AppendEntries\<close>

text \<open>The entries of a request are numbered consecutively.\<close>

definition numbered_from :: "u64 \<Rightarrow> log_entry list \<Rightarrow> bool" where
  "numbered_from i es \<longleftrightarrow> (\<forall>j < length es. unat (le_index (es ! j)) = unat i + 1 + j)"

lemma numbered_from_Cons:
  "unat i + 1 < 2 ^ 64 \<Longrightarrow> numbered_from i (e # es) \<longleftrightarrow> unat (le_index e) = unat i + 1 \<and> numbered_from (i + 1) es"
  by (auto simp: numbered_from_def u64_arith nth_Cons less_Suc_eq_0_disj split: nat.splits)

lemma log_entry_eta: "\<lparr>le_term = le_term e, le_index = le_index e, le_data = le_data e\<rparr> = e"
  by simp

lemma ae_append_step:
  assumes rep: "node_rep crc n s" and b: "log_budget (n_log n) (Suc b) m" and d: "17 + length (le_data e) \<le> m"
    and i: "le_index e = last_index (n_log n) + 1"
  shows "\<exists>l' s'. ignore_result (on_log (raft_log_append crc (le_term e) (le_data e)) (n, s)) =
      (Ok (), (n\<lparr>n_log := l'\<rparr>, s')) \<and> node_rep crc (n\<lparr>n_log := l'\<rparr>) s' \<and>
    rl_entries l' = rl_entries (n_log n) @ [e] \<and> rl_snapshot_index l' = rl_snapshot_index (n_log n) \<and>
    rl_snapshot_term l' = rl_snapshot_term (n_log n) \<and> log_budget l' b m"
proof -
  obtain l' s' where run: "raft_log_append crc (le_term e) (le_data e) (n_log n, s) = (Ok (last_index (n_log n) + 1), (l', s'))"
    and post: "raft_log_rep crc l' s'" "rl_config l' = rl_config (n_log n)" "same_outside (rl_dir (n_log n)) s s'"
      "rl_entries l' = rl_entries (n_log n) @ [\<lparr>le_term = le_term e, le_index = last_index (n_log n) + 1, le_data = le_data e\<rparr>]"
      "rl_snapshot_index l' = rl_snapshot_index (n_log n)" "rl_snapshot_term l' = rl_snapshot_term (n_log n)" "log_budget l' b m"
    using log_append_step [OF _ b d] node_rep_log [OF rep] by blast
  have "rl_entries l' = rl_entries (n_log n) @ [e]"
    using post(4) by (simp add: i [symmetric])
  then show ?thesis
    using run post node_log_step [OF rep post(1-3)]
    by (intro exI [of _ l'] exI [of _ s']) (simp add: on_log_def on_field_def ignore_result_def)
qed

lemma ae_truncate_step:
  assumes rep: "node_rep crc n s" and b: "log_budget (n_log n) (Suc b) m"
    and range: "rl_snapshot_index (n_log n) < i" "i \<le> last_index (n_log n)"
  shows "\<exists>l' s'. ignore_result (on_log (truncate_from crc i) (n, s)) = (Ok (), (n\<lparr>n_log := l'\<rparr>, s')) \<and>
    node_rep crc (n\<lparr>n_log := l'\<rparr>) s' \<and>
    rl_entries l' = take (unat i - unat (rl_snapshot_index (n_log n)) - 1) (rl_entries (n_log n)) \<and>
    rl_snapshot_index l' = rl_snapshot_index (n_log n) \<and>
    rl_snapshot_term l' = rl_snapshot_term (n_log n) \<and> log_budget l' b m"
proof -
  obtain l' s' where run: "truncate_from crc i (n_log n, s) = (Ok (), (l', s'))"
    and post: "raft_log_rep crc l' s'" "rl_config l' = rl_config (n_log n)" "same_outside (rl_dir (n_log n)) s s'"
      "rl_entries l' = take (unat i - unat (rl_snapshot_index (n_log n)) - 1) (rl_entries (n_log n))"
      "rl_snapshot_index l' = rl_snapshot_index (n_log n)" "rl_snapshot_term l' = rl_snapshot_term (n_log n)" "log_budget l' b m"
    using log_truncate_step [OF _ b range] node_rep_log [OF rep] by blast
  then show ?thesis
    using run post node_log_step [OF rep post(1-3)]
    by (intro exI [of _ l'] exI [of _ s']) (simp add: on_log_def on_field_def ignore_result_def)
qed

text \<open>One entry: kept, appended, or put in place of the rest of the log.\<close>

definition place :: "nat \<Rightarrow> log_entry \<Rightarrow> log_entry list \<Rightarrow> log_entry list" where
  "place k e xs = (if k < length xs then (if le_term (xs ! k) = le_term e then xs else take k xs @ [e]) else xs @ [e])"

lemma merge_place: "merge k (e # es) xs = merge (Suc k) es (place k e xs)"
  by (simp add: place_def)

lemma log_budget_mono: "log_budget l k m \<Longrightarrow> j \<le> k \<Longrightarrow> log_budget l j m"
  by (auto simp: log_budget_def wal_budget_def)

lemma term_at_offset:
  assumes "log_wf l" and "unat i = unat (rl_snapshot_index l) + 1 + k"
  shows "term_at l i = (if k < length (rl_entries l) then Some (le_term (rl_entries l ! k)) else None)"
proof -
  have "i \<noteq> 0" "i \<noteq> rl_snapshot_index l" using assms(2) by auto
  then show ?thesis
    using assms by (simp add: term_at_spec log_map_def get_entry_def)
qed

lemma ae_entry_rep:
  assumes rep: "node_rep crc n s" and b: "log_budget (n_log n) (b + 2) m" and d: "17 + length (le_data e) \<le> m"
    and i: "unat (le_index e) = unat (rl_snapshot_index (n_log n)) + 1 + k" and k: "k \<le> length (rl_entries (n_log n))"
  shows "\<exists>l' s'. ae_entry crc e (n, s) = (Ok (), (n\<lparr>n_log := l'\<rparr>, s')) \<and> node_rep crc (n\<lparr>n_log := l'\<rparr>) s' \<and>
    rl_entries l' = place k e (rl_entries (n_log n)) \<and> rl_snapshot_index l' = rl_snapshot_index (n_log n) \<and>
    rl_snapshot_term l' = rl_snapshot_term (n_log n) \<and> log_budget l' b m"
proof -
  let ?l = "n_log n" and ?xs = "rl_entries (n_log n)"
  have wf: "log_wf ?l" and eq: "n\<lparr>n_log := ?l\<rparr> = n" using node_rep_log [OF rep] by simp_all
  note ta = term_at_offset [OF wf i]
  have li: "unat (last_index ?l) = unat (rl_snapshot_index ?l) + length ?xs" and nw: "unat (last_index ?l) + 1 < 2 ^ 64"
    using log_wf_last_index [OF wf] b by (simp_all add: log_budget_def)
  consider (same) "k < length ?xs" "le_term (?xs ! k) = le_term e"
    | (conflict) "k < length ?xs" "le_term (?xs ! k) \<noteq> le_term e" | (new) "k = length ?xs"
    using k by fastforce
  then show ?thesis
  proof cases
    case same
    then have "ae_entry crc e (n, s) = (Ok (), (n\<lparr>n_log := ?l\<rparr>, s))" by (simp add: ae_entry_def ta)
    then show ?thesis
      using same rep log_budget_mono [OF b] by (intro exI [of _ ?l] exI [of _ s]) (simp add: place_def)
  next
    case conflict
    have range: "rl_snapshot_index ?l < le_index e" "le_index e \<le> last_index ?l"
      using i li conflict(1) by (simp_all add: u64_order)
    have b2: "log_budget ?l (Suc (Suc b)) m" using b by simp
    obtain l1 s1 where t: "ignore_result (on_log (truncate_from crc (le_index e)) (n, s)) = (Ok (), (n\<lparr>n_log := l1\<rparr>, s1))"
      and r1: "node_rep crc (n\<lparr>n_log := l1\<rparr>) s1" "rl_entries l1 = take k ?xs"
        "rl_snapshot_index l1 = rl_snapshot_index ?l" "rl_snapshot_term l1 = rl_snapshot_term ?l" "log_budget l1 (Suc b) m"
      using ae_truncate_step [OF rep b2 range] i by auto
    have "unat (last_index l1) = unat (rl_snapshot_index ?l) + k"
      using r1 conflict(1) node_rep_log [OF r1(1)] by (simp add: log_wf_last_index)
    then have "le_index e = last_index l1 + 1"
      using i nw li conflict(1) by (simp add: u64_eq_iff u64_arith)
    then obtain l2 s2 where a: "ignore_result (on_log (raft_log_append crc (le_term e) (le_data e)) (n\<lparr>n_log := l1\<rparr>, s1)) =
        (Ok (), (n\<lparr>n_log := l2\<rparr>, s2))" "node_rep crc (n\<lparr>n_log := l2\<rparr>) s2" "rl_entries l2 = take k ?xs @ [e]"
        "rl_snapshot_index l2 = rl_snapshot_index ?l" "rl_snapshot_term l2 = rl_snapshot_term ?l" "log_budget l2 b m"
      using ae_append_step [OF r1(1), of b m e] r1 d by auto
    have "ae_entry crc e (n, s) = (Ok (), (n\<lparr>n_log := l2\<rparr>, s2))"
      using conflict t a(1) by (simp add: ae_entry_def ta)
    then show ?thesis using a conflict by (intro exI [of _ l2] exI [of _ s2]) (simp add: place_def)
  next
    case new
    have b1: "log_budget ?l (Suc b) m" by (rule log_budget_mono [OF b]) simp
    have "le_index e = last_index ?l + 1"
      using i nw li new by (simp add: u64_eq_iff u64_arith)
    from ae_append_step [OF rep b1 d this] show ?thesis
      using new by (simp add: ae_entry_def ta place_def)
  qed
qed

lemma length_place: "k \<le> length xs \<Longrightarrow> Suc k \<le> length (place k e xs)"
  by (auto simp: place_def)

lemma ae_loop_rep:
  assumes "node_rep crc n s" and "log_budget (n_log n) (2 * length es + b) m" and "\<forall>e \<in> set es. 17 + length (le_data e) \<le> m"
    and "\<forall>j < length es. unat (le_index (es ! j)) = unat (rl_snapshot_index (n_log n)) + 1 + k + j"
    and "k \<le> length (rl_entries (n_log n))"
  shows "\<exists>l' s'. ae_loop crc es (n, s) = (Ok (), (n\<lparr>n_log := l'\<rparr>, s')) \<and> node_rep crc (n\<lparr>n_log := l'\<rparr>) s' \<and>
    rl_entries l' = merge k es (rl_entries (n_log n)) \<and> rl_snapshot_index l' = rl_snapshot_index (n_log n) \<and>
    rl_snapshot_term l' = rl_snapshot_term (n_log n) \<and> log_budget l' b m"
  using assms
proof (induction es arbitrary: n s k)
  case Nil
  have "n\<lparr>n_log := n_log n\<rparr> = n" by simp
  with Nil show ?case by (intro exI [of _ "n_log n"] exI [of _ s]) simp
next
  case (Cons e es)
  have b: "log_budget (n_log n) ((2 * length es + b) + 2) m"
    using Cons.prems(2) by (simp add: algebra_simps)
  have i: "unat (le_index e) = unat (rl_snapshot_index (n_log n)) + 1 + k" using Cons.prems(4) by fastforce
  obtain l1 s1 where a: "ae_entry crc e (n, s) = (Ok (), (n\<lparr>n_log := l1\<rparr>, s1))" "node_rep crc (n\<lparr>n_log := l1\<rparr>) s1"
      "rl_entries l1 = place k e (rl_entries (n_log n))" "rl_snapshot_index l1 = rl_snapshot_index (n_log n)"
      "rl_snapshot_term l1 = rl_snapshot_term (n_log n)" "log_budget l1 (2 * length es + b) m"
    using ae_entry_rep [OF Cons.prems(1) b _ i Cons.prems(5)] Cons.prems(3) by auto
  have "\<forall>j < length es. unat (le_index (es ! j)) = unat (rl_snapshot_index (n_log n)) + 1 + Suc k + j"
    using Cons.prems(4) by (auto dest: spec [of _ "Suc j" for j])
  then obtain l2 s2 where "ae_loop crc es (n\<lparr>n_log := l1\<rparr>, s1) = (Ok (), (n\<lparr>n_log := l2\<rparr>, s2))"
      "node_rep crc (n\<lparr>n_log := l2\<rparr>) s2" "rl_entries l2 = merge (Suc k) es (rl_entries l1)"
      "rl_snapshot_index l2 = rl_snapshot_index l1" "rl_snapshot_term l2 = rl_snapshot_term l1" "log_budget l2 b m"
    using Cons.IH [OF a(2), of "Suc k"] a Cons.prems(3) length_place [OF Cons.prems(5)] by auto
  then show ?case
    using a by (intro exI [of _ l2] exI [of _ s2]) (simp add: merge_place del: merge.simps)
qed

section \<open>The handler of AppendEntries\<close>

text \<open>The state after rules 1 and 2: the leader's term, and a follower of this leader.\<close>

definition in_term :: "u64 \<Rightarrow> raft_node \<Rightarrow> raft_node" where
  "in_term t n = (if n_term n < t then n\<lparr>n_ps := (n_ps n)\<lparr>ps_current_term := t, ps_voted_for := None\<rparr>\<rparr> else n)"

definition followed :: "env \<Rightarrow> u64 \<Rightarrow> string \<Rightarrow> raft_node \<Rightarrow> raft_node" where
  "followed env t leader n = become_follower_with_leader env (Some leader) (in_term t n)"

lemma in_term_simps [simp]:
  "n_log (in_term t n) = n_log n" "n_config (in_term t n) = n_config n" "n_commit_index (in_term t n) = n_commit_index n"
  "n_data_dir (in_term t n) = n_data_dir n" "n_snapshot (in_term t n) = n_snapshot n" "n_role (in_term t n) = n_role n"
  "n_id (in_term t n) = n_id n" "n_peers (in_term t n) = n_peers n" "n_snapshot_trigger (in_term t n) = n_snapshot_trigger n"
  "n_term (in_term t n) = max (n_term n) t"
  by (auto simp: in_term_def max_def)

lemma followed_simps [simp]:
  "n_log (followed env t ld n) = n_log n" "n_config (followed env t ld n) = n_config n"
  "n_commit_index (followed env t ld n) = n_commit_index n" "n_data_dir (followed env t ld n) = n_data_dir n"
  "n_snapshot (followed env t ld n) = n_snapshot n" "n_role (followed env t ld n) = Follower"
  "n_id (followed env t ld n) = n_id n" "n_peers (followed env t ld n) = n_peers n"
  "n_snapshot_trigger (followed env t ld n) = n_snapshot_trigger n" "n_ps (followed env t ld n) = n_ps (in_term t n)"
  "n_current_leader (followed env t ld n) = Some ld" "n_term (followed env t ld n) = max (n_term n) t"
  by (simp_all add: followed_def become_follower_with_leader_def)

lemma node_in_term:
  assumes "node_rep crc n s"
  shows "\<exists>s'. (if n_term n < t then ignore_result (on_ps (advance_term t) (n, s)) else (Ok (), (n, s))) =
      (Ok (), (in_term t n, s')) \<and> node_rep crc (in_term t n) s'"
  using assms node_advance_term [OF assms, of t] by (simp add: in_term_def)

lemma node_followed:
  assumes "node_rep crc n s"
  shows "\<exists>s'. (if n_term n < t then ignore_result (on_ps (advance_term t) (n, s)) else (Ok (), (n, s))) =
      (Ok (), (in_term t n, s')) \<and> node_rep crc (followed env t ld n) s'"
proof -
  obtain s' where s': "(if n_term n < t then ignore_result (on_ps (advance_term t) (n, s)) else (Ok (), (n, s))) =
      (Ok (), (in_term t n, s'))" "node_rep crc (in_term t n) s'"
    using node_in_term [OF assms, of t] by blast
  have "node_rep crc (followed env t ld n) s'"
    by (rule node_rep_cong [OF s'(2)]) simp_all
  with s'(1) show ?thesis by blast
qed

definition committed :: "u64 \<Rightarrow> raft_node \<Rightarrow> raft_node" where
  "committed leader_commit n =
     (if n_commit_index n < leader_commit
      then n\<lparr>n_commit_index := min leader_commit (last_index (n_log n))\<rparr> else n)"

lemma committed_simps [simp]:
  "n_log (committed c n) = n_log n" "n_ps (committed c n) = n_ps n" "n_role (committed c n) = n_role n"
  by (simp_all add: committed_def)

lemma ae_consistency_cong: "n_log n' = n_log n \<Longrightarrow> ae_consistency req n' = None \<longleftrightarrow> ae_consistency req n = None"
  by (auto simp: ae_consistency_def split: option.splits)

lemma node_rep_role: "node_rep crc n s \<Longrightarrow> node_rep crc (n\<lparr>n_role := r\<rparr>) s"
  by (simp add: node_rep_def)

text \<open>A request of the current or a later term whose previous entry matches: the log is merged with
  the request's entries, in memory and on disk.\<close>

lemma on_append_entries_rep:
  assumes rep: "node_rep crc n s" and t: "n_term n \<le> ae_term req"
    and cons: "ae_consistency req n = None" and snap: "rl_snapshot_index (n_log n) \<le> ae_prev_log_index req"
    and num: "numbered_from (ae_prev_log_index req) (ae_entries req)"
    and b: "log_budget (n_log n) (2 * length (ae_entries req)) m" and d: "\<forall>e \<in> set (ae_entries req). 17 + length (le_data e) \<le> m"
  defines "k \<equiv> unat (ae_prev_log_index req) - unat (rl_snapshot_index (n_log n))"
  shows "\<exists>l' s'. on_append_entries crc env req (n, s) =
      (Ok \<lparr>aer_term = ae_term req, aer_success = True, aer_conflict_index = 0, aer_conflict_term = 0\<rparr>,
        (committed (ae_leader_commit req) (followed env (ae_term req) (ae_leader_id req) n\<lparr>n_log := l'\<rparr>), s')) \<and>
    node_rep crc (committed (ae_leader_commit req) (followed env (ae_term req) (ae_leader_id req) n\<lparr>n_log := l'\<rparr>)) s' \<and>
    rl_entries l' = merge k (ae_entries req) (rl_entries (n_log n)) \<and>
    rl_snapshot_index l' = rl_snapshot_index (n_log n) \<and> rl_snapshot_term l' = rl_snapshot_term (n_log n) \<and>
    k \<le> length (rl_entries (n_log n))"
proof -
  let ?n = "followed env (ae_term req) (ae_leader_id req) n"
  have wf: "log_wf (n_log n)" using node_rep_log [OF rep] by simp
  have ku: "unat (ae_prev_log_index req) = unat (rl_snapshot_index (n_log n)) + k"
    using snap by (simp add: k_def u64_order)
  have k: "k \<le> length (rl_entries (n_log n))"
  proof (cases k)
    case (Suc j)
    then have "ae_prev_log_index req \<noteq> 0" and "unat (ae_prev_log_index req) = unat (rl_snapshot_index (n_log n)) + 1 + j"
      using ku by auto
    then show ?thesis
      using cons term_at_offset [OF wf, of "ae_prev_log_index req" j] Suc
      by (auto simp: ae_consistency_def word_gt_0 split: option.splits if_splits)
  qed simp
  obtain s1 where s1: "(if n_term n < ae_term req then ignore_result (on_ps (advance_term (ae_term req)) (n, s)) else (Ok (), (n, s))) =
      (Ok (), (in_term (ae_term req) n, s1))" "node_rep crc ?n s1"
    using node_followed [OF rep] by blast
  have num': "\<forall>j < length (ae_entries req).
      unat (le_index (ae_entries req ! j)) = unat (rl_snapshot_index (n_log ?n)) + 1 + k + j"
    using num ku by (simp add: numbered_from_def)
  obtain l' s' where lp: "ae_loop crc (ae_entries req) (?n, s1) = (Ok (), (?n\<lparr>n_log := l'\<rparr>, s'))"
    "node_rep crc (?n\<lparr>n_log := l'\<rparr>) s'" "rl_entries l' = merge k (ae_entries req) (rl_entries (n_log n))"
    "rl_snapshot_index l' = rl_snapshot_index (n_log n)" "rl_snapshot_term l' = rl_snapshot_term (n_log n)"
    using ae_loop_rep [OF s1(2) _ d num', of 0] b k by auto
  have "ae_consistency req ?n = None"
    using cons ae_consistency_cong [of ?n n req] by simp
  then have "on_append_entries crc env req (n, s) =
      (Ok \<lparr>aer_term = ae_term req, aer_success = True, aer_conflict_index = 0, aer_conflict_term = 0\<rparr>,
        (committed (ae_leader_commit req) (?n\<lparr>n_log := l'\<rparr>), s'))"
    using t s1(1) lp(1)
    by (simp add: on_append_entries_def not_less followed_def [symmetric] committed_def Let_def max_absorb2)
  moreover have "node_rep crc (committed (ae_leader_commit req) (?n\<lparr>n_log := l'\<rparr>)) s'"
    by (rule node_rep_cong [OF lp(2)]) (simp_all add: committed_def)
  ultimately show ?thesis using lp(3-5) k by blast
qed

text \<open>Where the previous entry does not match, the log is untouched and the answer says where to go on.\<close>

lemma on_append_entries_mismatch:
  assumes rep: "node_rep crc n s" and t: "n_term n \<le> ae_term req"
    and cons: "ae_consistency req (followed env (ae_term req) (ae_leader_id req) n) = Some resp"
  shows "\<exists>s'. on_append_entries crc env req (n, s) = (Ok resp, (followed env (ae_term req) (ae_leader_id req) n, s')) \<and>
    node_rep crc (followed env (ae_term req) (ae_leader_id req) n) s'"
proof -
  let ?n = "followed env (ae_term req) (ae_leader_id req) n"
  obtain s1 where s1: "(if n_term n < ae_term req then ignore_result (on_ps (advance_term (ae_term req)) (n, s)) else (Ok (), (n, s))) =
      (Ok (), (in_term (ae_term req) n, s1))" "node_rep crc ?n s1"
    using node_followed [OF rep] by blast
  with t cons show ?thesis
    by (intro exI [of _ s1]) (simp add: on_append_entries_def not_less followed_def [symmetric])
qed

section \<open>The handler of RequestVote\<close>

definition grants :: "request_vote_request \<Rightarrow> raft_node \<Rightarrow> bool" where
  "grants req n \<longleftrightarrow> n_term n \<le> rv_term req \<and>
     (n_term n < rv_term req \<or> n_vote n = None \<or> n_vote n = Some (rv_candidate_id req)) \<and> log_ok req (n_log n)"

definition after_vote :: "env \<Rightarrow> request_vote_request \<Rightarrow> raft_node \<Rightarrow> raft_node" where
  "after_vote env req n =
     (let n1 = (if n_term n < rv_term req then in_term (rv_term req) n\<lparr>n_role := Follower\<rparr> else n)
      in if grants req n
         then n1\<lparr>n_ps := (n_ps n1)\<lparr>ps_voted_for := Some (rv_candidate_id req)\<rparr>, n_last_heartbeat := e_now env\<rparr>
         else n1)"

lemma on_request_vote_rep:
  assumes rep: "node_rep crc n s" and c: "name_ok (rv_candidate_id req)"
  shows "\<exists>s'. on_request_vote env req (n, s) =
      (Ok (rv_answer (after_vote env req n) (grants req n)), (after_vote env req n, s')) \<and>
    node_rep crc (after_vote env req n) s'"
proof -
  define n1 where "n1 = (if n_term n < rv_term req then in_term (rv_term req) n\<lparr>n_role := Follower\<rparr> else n)"
  obtain s1 where s1: "(if n_term n < rv_term req then
        and_then (ignore_result (on_ps (advance_term (rv_term req)) (n, s))) (\<lambda>_ (n, s). (Ok (), (n\<lparr>n_role := Follower\<rparr>, s)))
      else (Ok (), (n, s))) = (Ok (), (n1, s1))" "node_rep crc n1 s1"
    using node_in_term [OF rep, of "rv_term req"] rep node_rep_role by (auto simp: n1_def split: if_splits)
  have n1: "n_log n1 = n_log n" "n_term n1 = max (n_term n) (rv_term req)"
    "n_vote n1 = (if n_term n < rv_term req then None else n_vote n)"
    by (auto simp: n1_def in_term_def max_def)
  show ?thesis
  proof (cases "grants req n")
    case True
    obtain s2 where s2: "ignore_result (on_ps (record_vote (rv_candidate_id req)) (n1, s1)) =
        (Ok (), (n1\<lparr>n_ps := (n_ps n1)\<lparr>ps_voted_for := Some (rv_candidate_id req)\<rparr>\<rparr>, s2))"
      "node_rep crc (n1\<lparr>n_ps := (n_ps n1)\<lparr>ps_voted_for := Some (rv_candidate_id req)\<rparr>\<rparr>) s2"
      using node_record_vote [OF s1(2) c] by blast
    have "after_vote env req n = n1\<lparr>n_ps := (n_ps n1)\<lparr>ps_voted_for := Some (rv_candidate_id req)\<rparr>, n_last_heartbeat := e_now env\<rparr>"
      using True by (simp add: after_vote_def n1_def)
    moreover have "node_rep crc (n1\<lparr>n_ps := (n_ps n1)\<lparr>ps_voted_for := Some (rv_candidate_id req)\<rparr>, n_last_heartbeat := e_now env\<rparr>) s2"
      by (rule node_rep_cong [OF s2(2)]) simp_all
    moreover have "on_request_vote env req (n, s) = (Ok (rv_answer n2 True), (n2, s2))"
      if "n2 = n1\<lparr>n_ps := (n_ps n1)\<lparr>ps_voted_for := Some (rv_candidate_id req)\<rparr>, n_last_heartbeat := e_now env\<rparr>" for n2
      using True s1(1) s2(1) n1 that
      by (auto simp: on_request_vote_def grants_def Let_def max_def rv_answer_def split: option.split)
    ultimately show ?thesis using True by auto
  next
    case False
    have "after_vote env req n = n1" using False by (simp add: after_vote_def n1_def)
    moreover have "on_request_vote env req (n, s) = (Ok (rv_answer n1 False), (n1, s1))"
      using False s1(1) n1
      by (auto simp: on_request_vote_def grants_def Let_def max_def rv_answer_def split: option.split if_splits)
    ultimately show ?thesis using s1(2) False by auto
  qed
qed

end
