(* ===== verification/Leader.thy ===== *)
theory Leader
  imports Follower
begin

text \<open>
  The leader's side: what the requests hold, what acknowledgments a successful write rests on, and
  the end of a replication round, where a follower that accepted the leader's request has the
  leader's entries.
\<close>

section \<open>Requests\<close>

lemma saturating_sub_1: "0 < i \<Longrightarrow> unat (saturating_sub i 1) = unat i - 1"
  by (simp add: saturating_sub_def u64_order u64_arith)

text \<open>For a peer whose next index is past the snapshot the request carries exactly the entries from
  there to the new one, numbered consecutively, and names the leader's own previous entry.\<close>

lemma build_request:
  assumes wf: "log_wf (n_log n)" and nx: "rl_snapshot_index (n_log n) < next_for n p up"
  shows "\<exists>req. build_append_entries_for n p up = Ok req \<and> ae_term req = n_term n \<and> ae_leader_id req = n_id n \<and>
    ae_leader_commit req = n_commit_index n \<and>
    unat (ae_prev_log_index req) = unat (next_for n p up) - 1 \<and>
    ae_prev_log_term req = (case term_at (n_log n) (ae_prev_log_index req) of Some t \<Rightarrow> t | None \<Rightarrow> 0) \<and>
    ae_entries req = filter (\<lambda>e. next_for n p up \<le> le_index e \<and> le_index e \<le> up) (rl_entries (n_log n))"
  using saturating_sub_1 [of "next_for n p up"] nx
  by (simp add: build_append_entries_for_def Let_def entries_from_spec [OF wf] u64_order conj_commute)

text \<open>The entries of a range of indices are a piece of the list.\<close>

lemma filter_range:
  assumes wf: "log_wf l" and a: "rl_snapshot_index l < a"
  shows "filter (\<lambda>e. a \<le> le_index e \<and> le_index e \<le> b) (rl_entries l) =
    take (unat b + 1 - unat a) (drop (unat a - unat (rl_snapshot_index l) - 1) (rl_entries l))"
proof -
  let ?s = "unat (rl_snapshot_index l)" and ?xs = "rl_entries l"
  let ?j = "unat a - ?s - 1" and ?m = "unat b + 1 - unat a"
  have idx: "unat (le_index (?xs ! i)) = ?s + 1 + i" if "i < length ?xs" for i
    using wf that by (simp add: log_wf_def)
  have sa: "?s < unat a" using a by (simp add: u64_order)
  have "filter (\<lambda>e. a \<le> le_index e \<and> le_index e \<le> b) ?xs =
      filter (\<lambda>e. a \<le> le_index e \<and> le_index e \<le> b) (take ?j ?xs) @
      filter (\<lambda>e. a \<le> le_index e \<and> le_index e \<le> b) (take ?m (drop ?j ?xs)) @
      filter (\<lambda>e. a \<le> le_index e \<and> le_index e \<le> b) (drop ?m (drop ?j ?xs))"
    by (metis append_take_drop_id filter_append)
  moreover have "filter (\<lambda>e. a \<le> le_index e \<and> le_index e \<le> b) (take ?j ?xs) = []"
    using sa by (auto simp: filter_empty_conv in_set_conv_nth u64_order idx)
  moreover have "filter (\<lambda>e. a \<le> le_index e \<and> le_index e \<le> b) (take ?m (drop ?j ?xs)) = take ?m (drop ?j ?xs)"
    using sa by (auto simp: filter_id_conv in_set_conv_nth u64_order idx)
  moreover have "unat b < unat (le_index e)" if mem: "e \<in> set (drop ?m (drop ?j ?xs))" for e
  proof -
    obtain i where i: "i < length (drop (?m + ?j) ?xs)" "drop (?m + ?j) ?xs ! i = e"
      using mem unfolding drop_drop in_set_conv_nth by blast
    have le: "?m + ?j + i < length ?xs" using i(1) unfolding length_drop by linarith
    then have "e = ?xs ! (?m + ?j + i)" using i(2) nth_drop [of "?m + ?j" ?xs i] by simp
    then have "unat (le_index e) = ?s + 1 + (?m + ?j + i)" using idx [OF le] by (simp only:)
    with sa show ?thesis by linarith
  qed
  then have "filter (\<lambda>e. a \<le> le_index e \<and> le_index e \<le> b) (drop ?m (drop ?j ?xs)) = []"
    by (fastforce simp: filter_empty_conv u64_order)
  ultimately show ?thesis by simp
qed

lemma request_numbered:
  assumes wf: "log_wf l" and a: "rl_snapshot_index l < a" and p: "unat p = unat a - 1"
  shows "numbered_from p (filter (\<lambda>e. a \<le> le_index e \<and> le_index e \<le> b) (rl_entries l))"
  unfolding filter_range [OF wf a] numbered_from_def
  using wf a p by (auto simp: log_wf_def u64_order)

section \<open>Acknowledgments\<close>

fun successes :: "(string \<times> append_entries_response) list \<Rightarrow> nat" where
  "successes [] = 0"
| "successes ((p, resp) # rs) = (if aer_success resp then 1 else 0) + successes rs"

fun snap_successes :: "(string \<times> install_snapshot_response option) list \<Rightarrow> nat" where
  "snap_successes [] = 0"
| "snap_successes ((p, r) # rs) = (case r of Some resp \<Rightarrow> if isr_success resp then 1 else 0 | None \<Rightarrow> 0) + snap_successes rs"

lemma ae_acks_bound:
  "ae_acks env up rs acks ns = (Ok (ret, a), ns') \<Longrightarrow> a \<le> acks + successes rs"
proof (induction env up rs acks ns rule: ae_acks.induct)
  case (2 env up peer_id resp rs acks n s)
  then show ?case
    by (auto simp: and_then_Ok_iff split: if_splits)
qed simp

lemma snap_acks_bound:
  "snap_acks env rs acks ns = (Ok a, ns') \<Longrightarrow> a \<le> acks + snap_successes rs"
proof (induction env rs acks ns rule: snap_acks.induct)
  case (3 env peer_id resp rs acks n s)
  then show ?case
    by (auto simp: and_then_Ok_iff Let_def split: if_splits)
qed auto

text \<open>Whether peer \<open>p\<close> acknowledged the request that it was sent.\<close>

definition acked :: "network \<Rightarrow> raft_node \<Rightarrow> u64 \<Rightarrow> node_info \<Rightarrow> bool" where
  "acked net n up p =
     (case snapshot_for n (ni_id p) up of
        Some sn \<Rightarrow> (case net_install_snapshot net p (install_request n sn) of Some resp \<Rightarrow> isr_success resp | None \<Rightarrow> False)
      | None \<Rightarrow>
          (case build_append_entries_for n (ni_id p) up of
             Ok req \<Rightarrow> (case net_append_entries net p req of Some resp \<Rightarrow> aer_success resp | None \<Rightarrow> False)
           | _ \<Rightarrow> False))"

lemma peer_requests_acked:
  "peer_requests n up ps = Ok (aes, snaps) \<Longrightarrow>
   successes (map (\<lambda>(p, req). (ni_id p, case net_append_entries net p req of Some resp \<Rightarrow> resp | None \<Rightarrow> ae_failed)) aes) +
   snap_successes (map (\<lambda>(p, req). (ni_id p, net_install_snapshot net p req)) snaps) =
   length (filter (acked net n up) ps)"
proof (induction ps arbitrary: aes snaps)
  case (Cons p ps)
  show ?case
  proof (cases "snapshot_for n (ni_id p) up")
    case (Some sn)
    then obtain snaps' where r: "peer_requests n up ps = Ok (aes, snaps')" "snaps = (p, install_request n sn) # snaps'"
      using Cons.prems by (auto split: res.splits)
    show ?thesis
      using Cons.IH [OF r(1)] Some by (simp add: r(2) acked_def split: option.split)
  next
    case None
    then obtain req aes' where r: "build_append_entries_for n (ni_id p) up = Ok req" "peer_requests n up ps = Ok (aes', snaps)"
      "aes = (p, req) # aes'"
      using Cons.prems by (auto split: res.splits)
    show ?thesis
      using Cons.IH [OF r(2)] None r(1) by (simp add: r(3) acked_def ae_failed_def split: option.split)
  qed
qed simp

lemma replicate_acked:
  assumes "replicate_to_peers env net up (n, s) = (Ok a, ns')"
  shows "a \<le> 1 + length (filter (acked net n up) (n_peers n))"
proof -
  obtain aes snaps where pr: "peer_requests n up (n_peers n) = Ok (aes, snaps)"
    using assms by (auto simp: replicate_to_peers_def split: res.splits)
  let ?ar = "map (\<lambda>(p, req). (ni_id p, case net_append_entries net p req of Some resp \<Rightarrow> resp | None \<Rightarrow> ae_failed)) aes"
  let ?sr = "map (\<lambda>(p, req). (ni_id p, net_install_snapshot net p req)) snaps"
  obtain ret b ns1 where a1: "ae_acks env up ?ar 1 (n, s) = (Ok (ret, b), ns1)"
    and a2: "(if ret then (Ok b, ns1) else snap_acks env ?sr b ns1) = (Ok a, ns')"
    using assms pr by (auto simp: replicate_to_peers_def Let_def and_then_Ok_iff)
  have "a \<le> b + snap_successes ?sr"
    using a2 snap_acks_bound [of env ?sr b ns1 a ns'] by (auto split: if_splits)
  moreover have "b \<le> 1 + successes ?ar" by (rule ae_acks_bound [OF a1])
  ultimately show ?thesis
    using peer_requests_acked [OF pr, of net] by linarith
qed

text \<open>The configuration and the peers are those the node was started with.\<close>

definition configured :: "cluster_config \<Rightarrow> node_info list \<Rightarrow> raft_node \<times> fs \<Rightarrow> bool" where
  "configured c ps = (\<lambda>(n, s). n_config n = c \<and> n_peers n = ps)"

lemma configured_simp [simp]: "configured c ps (n, s) \<longleftrightarrow> n_config n = c \<and> n_peers n = ps"
  by (simp add: configured_def)

lemma on_ps_configured: "configured c ps ns \<Longrightarrow> outcome (configured c ps) (\<lambda>_. True) (ignore_result (on_ps m ns))"
  by (cases ns) (auto simp: on_ps_def on_field_def ignore_result_def outcome_def split: prod.split res.splits)

lemma on_log_configured: "configured c ps ns \<Longrightarrow> outcome (configured c ps) (\<lambda>_. True) (on_log m ns)"
  by (cases ns) (auto simp: on_log_def on_field_def outcome_def split: prod.split)

lemma step_down_configured: "configured c ps (n, s) \<Longrightarrow> outcome (configured c ps) (\<lambda>_. True) (step_down env t (n, s))"
  unfolding step_down_def
  by (auto intro!: outcome_and_then [OF on_ps_configured] simp: become_follower_with_leader_def)

lemma ae_acks_configured: "configured c ps ns \<Longrightarrow> outcome (configured c ps) (\<lambda>_. True) (ae_acks env up rs acks ns)"
proof (induction env up rs acks ns rule: ae_acks.induct)
  case (2 env up peer_id resp rs acks n s)
  then show ?case
    by (auto intro!: outcome_and_then [OF step_down_configured])
qed simp

lemma snap_acks_configured: "configured c ps ns \<Longrightarrow> outcome (configured c ps) (\<lambda>_. True) (snap_acks env rs acks ns)"
proof (induction env rs acks ns rule: snap_acks.induct)
  case (3 env peer_id resp rs acks n s)
  then show ?case
    by (auto simp: Let_def intro!: outcome_and_then [OF step_down_configured])
qed simp_all

lemma replicate_configured:
  "configured c ps ns \<Longrightarrow> outcome (configured c ps) (\<lambda>_. True) (replicate_to_peers env net up ns)"
  by (cases ns) (auto simp: replicate_to_peers_def Let_def
      intro!: outcome_and_then [OF ae_acks_configured] snap_acks_configured split: res.split)

text \<open>A write that reports success was appended by a leader and acknowledged by a quorum, the leader
  included; it is then the commit index.\<close>

lemma on_client_write_ok:
  assumes run: "on_client_write crc env net dat (n, s) = (Ok i, (n', s'))"
  shows "n_role n = Leader \<and> i = last_index (n_log n) + 1 \<and>
    (\<exists>n1 s1. on_log (raft_log_append crc (n_term n) dat) (n, s) = (Ok i, (n1, s1)) \<and>
       quorum (n_config n) \<le> 1 + length (filter (acked net n1 i) (n_peers n)))"
proof -
  have lead: "n_role n = Leader" using run by (auto simp: on_client_write_def split: if_splits)
  obtain j n1 s1 where a: "on_log (raft_log_append crc (n_term n) dat) (n, s) = (Ok j, (n1, s1))"
    and k: "and_then (replicate_to_peers env net j (n1, s1)) (\<lambda>acks (n, s).
         if acks < quorum (n_config n) then (Err QuorumNotReached, (n, s))
         else
           let n = n\<lparr>n_commit_index := j, n_entries_since_snapshot := n_entries_since_snapshot n + 1\<rparr>
           in and_then (if n_snapshot_trigger n \<le> n_entries_since_snapshot n
                        then ignore_result (take_snapshot crc (n, s)) else (Ok (), (n, s)))
                (\<lambda>_ ns. (Ok j, ns))) = (Ok i, (n', s'))"
    using run lead by (auto simp: on_client_write_def and_then_Ok_iff)
  obtain acks n2 s2 where r: "replicate_to_peers env net j (n1, s1) = (Ok acks, (n2, s2))"
    and q: "quorum (n_config n2) \<le> acks" and ij: "i = j"
    using k by (auto simp: and_then_Ok_iff Let_def split: if_splits)
  have c1: "configured (n_config n) (n_peers n) (n1, s1)"
    using on_log_configured [of "n_config n" "n_peers n" "(n, s)" "raft_log_append crc (n_term n) dat"] a
    by (simp add: outcome_def)
  have c2: "configured (n_config n) (n_peers n) (n2, s2)"
    using replicate_configured [OF c1, of env net j] r by (simp add: outcome_def)
  have "i = last_index (n_log n) + 1"
    using a ij by (auto simp: on_log_def on_field_def raft_log_append_def Let_def and_then_Ok_iff split: prod.splits)
  moreover have "quorum (n_config n) \<le> 1 + length (filter (acked net n1 i) (n_peers n))"
    using replicate_acked [OF r] q c1 c2 ij by simp
  ultimately show ?thesis using lead a ij by blast
qed

text \<open>Who is not the leader says whom it takes for one, and does nothing.\<close>

lemma on_client_write_not_leader:
  "n_role n \<noteq> Leader \<Longrightarrow> on_client_write crc env net dat (n, s) = (Err (NotLeader (n_current_leader n)), (n, s))"
  by (simp add: on_client_write_def)

section \<open>A round of replication\<close>

text \<open>If the follower \<open>f\<close> accepts the request that the leader \<open>l\<close> built for it, and their entries of one
  index and one term are the same, then it has the leader's entries up to the new one.\<close>

lemma replication_round:
  assumes lead: "log_wf (n_log l)" "rl_snapshot_index (n_log l) < next_for l p up" "next_for l p up \<le> up + 1" "up < up + 1"
    and req: "build_append_entries_for l p up = Ok req"
    and rep: "node_rep crc f s" and t: "n_term f \<le> n_term l" and cons: "ae_consistency req f = None"
    and snap: "rl_snapshot_index (n_log f) < next_for l p up"
    and budget: "log_budget (n_log f) (2 * length (ae_entries req)) m" "\<forall>e \<in> set (ae_entries req). 17 + length (le_data e) \<le> m"
    and matching: "\<And>i e e'. log_map (n_log l) i = Some e \<Longrightarrow> log_map (n_log f) i = Some e' \<Longrightarrow> le_term e = le_term e' \<Longrightarrow> e = e'"
  shows "\<exists>resp f' s'. on_append_entries crc env req (f, s) = (Ok resp, (f', s')) \<and> aer_success resp \<and> node_rep crc f' s' \<and>
    (\<forall>i. unat (next_for l p up) \<le> i \<longrightarrow> i \<le> unat up \<longrightarrow> log_map (n_log l) i \<noteq> None \<longrightarrow> log_map (n_log f') i = log_map (n_log l) i)"
proof -
  let ?a = "next_for l p up" and ?sl = "unat (rl_snapshot_index (n_log l))" and ?sf = "unat (rl_snapshot_index (n_log f))"
  let ?xl = "rl_entries (n_log l)" and ?xf = "rl_entries (n_log f)" and ?es = "ae_entries req"
  from build_request [OF lead(1,2)] req have r: "ae_term req = n_term l"
    "unat (ae_prev_log_index req) = unat ?a - 1" "?es = filter (\<lambda>e. ?a \<le> le_index e \<and> le_index e \<le> up) ?xl"
    by auto
  have es: "?es = take (unat up + 1 - unat ?a) (drop (unat ?a - ?sl - 1) ?xl)"
    using r(3) filter_range [OF lead(1,2)] by simp
  have ul: "?sl < unat ?a" "?sf < unat ?a" using lead(2) snap by (simp_all add: u64_order)
  let ?k = "unat (ae_prev_log_index req) - ?sf"
  have k: "?k = unat ?a - 1 - ?sf" by (simp add: r(2))
  have num: "numbered_from (ae_prev_log_index req) ?es"
    unfolding r(3) by (rule request_numbered [OF lead(1,2) r(2)])
  have pre: "rl_snapshot_index (n_log f) \<le> ae_prev_log_index req" using ul r(2) by (simp add: u64_order)
  have tt: "n_term f \<le> ae_term req" using t r(1) by simp
  obtain l' s' where run: "on_append_entries crc env req (f, s) =
      (Ok \<lparr>aer_term = ae_term req, aer_success = True, aer_conflict_index = 0, aer_conflict_term = 0\<rparr>,
        (committed (ae_leader_commit req) (followed env (ae_term req) (ae_leader_id req) f\<lparr>n_log := l'\<rparr>), s'))"
    and rep': "node_rep crc (committed (ae_leader_commit req) (followed env (ae_term req) (ae_leader_id req) f\<lparr>n_log := l'\<rparr>)) s'"
    and l': "rl_entries l' = merge ?k ?es ?xf" "rl_snapshot_index l' = rl_snapshot_index (n_log f)" "?k \<le> length ?xf"
    using on_append_entries_rep [OF rep tt cons pre num budget] by blast
  have at: "?es ! i = ?xl ! (unat ?a - ?sl - 1 + i)" if "i < length ?es" for i
  proof -
    have "i < length (drop (unat ?a - ?sl - 1) ?xl)" using that by (simp add: es)
    then have "unat ?a - ?sl - 1 \<le> length ?xl" by simp
    then show ?thesis using that by (simp add: es)
  qed
  have same: "same_entries ?k ?es ?xf"
    unfolding same_entries_def
  proof (intro allI impI)
    fix i assume i: "i < length ?es" "?k + i < length ?xf" "le_term (?xf ! (?k + i)) = le_term (?es ! i)"
    have "log_map (n_log l) (unat ?a + i) = Some (?es ! i)"
    proof -
      have "unat ?a - ?sl - 1 + i < length ?xl" using i(1) by (simp add: es) linarith
      then show ?thesis using ul at [OF i(1)] by (simp add: log_map_def get_entry_def)
    qed
    moreover have "log_map (n_log f) (unat ?a + i) = Some (?xf ! (?k + i))"
      using i(2) ul k by (simp add: log_map_def get_entry_def)
    ultimately show "?xf ! (?k + i) = ?es ! i" using matching i(3) by fastforce
  qed
  have agree: "take (?k + length ?es) (rl_entries l') = take ?k ?xf @ ?es"
    unfolding l'(1) by (rule merge_agrees [OF l'(3) same])
  have "log_map l' i = log_map (n_log l) i"
    if i: "unat ?a \<le> i" "i \<le> unat up" "log_map (n_log l) i \<noteq> None" for i
  proof -
    let ?j = "i - unat ?a"
    have il: "i - ?sl - 1 < length ?xl" using i ul by (auto simp: log_map_def get_entry_def split: if_splits)
    then have j: "?j < length ?es" using i ul by (simp add: es) linarith
    have "unat ?a - ?sl - 1 + ?j = i - ?sl - 1" using i(1) ul by linarith
    then have "?es ! ?j = ?xl ! (i - ?sl - 1)" using at [OF j] by (simp only:)
    then have "log_map (n_log l) i = Some (?es ! ?j)"
      using i(1) ul il by (simp add: log_map_def get_entry_def)
    moreover have "rl_entries l' ! (?k + ?j) = ?es ! ?j" and "?k + ?j < length (rl_entries l')"
    proof -
      have "length (take (?k + length ?es) (rl_entries l')) = ?k + length ?es"
        unfolding agree using l'(3) by simp
      then show "?k + ?j < length (rl_entries l')" using j by simp
      have "take (?k + length ?es) (rl_entries l') ! (?k + ?j) = ?es ! ?j"
        unfolding agree using l'(3) by (simp add: nth_append)
      then show "rl_entries l' ! (?k + ?j) = ?es ! ?j" using j by simp
    qed
    moreover have "?k + ?j = i - ?sf - 1" using i ul k by simp
    ultimately show ?thesis
      using i(1) ul l'(2) by (simp add: log_map_def get_entry_def)
  qed
  with run rep' show ?thesis by fastforce
qed

end
