(* ===== verification/Compaction.thy ===== *)
theory Compaction
  imports Leader
begin

text \<open>
  Snapshots at the level of the node: \<open>take_snapshot\<close> on the leader and \<open>on_install_snapshot\<close> on a
  lagging follower. Both save the file first and then compact the log; what a restart finds is what
  they left in memory, if the WAL drops only records that the snapshot covers (\<open>snapshot_safe\<close>).
\<close>

lemma snapshot_safe_frame:
  assumes rep: "raft_log_rep crc l s" and h: "healthy s'" "wf_fs s'"
    and fr: "\<And>p. butlast p = rl_dir l \<Longrightarrow> fs_content s' p = fs_content s p" and safe: "snapshot_safe crc li lt l s"
  shows "snapshot_safe crc li lt l s'"
proof -
  obtain L where L: "wal_holds crc (rl_wal l) s L" using rep by (auto simp: raft_log_rep_def)
  have L': "wal_holds crc (rl_wal l) s' L" by (rule wal_holds_frame [OF L h fr])
  show ?thesis using safe wal_log.read_all [OF L] wal_log.read_all [OF L'] by (simp add: snapshot_safe_def)
qed

text \<open>Saving the file and compacting, by either of the two operations of the log.\<close>

lemma save_and_compact:
  assumes rep: "node_rep crc n s" and fits: "snapshot_fits sn" and b: "log_budget (n_log n) 1 m"
    and lt: "rl_snapshot_index (n_log n) < sn_last_included_index sn" "unat (sn_last_included_index sn) + 1 < 2 ^ 64"
    and safe: "snapshot_safe crc (sn_last_included_index sn) (sn_last_included_term sn) (n_log n) s"
  defines "l \<equiv> \<lambda>w. snapshotted (sn_last_included_index sn) (sn_last_included_term sn) w (n_log n)"
  shows "\<exists>s1 w s2. snapshot_save (n_data_dir n) sn s = (Ok (), s1) \<and>
    compact crc (sn_last_included_index sn) (sn_last_included_term sn) (n_log n, s1) = (Ok (), (l w, s2)) \<and>
    install_snapshot crc (sn_last_included_index sn) (sn_last_included_term sn) (n_log n, s1) = (Ok (), (l w, s2)) \<and>
    node_rep crc (n\<lparr>n_snapshot := Some sn, n_log := l w\<rparr>) s2"
proof -
  obtain s1 where s1: "snapshot_save (n_data_dir n) sn s = (Ok (), s1)" "node_rep crc (n\<lparr>n_snapshot := Some sn\<rparr>) s1"
    "\<forall>p. butlast p = rl_dir (n_log n) \<longrightarrow> fs_content s1 p = fs_content s p"
    using node_save_snapshot [OF rep fits] by blast
  have r1: "raft_log_rep crc (n_log n) s1" "healthy s1" "wf_fs s1" using node_rep_log [OF s1(2)] by simp_all
  have safe1: "snapshot_safe crc (sn_last_included_index sn) (sn_last_included_term sn) (n_log n) s1"
    using node_rep_log [OF rep] s1(3) by (intro snapshot_safe_frame [OF _ r1(2,3) _ safe]) simp_all
  have b1: "log_budget (n_log n) (Suc 0) m" using b by simp
  obtain w s2 where w: "compact crc (sn_last_included_index sn) (sn_last_included_term sn) (n_log n, s1) = (Ok (), (l w, s2))"
    "install_snapshot crc (sn_last_included_index sn) (sn_last_included_term sn) (n_log n, s1) = (Ok (), (l w, s2))"
    "raft_log_rep crc (l w) s2" "w_config w = rl_config (n_log n)" "same_outside (rl_dir (n_log n)) s1 s2"
    using log_snapshot_step [OF r1(1) b1 lt safe1] unfolding l_def by blast
  have "rl_config (l w) = rl_config (n_log (n\<lparr>n_snapshot := Some sn\<rparr>))" using w(4) by (simp add: l_def snapshotted_def)
  then have "node_rep crc (n\<lparr>n_snapshot := Some sn, n_log := l w\<rparr>) s2"
    using node_log_step [OF s1(2) w(3)] w(5) by simp
  with s1(1) w(1,2) show ?thesis by blast
qed

section \<open>Taking a snapshot\<close>

definition snapshot_of :: "raft_node \<Rightarrow> snapshot" where
  "snapshot_of n =
     \<lparr>sn_last_included_index = n_commit_index n,
      sn_last_included_term = (case term_at (n_log n) (n_commit_index n) of Some t \<Rightarrow> t | None \<Rightarrow> rl_snapshot_term (n_log n)),
      sn_data = encode_entries (filter (\<lambda>e. le_index e \<le> n_commit_index n) (rl_entries (n_log n)))\<rparr>"

lemma log_wf_all_past: "log_wf l \<Longrightarrow> filter (\<lambda>e. rl_snapshot_index l + 1 \<le> le_index e) (rl_entries l) = rl_entries l"
  using log_wf_no_wrap [of l] by (auto simp: filter_id_conv in_set_conv_nth log_wf_def u64_order)

lemma take_snapshot_rep:
  assumes rep: "node_rep crc n s" and fits: "snapshot_fits (snapshot_of n)" and b: "log_budget (n_log n) 1 m"
    and lt: "rl_snapshot_index (n_log n) < n_commit_index n" "unat (n_commit_index n) + 1 < 2 ^ 64"
    and safe: "snapshot_safe crc (n_commit_index n) (sn_last_included_term (snapshot_of n)) (n_log n) s"
  shows "\<exists>w s'. take_snapshot crc (n, s) = (Ok (), (n\<lparr>n_log := snapshotted (n_commit_index n) (sn_last_included_term (snapshot_of n)) w (n_log n),
        n_entries_since_snapshot := 0, n_snapshot := Some (snapshot_of n)\<rparr>, s')) \<and>
    node_rep crc (n\<lparr>n_log := snapshotted (n_commit_index n) (sn_last_included_term (snapshot_of n)) w (n_log n),
        n_entries_since_snapshot := 0, n_snapshot := Some (snapshot_of n)\<rparr>) s'"
proof -
  let ?sn = "snapshot_of n"
  have wf: "log_wf (n_log n)" using node_rep_log [OF rep] by simp
  have i: "sn_last_included_index ?sn = n_commit_index n" and nz: "n_commit_index n \<noteq> 0"
    using lt(1) by (auto simp: snapshot_of_def)
  obtain s1 w s2 where r: "snapshot_save (n_data_dir n) ?sn s = (Ok (), s1)"
    "compact crc (n_commit_index n) (sn_last_included_term ?sn) (n_log n, s1) =
       (Ok (), (snapshotted (n_commit_index n) (sn_last_included_term ?sn) w (n_log n), s2))"
    "node_rep crc (n\<lparr>n_snapshot := Some ?sn, n_log := snapshotted (n_commit_index n) (sn_last_included_term ?sn) w (n_log n)\<rparr>) s2"
    using save_and_compact [OF rep fits b, unfolded i, OF lt safe] by blast
  let ?n = "n\<lparr>n_log := snapshotted (n_commit_index n) (sn_last_included_term ?sn) w (n_log n),
        n_entries_since_snapshot := 0, n_snapshot := Some ?sn\<rparr>"
  have "take_snapshot crc (n, s) = (Ok (), (?n, s2))"
    using nz r(1,2)
    by (simp add: take_snapshot_def Let_def entries_from_spec [OF wf] log_wf_all_past [OF wf] snapshot_of_def io_def on_log_def on_field_def)
  moreover have "node_rep crc ?n s2" by (rule node_rep_cong [OF r(3)]) simp_all
  ultimately show ?thesis by blast
qed

section \<open>Installing a snapshot\<close>

definition sent_snapshot :: "install_snapshot_request \<Rightarrow> snapshot" where
  "sent_snapshot req = \<lparr>sn_last_included_index = is_last_included_index req,
     sn_last_included_term = is_last_included_term req, sn_data = is_data req\<rparr>"

lemma on_install_snapshot_rep:
  assumes rep: "node_rep crc n s" and t: "n_term n \<le> is_term req" and fits: "snapshot_fits (sent_snapshot req)"
    and b: "log_budget (n_log n) 1 m"
    and lt: "rl_snapshot_index (n_log n) < is_last_included_index req" "unat (is_last_included_index req) + 1 < 2 ^ 64"
    and safe: "\<And>s'. raft_log_rep crc (n_log n) s' \<Longrightarrow> snapshot_safe crc (is_last_included_index req) (is_last_included_term req) (n_log n) s'"
  shows "\<exists>w n' s'. on_install_snapshot crc env req (n, s) = (Ok \<lparr>isr_term = is_term req, isr_success = True\<rparr>, (n', s')) \<and>
    node_rep crc n' s' \<and> n_snapshot n' = Some (sent_snapshot req) \<and>
    n_log n' = snapshotted (is_last_included_index req) (is_last_included_term req) w (n_log n) \<and>
    n_commit_index n' = max (n_commit_index n) (is_last_included_index req) \<and> n_term n' = is_term req \<and> n_role n' = Follower"
proof -
  let ?sn = "sent_snapshot req" and ?li = "is_last_included_index req" and ?lt = "is_last_included_term req"
  let ?n = "followed env (is_term req) (is_leader_id req) n"
  obtain s1 where s1: "(if n_term n < is_term req then ignore_result (on_ps (advance_term (is_term req)) (n, s)) else (Ok (), (n, s))) =
      (Ok (), (in_term (is_term req) n, s1))" "node_rep crc ?n s1"
    using node_followed [OF rep] by blast
  have b': "log_budget (n_log ?n) 1 m" using b by simp
  have safe': "snapshot_safe crc (sn_last_included_index ?sn) (sn_last_included_term ?sn) (n_log ?n) s1"
    using safe node_rep_log [OF s1(2)] by (simp add: sent_snapshot_def)
  have lt': "rl_snapshot_index (n_log ?n) < sn_last_included_index ?sn" "unat (sn_last_included_index ?sn) + 1 < 2 ^ 64"
    using lt by (simp_all add: sent_snapshot_def)
  obtain s2 w s3 where r: "snapshot_save (n_data_dir n) ?sn s1 = (Ok (), s2)"
    "install_snapshot crc ?li ?lt (n_log n, s2) = (Ok (), (snapshotted ?li ?lt w (n_log n), s3))"
    "node_rep crc (?n\<lparr>n_snapshot := Some ?sn, n_log := snapshotted ?li ?lt w (n_log n)\<rparr>) s3"
    using save_and_compact [OF s1(2) fits b' lt' safe'] by (auto simp: sent_snapshot_def)
  let ?n' = "?n\<lparr>n_log := snapshotted ?li ?lt w (n_log n), n_commit_index := max (n_commit_index n) ?li,
    n_entries_since_snapshot := 0, n_snapshot := Some ?sn\<rparr>"
  have "on_install_snapshot crc env req (n, s) = (Ok \<lparr>isr_term = is_term req, isr_success = True\<rparr>, (?n', s3))"
    using t linorder_not_le [THEN iffD2, OF lt(1)] s1(1) r(1,2)
    by (simp add: on_install_snapshot_def not_less followed_def [symmetric] Let_def sent_snapshot_def [symmetric] io_def
        on_log_def on_field_def is_answer_def max_absorb2)
  moreover have "node_rep crc ?n' s3" by (rule node_rep_cong [OF r(3)]) simp_all
  moreover have "n_term ?n' = is_term req" using t by (simp add: max_absorb2)
  ultimately show ?thesis by (intro exI [of _ w] exI [of _ ?n'] exI [of _ s3]) simp
qed

end
