(* ===== verification/Ballots.thy ===== *)
theory Ballots
  imports Confinement Node_Rep
begin

text \<open>
  Terms and votes under any fault schedule: \<open>evolves\<close> relates the node and file system at one time to
  those at a later time. The term and the vote only move forward in the order of ballots, in memory
  and on disk, the disk never gets ahead, and nobody becomes a leader on the way. Every handler but
  the end of an election is shown to keep it, whatever the message says and whichever calls fail.
\<close>

section \<open>Ballots\<close>

text \<open>A ballot is a term and the vote in it. A vote of a term is final.\<close>

datatype ballot = Ballot (b_term: u64) (b_vote: "string option")

instantiation ballot :: order
begin

definition less_eq_ballot :: "ballot \<Rightarrow> ballot \<Rightarrow> bool" where
  "a \<le> b \<longleftrightarrow> b_term a < b_term b \<or> b_term a = b_term b \<and> (b_vote a = None \<or> b_vote b = b_vote a)"

definition less_ballot :: "ballot \<Rightarrow> ballot \<Rightarrow> bool" where
  "(a :: ballot) < b \<longleftrightarrow> a \<le> b \<and> \<not> b \<le> a"

instance
  by intro_classes (auto simp: less_eq_ballot_def less_ballot_def intro: ballot.expand)

end

lemma ballot_le_simp [simp]:
  "Ballot t v \<le> Ballot t' v' \<longleftrightarrow> t < t' \<or> t = t' \<and> (v = None \<or> v' = v)"
  by (simp add: less_eq_ballot_def)

text \<open>Two votes of the same term that one ballot is above are the same vote.\<close>

lemma ballot_one_vote:
  "Ballot t (Some c) \<le> b \<Longrightarrow> Ballot t (Some c') \<le> b \<Longrightarrow> b \<le> Ballot t (Some c'') \<Longrightarrow> c = c' \<and> c' = c''"
  by (cases b) auto

definition n_ballot :: "raft_node \<Rightarrow> ballot" where
  "n_ballot n = Ballot (n_term n) (n_vote n)"

definition disk_ballot :: "path \<Rightarrow> fs \<Rightarrow> ballot" where
  "disk_ballot d s = (case vote_cell.stored d s of (t, v) \<Rightarrow> Ballot t v)"

lemma disk_ballot_cong:
  "fs_content s' (path_join d STATE_FILE) = fs_content s (path_join d STATE_FILE) \<Longrightarrow> disk_ballot d s' = disk_ballot d s"
  by (simp add: disk_ballot_def vote_cell.stored_def)

section \<open>The relation\<close>

definition node_ok :: "raft_node \<Rightarrow> bool" where
  "node_ok n \<longleftrightarrow> ps_path (n_ps n) = path_join (n_data_dir n) STATE_FILE \<and>
     in_dir (path_join (n_data_dir n) ''wal'') (rl_wal (n_log n)) \<and> name_ok (n_id n) \<and>
     (case n_vote n of None \<Rightarrow> True | Some v \<Rightarrow> name_ok v)"

definition same_node :: "raft_node \<Rightarrow> raft_node \<Rightarrow> bool" where
  "same_node n0 n \<longleftrightarrow> n_id n = n_id n0 \<and> n_config n = n_config n0 \<and> n_peers n = n_peers n0 \<and> n_data_dir n = n_data_dir n0"

definition leads :: "raft_node \<Rightarrow> u64 \<Rightarrow> bool" where
  "leads n t \<longleftrightarrow> n_role n = Leader \<and> n_term n = t"

definition synced :: "raft_node \<Rightarrow> fs \<Rightarrow> bool" where
  "synced n s \<longleftrightarrow> healthy s \<and> disk_ballot (n_data_dir n) s = n_ballot n"

definition evolves :: "raft_node \<Rightarrow> fs \<Rightarrow> raft_node \<times> fs \<Rightarrow> bool" where
  "evolves n0 s0 = (\<lambda>(n, s). same_node n0 n \<and> node_ok n \<and> n_ballot n0 \<le> n_ballot n \<and>
     disk_ballot (n_data_dir n) s0 \<le> disk_ballot (n_data_dir n) s \<and> disk_ballot (n_data_dir n) s \<le> n_ballot n \<and>
     (synced n0 s0 \<longrightarrow> synced n s) \<and> (n_role n = Leader \<longrightarrow> n_role n0 = Leader \<and> n_term n = n_term n0))"

definition node_inv :: "raft_node \<Rightarrow> fs \<Rightarrow> bool" where
  "node_inv n s \<longleftrightarrow> node_ok n \<and> disk_ballot (n_data_dir n) s \<le> n_ballot n"

lemma evolves_refl: "node_inv n s \<Longrightarrow> evolves n s (n, s)"
  by (simp add: evolves_def node_inv_def same_node_def)

lemma evolves_trans: "evolves n0 s0 (n1, s1) \<Longrightarrow> evolves n1 s1 (n2, s2) \<Longrightarrow> evolves n0 s0 (n2, s2)"
  by (auto simp: evolves_def same_node_def)

lemma evolves_inv: "evolves n0 s0 (n, s) \<Longrightarrow> node_inv n s"
  by (simp add: evolves_def node_inv_def)

text \<open>Changes of the fields that do not matter, and stepping down.\<close>

lemma evolves_cong:
  assumes "evolves n0 s0 (n, s)" and "same_node n n'" and "n_ps n' = n_ps n" and "n_log n' = n_log n"
    and "n_role n' = Leader \<Longrightarrow> n_role n = Leader"
  shows "evolves n0 s0 (n', s)"
proof -
  have d: "n_data_dir n' = n_data_dir n" and "node_ok n' = node_ok n" "n_ballot n' = n_ballot n"
    using assms(2-4) by (simp_all add: same_node_def node_ok_def n_ballot_def)
  moreover have "synced n' s = synced n s" using calculation by (simp add: synced_def)
  moreover have "same_node n0 n'" using assms(1,2) by (simp add: evolves_def same_node_def)
  ultimately show ?thesis
    using assms(1,3,5) by (simp add: evolves_def)
qed

section \<open>The vote file\<close>

lemma ps_persist_any:
  assumes ok: "node_ok n" and p: "ps_path p = path_join (n_data_dir n) STATE_FILE" "vote_ok (ps_current_term p, ps_voted_for p)"
  shows "\<exists>r s'. ps_persist (p, s) = (r, (p, s')) \<and> r \<noteq> Panic \<and> (healthy s \<longrightarrow> healthy s' \<and> is_ok r) \<and>
    disk_ballot (n_data_dir n) s' =
      (if is_ok r then Ballot (ps_current_term p) (ps_voted_for p) else disk_ballot (n_data_dir n) s)"
proof -
  obtain r p' s' where run: "ps_persist (p, s) = (r, (p', s'))" by (metis surj_pair)
  note c = ps_persist_cases [OF p(1) run p(2)]
  have "healthy s \<longrightarrow> healthy s' \<and> is_ok r"
    using ps_persist_healthy [OF _ p(1), of s] run by auto
  with c run show ?thesis
    by (intro exI [of _ r] exI [of _ s']) (auto simp: disk_ballot_def)
qed

text \<open>A persisted change of the ballot, the error ignored.\<close>

lemma persist_evolves:
  assumes ev: "evolves n0 s0 (n, s)" and fwd: "n_ballot n \<le> Ballot t v" and v: "vote_ok (t, v)"
    and n': "n_ps n' = (n_ps n)\<lparr>ps_current_term := t, ps_voted_for := v\<rparr>" "same_node n n'" "n_log n' = n_log n"
    and role: "n_role n' = Leader \<Longrightarrow> n_role n = Leader \<and> t = n_term n"
    and run: "ps_persist ((n_ps n)\<lparr>ps_current_term := t, ps_voted_for := v\<rparr>, s) = (r, (p', s'))"
  shows "evolves n0 s0 (n', s') \<and> r \<noteq> Panic \<and> p' = (n_ps n)\<lparr>ps_current_term := t, ps_voted_for := v\<rparr>"
proof -
  let ?p = "(n_ps n)\<lparr>ps_current_term := t, ps_voted_for := v\<rparr>"
  have ok: "node_ok n" using ev by (simp add: evolves_def)
  have c: "p' = ?p \<and> r \<noteq> Panic \<and> (healthy s \<longrightarrow> healthy s' \<and> is_ok r) \<and>
    disk_ballot (n_data_dir n) s' = (if is_ok r then Ballot t v else disk_ballot (n_data_dir n) s)"
  proof -
    have "ps_path ?p = path_join (n_data_dir n) STATE_FILE" and "vote_ok (ps_current_term ?p, ps_voted_for ?p)"
      using ok v by (simp_all add: node_ok_def)
    from ps_persist_any [OF ok this, of s] run show ?thesis by auto
  qed
  have d: "n_data_dir n' = n_data_dir n" and i: "n_id n' = n_id n" using n'(2) by (simp_all add: same_node_def)
  have b: "n_ballot n' = Ballot t v" using n'(1) by (simp add: n_ballot_def)
  have "case v of None \<Rightarrow> True | Some c \<Rightarrow> name_ok c" using v by (cases v) (simp_all add: vote_ok_def name_ok_def)
  then have ok': "node_ok n'" using ok n'(1,3) d i by (simp add: node_ok_def)
  have le: "disk_ballot (n_data_dir n) s0 \<le> disk_ballot (n_data_dir n) s" "disk_ballot (n_data_dir n) s \<le> n_ballot n"
      "n_ballot n0 \<le> n_ballot n" "same_node n0 n" "synced n0 s0 \<longrightarrow> synced n s"
      "n_role n = Leader \<longrightarrow> n_role n0 = Leader \<and> n_term n = n_term n0"
    using ev by (simp_all add: evolves_def)
  have l1: "disk_ballot (n_data_dir n) s \<le> Ballot t v" using le(2) fwd by (rule order_trans)
  have l2: "disk_ballot (n_data_dir n) s0 \<le> Ballot t v" using le(1) l1 by (rule order_trans)
  have l3: "n_ballot n0 \<le> Ballot t v" using le(3) fwd by (rule order_trans)
  have sn: "same_node n0 n'" using le(4) n'(2) by (simp add: same_node_def)
  have sy: "synced n0 s0 \<longrightarrow> synced n' s'" using le(5) c b d by (simp add: synced_def)
  have rl: "n_role n' = Leader \<longrightarrow> n_role n0 = Leader \<and> n_term n' = n_term n0"
    using le(6) role n'(1) by (cases "n_role n' = Leader") simp_all
  have dk: "disk_ballot (n_data_dir n) s0 \<le> disk_ballot (n_data_dir n) s' \<and> disk_ballot (n_data_dir n) s' \<le> Ballot t v"
    using c le(1) l1 l2 by (cases "is_ok r") simp_all
  have "evolves n0 s0 (n', s')"
    using sn ok' l3 dk sy rl unfolding evolves_def prod.case b d by blast
  with c show ?thesis by simp
qed

lemma advance_term_evolves:
  assumes ev: "evolves n0 s0 (n, s)" and t: "n_term n < t"
  shows "\<exists>s'. ignore_result (on_ps (advance_term t) (n, s)) =
      (Ok (), (n\<lparr>n_ps := (n_ps n)\<lparr>ps_current_term := t, ps_voted_for := None\<rparr>\<rparr>, s')) \<and>
    (\<forall>n'. n_ps n' = (n_ps n)\<lparr>ps_current_term := t, ps_voted_for := None\<rparr> \<longrightarrow> same_node n n' \<longrightarrow>
       n_log n' = n_log n \<longrightarrow> n_role n' \<noteq> Leader \<longrightarrow> evolves n0 s0 (n', s'))"
proof -
  let ?p = "(n_ps n)\<lparr>ps_current_term := t, ps_voted_for := None\<rparr>"
  obtain r p' s' where run: "ps_persist (?p, s) = (r, (p', s'))" by (metis surj_pair)
  have fwd: "n_ballot n \<le> Ballot t None" and v: "vote_ok (t, None)"
    using t by (simp_all add: n_ballot_def vote_ok_def)
  note pe = persist_evolves [OF ev fwd v _ _ _ _ run]
  have np: "r \<noteq> Panic \<and> p' = ?p"
    using pe [of "n\<lparr>n_ps := ?p, n_role := Follower\<rparr>"] by (simp add: same_node_def)
  then have "ignore_result (on_ps (advance_term t) (n, s)) = (Ok (), (n\<lparr>n_ps := ?p\<rparr>, s'))"
    using run by (cases r) (simp_all add: on_ps_def on_field_def advance_term_def ignore_result_def)
  moreover have "evolves n0 s0 (n', s')"
    if "n_ps n' = ?p" "same_node n n'" "n_log n' = n_log n" "n_role n' \<noteq> Leader" for n'
    using pe [of n'] that by simp
  ultimately show ?thesis by blast
qed

lemma record_vote_evolves:
  assumes ev: "evolves n0 s0 (n, s)" and c: "name_ok c" and free: "n_vote n = None \<or> n_vote n = Some c"
  shows "\<exists>s'. ignore_result (on_ps (record_vote c) (n, s)) = (Ok (), (n\<lparr>n_ps := (n_ps n)\<lparr>ps_voted_for := Some c\<rparr>\<rparr>, s')) \<and>
    evolves n0 s0 (n\<lparr>n_ps := (n_ps n)\<lparr>ps_voted_for := Some c\<rparr>\<rparr>, s')"
proof -
  let ?p = "(n_ps n)\<lparr>ps_voted_for := Some c\<rparr>"
  have eq: "(n_ps n)\<lparr>ps_current_term := n_term n, ps_voted_for := Some c\<rparr> = ?p" by simp
  obtain r p' s' where run: "ps_persist (?p, s) = (r, (p', s'))" by (metis surj_pair)
  have fwd: "n_ballot n \<le> Ballot (n_term n) (Some c)" and v: "vote_ok (n_term n, Some c)"
    using free c by (auto simp: n_ballot_def vote_ok_def name_ok_def)
  have "evolves n0 s0 (n\<lparr>n_ps := ?p\<rparr>, s') \<and> r \<noteq> Panic \<and> p' = ?p"
    using persist_evolves [OF ev fwd v, of "n\<lparr>n_ps := ?p\<rparr>" r p' s'] run by (simp add: same_node_def)
  then show ?thesis
    using run by (intro exI [of _ s'], cases r)
      (simp_all add: on_ps_def on_field_def record_vote_def ignore_result_def)
qed

section \<open>The log and the snapshot do not touch the vote\<close>

lemma outcome_ignore [simp]: "outcome P (\<lambda>_. True) m \<Longrightarrow> outcome P (\<lambda>_. True) (ignore_result m)"
  by (auto simp: ignore_result_def outcome_def split: res.splits prod.splits)

lemma on_log_evolves:
  assumes m: "\<And>d s0 ls. log_step d s0 ls \<Longrightarrow> outcome (log_step d s0) (\<lambda>_. True) (m ls)" and ev: "evolves n0 s0 ns"
  shows "outcome (evolves n0 s0) (\<lambda>_. True) (on_log m ns)"
proof (cases ns)
  case (Pair n s)
  let ?w = "path_join (n_data_dir n) ''wal''"
  have "outcome (log_step ?w s) (\<lambda>_. True) (m (n_log n, s))"
    using ev Pair by (intro m) (simp add: evolves_def node_ok_def)
  then have "outcome (\<lambda>(l, s). evolves n0 s0 (n\<lparr>n_log := l\<rparr>, s)) (\<lambda>_. True) (m (n_log n, s))"
  proof (rule outcome_mono)
    fix ls assume a: "log_step ?w s ls"
    obtain l s' where ls: "ls = (l, s')" by fastforce
    have fs: "fs_step ?w s s'" and id: "in_dir ?w (rl_wal l)" using a ls by simp_all
    have "fs_content s' (path_join (n_data_dir n) STATE_FILE) = fs_content s (path_join (n_data_dir n) STATE_FILE)"
      using fs by (simp add: fs_step_def same_outside_def) (simp add: path_join_def)
    then have dk: "disk_ballot (n_data_dir n) s' = disk_ballot (n_data_dir n) s" by (rule disk_ballot_cong)
    have "synced n s \<longrightarrow> synced (n\<lparr>n_log := l\<rparr>) s'"
      using fs dk by (simp add: synced_def n_ballot_def fs_step_def)
    moreover have "same_node n0 (n\<lparr>n_log := l\<rparr>) = same_node n0 n" "n_ballot (n\<lparr>n_log := l\<rparr>) = n_ballot n"
      by (simp_all add: same_node_def n_ballot_def)
    moreover have "node_ok n \<Longrightarrow> node_ok (n\<lparr>n_log := l\<rparr>)"
      using id by (simp add: node_ok_def)
    ultimately show "case ls of (l, s) \<Rightarrow> evolves n0 s0 (n\<lparr>n_log := l\<rparr>, s)"
      using ev Pair ls dk by (simp add: evolves_def)
  qed simp
  then show ?thesis unfolding Pair on_log_def by (rule outcome_on_field)
qed

lemma snapshot_save_evolves:
  assumes ev: "evolves n0 s0 (n, s)" and d: "d = n_data_dir n"
  shows "outcome (\<lambda>s. evolves n0 s0 (n, s)) (\<lambda>_. True) (snapshot_save d sn s)"
proof -
  let ?s' = "snd (snapshot_save d sn s)"
  have "fs_content ?s' (path_join d STATE_FILE) = fs_content s (path_join d STATE_FILE)"
    by (rule snapshot_cell.save_frame) (simp_all add: STATE_FILE_def snapshot_path_def)
  then have dk: "disk_ballot d ?s' = disk_ballot d s" by (rule disk_ballot_cong)
  have "fs_step d s ?s'"
    unfolding snapshot_save_def write_sync_rename_def
    by (intro fs_step_and_then) (simp_all add: fs_steps snapshot_path_def)
  then have "synced n s \<longrightarrow> synced n ?s'"
    using dk d by (simp add: synced_def fs_step_def)
  then have "evolves n0 s0 (n, ?s')"
    using ev dk d by (simp add: evolves_def)
  then show ?thesis by (simp add: outcome_def)
qed

end
