(* ===== verification/Handlers_Evolve.thy ===== *)
theory Handlers_Evolve
  imports Ballots
begin

text \<open>
  Every handler of the node keeps \<open>evolves\<close>: ballots only move forward, on disk and in memory, for
  every message, every answer of the network and every fault schedule.
\<close>

abbreviation evolving :: "raft_node \<Rightarrow> fs \<Rightarrow> ('a, 'e) res \<times> (raft_node \<times> fs) \<Rightarrow> bool" where
  "evolving n0 s0 \<equiv> outcome (evolves n0 s0) (\<lambda>_. True)"

lemmas evolving_and_then = outcome_and_then [where Q = "\<lambda>_. True" and P = "evolves n0 s0" for n0 s0]

named_theorems evolving_rules \<open>the handlers keep \<open>evolves\<close>\<close>

lemma evolves_fields [evolving_rules]:
  assumes "evolves n0 s0 (n, s)"
  shows "evolves n0 s0 (n\<lparr>n_match_index := mi, n_next_index := ni\<rparr>, s)"
    and "evolves n0 s0 (n\<lparr>n_next_index := ni\<rparr>, s)" and "evolves n0 s0 (n\<lparr>n_commit_index := ci\<rparr>, s)"
    and "evolves n0 s0 (n\<lparr>n_commit_index := ci, n_entries_since_snapshot := es\<rparr>, s)"
    and "evolves n0 s0 (n\<lparr>n_commit_index := ci, n_entries_since_snapshot := es, n_snapshot := sn\<rparr>, s)"
    and "evolves n0 s0 (n\<lparr>n_entries_since_snapshot := es, n_snapshot := sn\<rparr>, s)"
    and "evolves n0 s0 (n\<lparr>n_last_heartbeat := h\<rparr>, s)" and "evolves n0 s0 (n\<lparr>n_role := Follower\<rparr>, s)"
    and "evolves n0 s0 (n\<lparr>n_role := Candidate, n_last_heartbeat := h, n_election_timeout := et\<rparr>, s)"
    and "evolves n0 s0 (become_follower_with_leader env ld n, s)"
  by (rule evolves_cong [OF assms]; simp add: same_node_def become_follower_with_leader_def)+

lemma step_down_evolves [evolving_rules]:
  assumes ev: "evolves n0 s0 (n, s)" and t: "n_term n < t"
  shows "evolving n0 s0 (step_down env t (n, s))"
proof -
  obtain s' where "ignore_result (on_ps (advance_term t) (n, s)) =
      (Ok (), (n\<lparr>n_ps := (n_ps n)\<lparr>ps_current_term := t, ps_voted_for := None\<rparr>\<rparr>, s'))"
    and "\<forall>n'. n_ps n' = (n_ps n)\<lparr>ps_current_term := t, ps_voted_for := None\<rparr> \<longrightarrow> same_node n n' \<longrightarrow>
       n_log n' = n_log n \<longrightarrow> n_role n' \<noteq> Leader \<longrightarrow> evolves n0 s0 (n', s')"
    using advance_term_evolves [OF ev t] by blast
  then show ?thesis
    by (simp add: step_down_def become_follower_with_leader_def same_node_def)
qed

text \<open>The first steps of a handler that meets a newer term.\<close>

lemma newer_term_evolves:
  assumes ev: "evolves n0 s0 (n, s)" and t: "n_term n \<le> t"
  shows "\<exists>n1 s1. (if n_term n < t then ignore_result (on_ps (advance_term t) (n, s)) else (Ok (), (n, s))) =
      (Ok (), (n1, s1)) \<and> evolves n0 s0 (become_follower_with_leader env ld n1, s1) \<and>
      evolves n0 s0 (n1\<lparr>n_role := Follower\<rparr>, s1) \<and> n_term n1 = t \<and> (n_term n = t \<longrightarrow> n1 = n \<and> s1 = s) \<and>
      n_log n1 = n_log n \<and> (n_term n < t \<longrightarrow> n_vote n1 = None)"
proof (cases "n_term n < t")
  case True
  obtain s' where "ignore_result (on_ps (advance_term t) (n, s)) =
      (Ok (), (n\<lparr>n_ps := (n_ps n)\<lparr>ps_current_term := t, ps_voted_for := None\<rparr>\<rparr>, s'))"
    and "\<forall>n'. n_ps n' = (n_ps n)\<lparr>ps_current_term := t, ps_voted_for := None\<rparr> \<longrightarrow> same_node n n' \<longrightarrow>
       n_log n' = n_log n \<longrightarrow> n_role n' \<noteq> Leader \<longrightarrow> evolves n0 s0 (n', s')"
    using advance_term_evolves [OF ev True] by blast
  with True show ?thesis
    by (auto simp: become_follower_with_leader_def same_node_def)
next
  case False
  with t have "n_term n = t" by simp
  then show ?thesis using ev by (auto intro: evolving_rules)
qed

section \<open>AppendEntries, RequestVote, InstallSnapshot\<close>

lemma ae_entry_evolves [evolving_rules]: "evolves n0 s0 ns \<Longrightarrow> evolving n0 s0 (ae_entry crc e ns)"
  by (cases ns)
    (auto simp: ae_entry_def intro!: evolving_and_then outcome_ignore on_log_evolves steps split: option.split)

lemma ae_loop_evolves [evolving_rules]: "evolves n0 s0 ns \<Longrightarrow> evolving n0 s0 (ae_loop crc es ns)"
  by (induction crc es ns rule: ae_loop.induct) (auto intro!: evolving_and_then evolving_rules)

lemma on_append_entries_evolves [evolving_rules]:
  assumes ev: "evolves n0 s0 (n, s)"
  shows "evolving n0 s0 (on_append_entries crc env req (n, s))"
proof (cases "ae_term req < n_term n")
  case False
  then have t: "n_term n \<le> ae_term req" by simp
  obtain n1 s1 where r: "(if n_term n < ae_term req then ignore_result (on_ps (advance_term (ae_term req)) (n, s))
      else (Ok (), (n, s))) = (Ok (), (n1, s1))"
    and e1: "evolves n0 s0 (become_follower_with_leader env (Some (ae_leader_id req)) n1, s1)"
    using newer_term_evolves [OF ev t] by blast
  from e1 show ?thesis
    using False
    by (auto simp: on_append_entries_def r Let_def split: option.split intro!: evolving_and_then evolving_rules)
qed (simp add: on_append_entries_def ev)

lemma on_request_vote_evolves [evolving_rules]:
  assumes ev: "evolves n0 s0 (n, s)" and c: "name_ok (rv_candidate_id req)"
  shows "evolving n0 s0 (on_request_vote env req (n, s))"
proof -
  define n1 s1 where "n1 = fst (snd (and_then (if n_term n < rv_term req then
        and_then (ignore_result (on_ps (advance_term (rv_term req)) (n, s))) (\<lambda>_ (n, s). (Ok (), (n\<lparr>n_role := Follower\<rparr>, s)))
      else (Ok (), (n, s))) (\<lambda>_ ns. (Ok () :: (unit, raft_error) res, ns))))"
    and "s1 = snd (snd (and_then (if n_term n < rv_term req then
        and_then (ignore_result (on_ps (advance_term (rv_term req)) (n, s))) (\<lambda>_ (n, s). (Ok (), (n\<lparr>n_role := Follower\<rparr>, s)))
      else (Ok (), (n, s))) (\<lambda>_ ns. (Ok () :: (unit, raft_error) res, ns))))"
  have "(if n_term n < rv_term req then
        and_then (ignore_result (on_ps (advance_term (rv_term req)) (n, s))) (\<lambda>_ (n, s). (Ok (), (n\<lparr>n_role := Follower\<rparr>, s)))
      else (Ok (), (n, s))) = (Ok (), (n1, s1)) \<and> evolves n0 s0 (n1, s1)"
  proof (cases "n_term n < rv_term req")
    case True
    then obtain m s' where "ignore_result (on_ps (advance_term (rv_term req)) (n, s)) = (Ok (), (m, s'))"
      "evolves n0 s0 (m\<lparr>n_role := Follower\<rparr>, s')"
      using newer_term_evolves [OF ev less_imp_le [OF True], of env None] by auto
    with True show ?thesis by (simp add: n1_def s1_def)
  qed (simp add: n1_def s1_def ev)
  then show ?thesis
    using record_vote_evolves [of n0 s0 n1 s1 "rv_candidate_id req", OF _ c]
    by (auto simp: on_request_vote_def Let_def evolves_fields(7) split: option.split)
qed

text \<open>A granted vote is the node's ballot afterwards.\<close>

lemma on_request_vote_granted:
  assumes ev: "evolves n0 s0 (n, s)" and c: "name_ok (rv_candidate_id req)"
    and run: "on_request_vote env req (n, s) = (Ok resp, (n', s'))" and g: "rvr_vote_granted resp"
  shows "n_ballot n' = Ballot (rv_term req) (Some (rv_candidate_id req))"
proof -
  obtain n1 s1 where r: "(if n_term n < rv_term req then
        and_then (ignore_result (on_ps (advance_term (rv_term req)) (n, s))) (\<lambda>_ (n, s). (Ok (), (n\<lparr>n_role := Follower\<rparr>, s)))
      else (Ok (), (n, s))) = (Ok (), (n1, s1))" and e1: "evolves n0 s0 (n1, s1)"
    and t1: "n_term n1 = (if n_term n < rv_term req then rv_term req else n_term n)"
  proof (cases "n_term n < rv_term req")
    case True
    with newer_term_evolves [OF ev less_imp_le [OF True], of env None] that show ?thesis by auto
  qed (use ev that in auto)
  have t: "n_term n1 = rv_term req" and f: "n_vote n1 = None \<or> n_vote n1 = Some (rv_candidate_id req)"
    using run g r t1
    by (auto simp: on_request_vote_def rv_answer_def Let_def split: if_splits option.splits)
  obtain s2 where "ignore_result (on_ps (record_vote (rv_candidate_id req)) (n1, s1)) =
      (Ok (), (n1\<lparr>n_ps := (n_ps n1)\<lparr>ps_voted_for := Some (rv_candidate_id req)\<rparr>\<rparr>, s2))"
    using record_vote_evolves [OF e1 c f] by blast
  then show ?thesis
    using run g r t
    by (auto simp: on_request_vote_def rv_answer_def Let_def n_ballot_def split: if_splits option.splits)
qed

lemma on_install_snapshot_evolves [evolving_rules]:
  assumes ev: "evolves n0 s0 (n, s)"
  shows "evolving n0 s0 (on_install_snapshot crc env req (n, s))"
proof (cases "is_term req < n_term n")
  case False
  then have t: "n_term n \<le> is_term req" by simp
  obtain n1 s1 where r: "(if n_term n < is_term req then ignore_result (on_ps (advance_term (is_term req)) (n, s))
      else (Ok (), (n, s))) = (Ok (), (n1, s1))"
    and e1: "evolves n0 s0 (become_follower_with_leader env (Some (is_leader_id req)) n1, s1)"
    using newer_term_evolves [OF ev t] by blast
  let ?n = "become_follower_with_leader env (Some (is_leader_id req)) n1"
  let ?sn = "\<lparr>sn_last_included_index = is_last_included_index req,
                         sn_last_included_term = is_last_included_term req, sn_data = is_data req\<rparr>"
  obtain rs s2 where sv: "snapshot_save (n_data_dir ?n) ?sn s1 = (rs, s2)" by fastforce
  have e2: "evolves n0 s0 (?n, s2)"
    using snapshot_save_evolves [OF e1 refl, of ?sn] sv by (simp add: outcome_def)
  obtain ri n3 s3 where il: "on_log (install_snapshot crc (is_last_included_index req) (is_last_included_term req)) (?n, s2) = (ri, (n3, s3))"
    by (metis surj_pair)
  have e3: "evolves n0 s0 (n3, s3)"
  proof -
    have "evolving n0 s0 (on_log (install_snapshot crc (is_last_included_index req) (is_last_included_term req)) (?n, s2))"
      by (rule on_log_evolves [OF _ e2]) (rule install_snapshot_step)
    then show ?thesis unfolding il by (simp add: outcome_def)
  qed
  show ?thesis
    using False e1 e2 e3
    by (auto simp: on_install_snapshot_def r Let_def io_def sv il intro: evolving_rules split: res.split)
qed (simp add: on_install_snapshot_def ev)

section \<open>The leader\<close>

lemma ae_acks_evolves [evolving_rules]: "evolves n0 s0 ns \<Longrightarrow> evolving n0 s0 (ae_acks env i rs acks ns)"
  by (induction env i rs acks ns rule: ae_acks.induct) (auto simp: evolves_fields intro!: evolving_and_then evolving_rules)

lemma snap_acks_evolves [evolving_rules]: "evolves n0 s0 ns \<Longrightarrow> evolving n0 s0 (snap_acks env rs acks ns)"
  by (induction env rs acks ns rule: snap_acks.induct) (auto simp: Let_def evolves_fields intro!: evolving_and_then evolving_rules)

lemma replicate_to_peers_evolves [evolving_rules]:
  "evolves n0 s0 ns \<Longrightarrow> evolving n0 s0 (replicate_to_peers env net i ns)"
  by (cases ns)
    (auto simp: replicate_to_peers_def Let_def intro!: evolving_and_then evolving_rules split: res.split)

lemma take_snapshot_evolves [evolving_rules]:
  "evolves n0 s0 ns \<Longrightarrow> evolving n0 s0 (take_snapshot crc ns)"
  by (cases ns)
    (auto simp: take_snapshot_def Let_def intro!: evolving_and_then outcome_io snapshot_save_evolves on_log_evolves steps evolving_rules
      split: res.split)

lemma on_client_write_evolves [evolving_rules]:
  "evolves n0 s0 ns \<Longrightarrow> evolving n0 s0 (on_client_write crc env net dat ns)"
  by (cases ns)
    (auto simp: on_client_write_def Let_def intro!: evolving_and_then outcome_ignore on_log_evolves steps evolving_rules)

lemma heartbeat_answers_evolves [evolving_rules]:
  "evolves n0 s0 ns \<Longrightarrow> evolving n0 s0 (heartbeat_answers env rs ns)"
  by (induction env rs ns rule: heartbeat_answers.induct) (auto intro!: evolving_rules)

lemma send_heartbeats_evolves [evolving_rules]:
  "evolves n0 s0 ns \<Longrightarrow> evolving n0 s0 (send_heartbeats env net ns)"
  by (cases ns) (auto simp: send_heartbeats_def intro!: evolving_rules)

section \<open>Elections\<close>

text \<open>The beginning: a node that is not a leader votes for itself in a new term. The next term must exist.\<close>

lemma start_election_begin_run:
  assumes ev: "evolves n0 s0 (n, s)" and r: "n_role n \<noteq> Leader" and t: "n_term n < n_term n + 1"
  shows "\<exists>n' s'. start_election_begin env (n, s) =
      (Ok \<lparr>rv_term = n_term n + 1, rv_candidate_id = n_id n, rv_last_log_index = last_index (n_log n),
           rv_last_log_term = last_term (n_log n)\<rparr>, (n', s')) \<and>
    evolves n0 s0 (n', s') \<and> n_term n' = n_term n + 1 \<and> n_vote n' = Some (n_id n) \<and> n_role n' = Candidate \<and>
    n_log n' = n_log n"
proof -
  let ?n1 = "n\<lparr>n_ps := (n_ps n)\<lparr>ps_current_term := n_term n + 1, ps_voted_for := None\<rparr>\<rparr>"
  obtain s1 where a: "ignore_result (on_ps (advance_term (n_term n + 1)) (n, s)) = (Ok (), (?n1, s1))"
    "evolves n0 s0 (?n1, s1)"
    using advance_term_evolves [OF ev t] r by (auto simp: same_node_def)
  let ?n2 = "?n1\<lparr>n_ps := (n_ps ?n1)\<lparr>ps_voted_for := Some (n_id n)\<rparr>\<rparr>"
  have "name_ok (n_id n)" using ev by (simp add: evolves_def node_ok_def)
  then obtain s2 where b: "ignore_result (on_ps (record_vote (n_id n)) (?n1, s1)) = (Ok (), (?n2, s2))"
    "evolves n0 s0 (?n2, s2)"
    using record_vote_evolves [OF a(2), of "n_id n"] by auto
  let ?n3 = "?n2\<lparr>n_role := Candidate, n_last_heartbeat := e_now env,
    n_election_timeout := random_election_timeout env (n_config n)\<rparr>"
  have "start_election_begin env (n, s) =
      (Ok \<lparr>rv_term = n_term n + 1, rv_candidate_id = n_id n, rv_last_log_index = last_index (n_log n),
           rv_last_log_term = last_term (n_log n)\<rparr>, (?n3, s2))"
    using a(1) b(1) by (simp add: start_election_begin_def Let_def)
  moreover have "evolves n0 s0 (?n3, s2)"
    by (rule evolves_cong [OF b(2)]) (simp_all add: same_node_def)
  ultimately show ?thesis by (intro exI [of _ ?n3] exI [of _ s2]) simp
qed

text \<open>The loop over the answers keeps the node but for a step down to a newer term.\<close>

lemma count_votes_run:
  assumes ev: "evolves n0 s0 (n, s)"
  shows "evolving n0 s0 (count_votes env rs votes (n, s)) \<and>
    (\<forall>v ns. count_votes env rs votes (n, s) = (Ok (Some v), ns) \<longrightarrow>
       ns = (n, s) \<and> v = votes + length (filter (\<lambda>r. case r of Some resp \<Rightarrow> rvr_vote_granted resp | None \<Rightarrow> False) rs))"
proof (induction rs arbitrary: votes)
  case (Cons r rs)
  show ?case
  proof (cases r)
    case None
    then show ?thesis using Cons.IH [of votes] by simp
  next
    case (Some resp)
    show ?thesis
    proof (cases "n_term n < rvr_term resp")
      case True
      have "evolving n0 s0 (step_down env (rvr_term resp) (n, s))"
        by (rule step_down_evolves [OF ev True])
      moreover obtain rr nn ss where st: "ignore_result (on_ps (advance_term (rvr_term resp)) (n, s)) = (rr, (nn, ss))"
        by (metis surj_pair)
      ultimately show ?thesis
        using True Some by (cases rr) (simp_all add: step_down_def)
    next
      case False
      then show ?thesis
        using Some Cons.IH [of votes] Cons.IH [of "Suc votes"] by simp
    qed
  qed
qed (use ev in simp)

definition granted_count :: "request_vote_response option list \<Rightarrow> nat" where
  "granted_count rs = length (filter (\<lambda>r. case r of Some resp \<Rightarrow> rvr_vote_granted resp | None \<Rightarrow> False) rs)"

text \<open>The end: a leader if enough peers granted their vote, and no change of the ballot then.\<close>

lemma start_election_finish_run:
  assumes ev: "evolves n0 s0 (n, s)" and run: "start_election_finish env rs (n, s) = (r, (n', s'))"
  shows "evolves n0 s0 (n', s') \<or>
    n' = become_leader n \<and> s' = s \<and> quorum (n_config n) \<le> 1 + granted_count rs"
proof -
  obtain rc nc sc where cv: "count_votes env rs 1 (n, s) = (rc, (nc, sc))" by (metis surj_pair)
  have ec: "evolves n0 s0 (nc, sc)"
    using count_votes_run [OF ev, of env rs 1] cv by (simp add: outcome_def)
  show ?thesis
  proof (cases rc)
    case (Ok outcome)
    show ?thesis
    proof (cases outcome)
      case None
      then show ?thesis using run cv Ok ec by (simp add: start_election_finish_def)
    next
      case (Some votes)
      have "nc = n \<and> sc = s \<and> votes = 1 + granted_count rs"
        using count_votes_run [OF ev, of env rs 1] cv Ok Some by (auto simp: granted_count_def)
      then show ?thesis
        using run cv Ok Some ev evolves_fields(8) [OF ev]
        by (auto simp: start_election_finish_def split: if_splits)
    qed
  qed (use run cv ec in \<open>simp_all add: start_election_finish_def\<close>)
qed

section \<open>Messages and restarts\<close>

definition msg_ok :: "raft_msg \<Rightarrow> bool" where
  "msg_ok msg \<longleftrightarrow> (case msg of MsgRequestVote req \<Rightarrow> name_ok (rv_candidate_id req) | _ \<Rightarrow> True)"

lemma handle_msg_evolves:
  assumes ev: "evolves n0 s0 (n, s)" and ok: "msg_ok msg"
  shows "evolving n0 s0 (handle_msg crc env net msg (n, s))"
proof (cases msg)
  case (MsgClientWrite dat)
  obtain r ns where "on_client_write crc env net dat (n, s) = (r, ns)" by (metis surj_pair)
  with on_client_write_evolves [OF ev, of crc env net dat] show ?thesis
    using MsgClientWrite by (cases r) (simp_all add: handle_msg_def)
next
  case (MsgRequestVote req)
  then show ?thesis
    using ok ev by (auto simp: handle_msg_def reply_with_def msg_ok_def intro!: evolving_and_then evolving_rules)
next
  case (MsgClientRead i)
  then show ?thesis using ev by (auto simp: handle_msg_def split: res.split)
qed (auto simp: handle_msg_def reply_with_def ev intro!: evolving_and_then evolving_rules)

lemma ps_decode_vote:
  assumes "ps_decode bs = (t, Some v)"
  shows "name_ok v"
  using ps_decode_name [OF assms] by (simp add: name_ok_def)

end
