(* ===== verification/Progress.thy ===== *)
theory Progress
  imports Leader Handlers_Evolve
begin

text \<open>
  That things happen: a candidate whom enough peers answer becomes leader, and a write that enough peers
  acknowledge is committed, on a file system without faults.
\<close>

section \<open>Elections\<close>

lemma start_election_begin_rep:
  assumes rep: "node_rep crc n s" and id: "name_ok (n_id n)"
  shows "\<exists>n' s'. start_election_begin env (n, s) =
      (Ok \<lparr>rv_term = n_term n + 1, rv_candidate_id = n_id n, rv_last_log_index = last_index (n_log n),
           rv_last_log_term = last_term (n_log n)\<rparr>, (n', s')) \<and>
    node_rep crc n' s' \<and> n_term n' = n_term n + 1 \<and> n_vote n' = Some (n_id n) \<and> n_role n' = Candidate \<and>
    n_log n' = n_log n \<and> n_peers n' = n_peers n \<and> n_config n' = n_config n \<and>
    n_commit_index n' = n_commit_index n \<and> n_snapshot n' = n_snapshot n \<and> n_entries_since_snapshot n' = n_entries_since_snapshot n"
proof -
  let ?n1 = "n\<lparr>n_ps := (n_ps n)\<lparr>ps_current_term := n_term n + 1, ps_voted_for := None\<rparr>\<rparr>"
  obtain s1 where a: "ignore_result (on_ps (advance_term (n_term n + 1)) (n, s)) = (Ok (), (?n1, s1))"
    "node_rep crc ?n1 s1"
    using node_advance_term [OF rep] by blast
  let ?n2 = "?n1\<lparr>n_ps := (n_ps ?n1)\<lparr>ps_voted_for := Some (n_id n)\<rparr>\<rparr>"
  obtain s2 where b: "ignore_result (on_ps (record_vote (n_id n)) (?n1, s1)) = (Ok (), (?n2, s2))"
    "node_rep crc ?n2 s2"
    using node_record_vote [OF a(2) id] by blast
  let ?n3 = "?n2\<lparr>n_role := Candidate, n_last_heartbeat := e_now env,
    n_election_timeout := random_election_timeout env (n_config n)\<rparr>"
  have "node_rep crc ?n3 s2" by (rule node_rep_cong [OF b(2)]) simp_all
  with a(1) b(1) show ?thesis
    by (intro exI [of _ ?n3] exI [of _ s2]) (simp add: start_election_begin_def Let_def)
qed

lemma granted_count_simps [simp]:
  "granted_count [] = 0" "granted_count (None # rs) = granted_count rs"
  "granted_count (Some resp # rs) = (if rvr_vote_granted resp then 1 else 0) + granted_count rs"
  by (simp_all add: granted_count_def)

lemma count_votes_quiet:
  "\<forall>resp. Some resp \<in> set rs \<longrightarrow> rvr_term resp \<le> n_term n \<Longrightarrow>
   count_votes env rs v (n, s) = (Ok (Some (v + granted_count rs)), (n, s))"
proof (induction rs arbitrary: v)
  case (Cons r rs)
  then show ?case by (cases r) (auto simp: not_less)
qed simp

lemma become_leader_rep: "node_rep crc n s \<Longrightarrow> node_rep crc (become_leader n) s"
  by (erule node_rep_cong) (simp_all add: become_leader_def Let_def)

lemma become_leader_simps:
  "n_role (become_leader n) = Leader" "n_ps (become_leader n) = n_ps n" "n_log (become_leader n) = n_log n"
  by (simp_all add: become_leader_def Let_def)

lemma start_election_wins:
  assumes rep: "node_rep crc n s" and id: "name_ok (n_id n)"
    and quiet: "\<forall>p \<in> set (n_peers n). \<forall>req resp. net p req = Some resp \<longrightarrow> rvr_term resp \<le> n_term n + 1"
    and won: "\<And>req. quorum (n_config n) \<le> 1 + granted_count (map (\<lambda>p. net p req) (n_peers n))"
  shows "\<exists>n' s'. start_election env net (n, s) = (Ok (), (n', s')) \<and> node_rep crc n' s' \<and>
    n_role n' = Leader \<and> n_term n' = n_term n + 1 \<and> n_log n' = n_log n"
proof -
  obtain n1 s1 req where b: "start_election_begin env (n, s) = (Ok req, (n1, s1))" "node_rep crc n1 s1"
    "n_term n1 = n_term n + 1" "n_role n1 = Candidate" "n_log n1 = n_log n" "n_peers n1 = n_peers n" "n_config n1 = n_config n"
    using start_election_begin_rep [OF rep id] by blast
  let ?rs = "map (\<lambda>p. net p req) (n_peers n)"
  have "\<forall>resp. Some resp \<in> set ?rs \<longrightarrow> rvr_term resp \<le> n_term n1" using quiet b(3) by (force simp: eq_commute)
  from count_votes_quiet [OF this, of env 1 s1] b won have "start_election env net (n, s) = (Ok (), (become_leader n1, s1))"
    by (simp add: start_election_def start_election_finish_def)
  with b show ?thesis
    by (intro exI [of _ "become_leader n1"] exI [of _ s1]) (simp add: become_leader_rep become_leader_simps)
qed

section \<open>Writes\<close>

text \<open>The nodes differ only in what the leader keeps about its peers.\<close>

definition indices_only :: "raft_node \<Rightarrow> raft_node \<Rightarrow> bool" where
  "indices_only n n' \<longleftrightarrow>
     n'\<lparr>n_match_index := Map.empty, n_next_index := Map.empty\<rparr> = n\<lparr>n_match_index := Map.empty, n_next_index := Map.empty\<rparr>"

lemma indices_only_fields:
  assumes "indices_only n n'"
  shows "n_log n' = n_log n" "n_ps n' = n_ps n" "n_snapshot n' = n_snapshot n" "n_data_dir n' = n_data_dir n"
    "n_config n' = n_config n" "n_peers n' = n_peers n" "n_id n' = n_id n" "n_snapshot_trigger n' = n_snapshot_trigger n"
    "n_entries_since_snapshot n' = n_entries_since_snapshot n" "n_role n' = n_role n"
  using assms unfolding indices_only_def
  by (auto dest: arg_cong [where f = n_log] arg_cong [where f = n_ps] arg_cong [where f = n_snapshot]
      arg_cong [where f = n_data_dir] arg_cong [where f = n_config] arg_cong [where f = n_peers] arg_cong [where f = n_id]
      arg_cong [where f = n_snapshot_trigger] arg_cong [where f = n_entries_since_snapshot] arg_cong [where f = n_role])

lemma indices_only_rep: "indices_only n n' \<Longrightarrow> node_rep crc n s \<Longrightarrow> node_rep crc n' s"
  by (erule node_rep_cong) (simp_all add: indices_only_fields)

lemma ae_acks_quiet:
  "\<forall>(p, resp) \<in> set rs. aer_term resp \<le> n_term n \<Longrightarrow>
   \<exists>n'. ae_acks env up rs a (n, s) = (Ok (False, a + successes rs), (n', s)) \<and> indices_only n n'"
proof (induction rs arbitrary: a n)
  case Nil
  then show ?case by (simp add: indices_only_def)
next
  case (Cons r rs)
  obtain p resp where r: "r = (p, resp)" by force
  have q: "\<not> n_term n < aer_term resp" "\<forall>(p, resp) \<in> set rs. aer_term resp \<le> n_term n"
    using Cons.prems r by (simp_all add: not_less)
  let ?a = "if aer_success resp then a + 1 else a"
  let ?n1 = "if aer_success resp then n\<lparr>n_match_index := (n_match_index n)(p \<mapsto> up), n_next_index := (n_next_index n)(p \<mapsto> up + 1)\<rparr>
    else if 0 < aer_conflict_index resp then n\<lparr>n_next_index := (n_next_index n)(p \<mapsto> aer_conflict_index resp)\<rparr> else n"
  have "ae_acks env up (r # rs) a (n, s) = ae_acks env up rs ?a (?n1, s)" using q(1) r by simp
  moreover have "indices_only n ?n1" by (simp add: indices_only_def)
  ultimately obtain n1 where n1: "ae_acks env up (r # rs) a (n, s) = ae_acks env up rs ?a (n1, s)" "indices_only n n1"
    by blast
  have "\<forall>(p, resp) \<in> set rs. aer_term resp \<le> n_term n1" using q(2) indices_only_fields(2) [OF n1(2)] by simp
  from Cons.IH [OF this, of ?a] n1 r show ?case by (auto simp: indices_only_def)
qed

lemma snap_acks_quiet:
  "\<forall>(p, r) \<in> set rs. \<forall>resp. r = Some resp \<longrightarrow> isr_term resp \<le> n_term n \<Longrightarrow>
   \<exists>n'. snap_acks env rs a (n, s) = (Ok (a + snap_successes rs), (n', s)) \<and> indices_only n n'"
proof (induction rs arbitrary: a n)
  case Nil
  then show ?case by (simp add: indices_only_def)
next
  case (Cons r rs)
  obtain p ans where r: "r = (p, ans)" by force
  have q: "\<forall>resp. ans = Some resp \<longrightarrow> \<not> n_term n < isr_term resp"
    "\<forall>(p, r) \<in> set rs. \<forall>resp. r = Some resp \<longrightarrow> isr_term resp \<le> n_term n"
    using Cons.prems r by (auto simp: not_less)
  let ?a = "case ans of Some resp \<Rightarrow> if isr_success resp then a + 1 else a | None \<Rightarrow> a"
  let ?i = "rl_snapshot_index (n_log n)"
  let ?n1 = "case ans of Some resp \<Rightarrow> if isr_success resp then n\<lparr>n_match_index := (n_match_index n)(p \<mapsto> ?i),
    n_next_index := (n_next_index n)(p \<mapsto> ?i + 1)\<rparr> else n | None \<Rightarrow> n"
  have "snap_acks env (r # rs) a (n, s) = snap_acks env rs ?a (?n1, s)" using q(1) r by (simp add: Let_def split: option.split)
  moreover have "indices_only n ?n1" by (simp add: indices_only_def split: option.split)
  ultimately obtain n1 where n1: "snap_acks env (r # rs) a (n, s) = snap_acks env rs ?a (n1, s)" "indices_only n n1"
    by blast
  have "\<forall>(p, r) \<in> set rs. \<forall>resp. r = Some resp \<longrightarrow> isr_term resp \<le> n_term n1"
    using q(2) indices_only_fields(2) [OF n1(2)] by simp
  from Cons.IH [OF this, of ?a] n1 r show ?case by (cases ans) (auto simp: indices_only_def)
qed

text \<open>Nobody answers with a term above \<open>t\<close>.\<close>

definition quiet :: "network \<Rightarrow> u64 \<Rightarrow> node_info \<Rightarrow> bool" where
  "quiet net t p \<longleftrightarrow>
     (\<forall>req resp. net_append_entries net p req = Some resp \<longrightarrow> aer_term resp \<le> t) \<and>
     (\<forall>req resp. net_install_snapshot net p req = Some resp \<longrightarrow> isr_term resp \<le> t)"

lemma peer_requests_ok:
  assumes "log_wf (n_log n)"
  shows "\<exists>aes snaps. peer_requests n up ps = Ok (aes, snaps) \<and> (\<forall>x \<in> set aes. fst x \<in> set ps) \<and> (\<forall>x \<in> set snaps. fst x \<in> set ps)"
proof (induction ps)
  case (Cons p ps)
  have "\<exists>req. build_append_entries_for n (ni_id p) up = Ok req"
    using entries_from_spec [OF assms] by (simp add: build_append_entries_for_def Let_def)
  with Cons show ?case by (auto split: option.split)
qed simp

lemma replicate_quiet:
  assumes wf: "log_wf (n_log n)" and q: "\<forall>p \<in> set (n_peers n). quiet net (n_term n) p"
  shows "\<exists>n'. replicate_to_peers env net up (n, s) = (Ok (1 + length (filter (acked net n up) (n_peers n))), (n', s)) \<and>
    indices_only n n'"
proof -
  obtain aes snaps where pr: "peer_requests n up (n_peers n) = Ok (aes, snaps)" "\<forall>x \<in> set aes. fst x \<in> set (n_peers n)"
    "\<forall>x \<in> set snaps. fst x \<in> set (n_peers n)"
    using peer_requests_ok [OF wf] by blast
  let ?ae = "map (\<lambda>(p, req). (ni_id p, case net_append_entries net p req of Some resp \<Rightarrow> resp | None \<Rightarrow> ae_failed)) aes"
  let ?sn = "map (\<lambda>(p, req). (ni_id p, net_install_snapshot net p req)) snaps"
  have "\<forall>(p, resp) \<in> set ?ae. aer_term resp \<le> n_term n"
    using pr(2) q by (fastforce simp: quiet_def ae_failed_def split: option.split)
  then obtain n1 where n1: "ae_acks env up ?ae 1 (n, s) = (Ok (False, 1 + successes ?ae), (n1, s))" "indices_only n n1"
    using ae_acks_quiet by blast
  have "\<forall>(p, r) \<in> set ?sn. \<forall>resp. r = Some resp \<longrightarrow> isr_term resp \<le> n_term n1"
    using pr(3) q indices_only_fields(2) [OF n1(2)] by (fastforce simp: quiet_def)
  then obtain n2 where n2: "snap_acks env ?sn (1 + successes ?ae) (n1, s) = (Ok (1 + successes ?ae + snap_successes ?sn), (n2, s))"
    "indices_only n1 n2"
    using snap_acks_quiet by blast
  have "successes ?ae + snap_successes ?sn = length (filter (acked net n up) (n_peers n))"
    by (rule peer_requests_acked [OF pr(1)])
  with pr(1) n1 n2 show ?thesis by (auto simp: replicate_to_peers_def Let_def indices_only_def)
qed

text \<open>Every request to the peer succeeds.\<close>

definition agrees :: "network \<Rightarrow> node_info \<Rightarrow> bool" where
  "agrees net p \<longleftrightarrow>
     (\<forall>req. \<exists>resp. net_append_entries net p req = Some resp \<and> aer_success resp) \<and>
     (\<forall>req. \<exists>resp. net_install_snapshot net p req = Some resp \<and> isr_success resp)"

lemma agrees_acked:
  assumes "log_wf (n_log n)" and "agrees net p"
  shows "acked net n up p"
proof -
  obtain req where req: "build_append_entries_for n (ni_id p) up = Ok req"
    using entries_from_spec [OF assms(1)] by (simp add: build_append_entries_for_def Let_def)
  obtain resp where resp: "net_append_entries net p req = Some resp" "aer_success resp"
    using assms(2) unfolding agrees_def by blast
  show ?thesis
  proof (cases "snapshot_for n (ni_id p) up")
    case None
    with req resp show ?thesis by (simp add: acked_def)
  next
    case (Some sn)
    obtain resp' where "net_install_snapshot net p (install_request n sn) = Some resp'" "isr_success resp'"
      using assms(2) unfolding agrees_def by blast
    with Some show ?thesis by (simp add: acked_def)
  qed
qed

lemma length_filter_mono: "(\<And>x. P x \<Longrightarrow> Q x) \<Longrightarrow> length (filter P xs) \<le> length (filter Q xs)"
  by (induction xs) auto

lemma write_commits:
  assumes rep: "node_rep crc n s" and lead: "n_role n = Leader"
    and b: "log_budget (n_log n) (Suc k) m" and d: "17 + length dat \<le> m"
    and q: "\<forall>p \<in> set (n_peers n). quiet net (n_term n) p"
    and maj: "quorum (n_config n) \<le> 1 + length (filter (agrees net) (n_peers n))"
    and trig: "n_entries_since_snapshot n + 1 < 100"
  shows "\<exists>n' s'. on_client_write crc env net dat (n, s) = (Ok (last_index (n_log n) + 1), (n', s')) \<and> node_rep crc n' s' \<and>
    n_commit_index n' = last_index (n_log n) + 1 \<and> n_role n' = Leader \<and>
    rl_entries (n_log n') = rl_entries (n_log n) @ [\<lparr>le_term = n_term n, le_index = last_index (n_log n) + 1, le_data = dat\<rparr>]"
proof -
  let ?i = "last_index (n_log n) + 1"
  let ?e = "\<lparr>le_term = n_term n, le_index = ?i, le_data = dat\<rparr>"
  obtain l' s1 where a: "raft_log_append crc (n_term n) dat (n_log n, s) = (Ok ?i, (l', s1))" "raft_log_rep crc l' s1"
    "rl_entries l' = rl_entries (n_log n) @ [?e]" "rl_config l' = rl_config (n_log n)" "same_outside (rl_dir (n_log n)) s s1"
    using log_append_step [OF _ b d] node_rep_log [OF rep] by blast
  let ?n1 = "n\<lparr>n_log := l'\<rparr>"
  have rep1: "node_rep crc ?n1 s1" by (rule node_log_step [OF rep a(2,4,5)])
  have wf1: "log_wf (n_log ?n1)" using node_rep_log [OF rep1] by blast
  obtain n2 where r: "replicate_to_peers env net ?i (?n1, s1) =
      (Ok (1 + length (filter (acked net ?n1 ?i) (n_peers n))), (n2, s1))" "indices_only ?n1 n2"
    using replicate_quiet [OF wf1, of net env ?i s1] q by auto
  have "length (filter (agrees net) (n_peers n)) \<le> length (filter (acked net ?n1 ?i) (n_peers n))"
    by (rule length_filter_mono) (rule agrees_acked [OF wf1])
  with maj have quor: "quorum (n_config n) \<le> 1 + length (filter (acked net ?n1 ?i) (n_peers n))" by simp
  let ?n3 = "n2\<lparr>n_commit_index := ?i, n_entries_since_snapshot := n_entries_since_snapshot n2 + 1\<rparr>"
  have "node_rep crc ?n3 s1" using indices_only_rep [OF r(2) rep1] by (rule node_rep_cong) simp_all
  moreover have "on_client_write crc env net dat (n, s) = (Ok ?i, (?n3, s1))"
    using lead a(1) r quor trig [folded not_le] rep indices_only_fields [OF r(2)]
    by (simp add: on_client_write_def on_log_def on_field_def node_rep_def Let_def)
  moreover have "n_role n2 = Leader" "n_log n2 = l'" using indices_only_fields [OF r(2)] lead by simp_all
  ultimately show ?thesis using a(3) by (intro exI [of _ ?n3] exI [of _ s1]) simp
qed

end
