(* ===== verification/Backtracking.thy ===== *)
theory Backtracking
  imports Leader
begin

text \<open>
  How a leader finds the point where a follower's log agrees with its own: it sends what follows its
  \<open>next_index\<close>, a follower whose log does not match rejects with a conflict index, and the leader continues
  from there. \<open>negotiate\<close> repeats the three calls of the code; each rejection moves \<open>next_index\<close> strictly
  down as long as the follower has no snapshot.
\<close>

fun negotiate :: "nat \<Rightarrow> env \<Rightarrow> string \<Rightarrow> u64 \<Rightarrow> raft_node \<times> fs \<Rightarrow> raft_node \<Rightarrow> nat option" where
  "negotiate 0 env p up ls f = None"
| "negotiate (Suc k) env p up (l, s) f =
     (case build_append_entries_for l p up of
        Ok req \<Rightarrow>
          (case ae_consistency req f of
             None \<Rightarrow> Some 0
           | Some resp \<Rightarrow>
               (case ae_acks env up [(p, resp)] 0 (l, s) of
                  (Ok _, ls) \<Rightarrow> map_option Suc (negotiate k env p up ls f)
                | _ \<Rightarrow> None))
      | _ \<Rightarrow> None)"

lemma build_request_prev:
  assumes "log_wf (n_log l)" and "n_next_index l p = Some i"
  shows "\<exists>req. build_append_entries_for l p up = Ok req \<and> ae_prev_log_index req = saturating_sub i 1"
  using assms entries_from_spec [OF assms(1)] by (simp add: build_append_entries_for_def next_for_def Let_def)

lemma find_bound: "k < length xs \<Longrightarrow> P (xs ! k) \<Longrightarrow> \<exists>j \<le> k. find P xs = Some (xs ! j)"
proof (induction xs arbitrary: k)
  case (Cons x xs)
  show ?case
  proof (cases "P x")
    case True
    then show ?thesis by (intro exI [of _ 0]) simp
  next
    case False
    with Cons.prems obtain k' where k: "k = Suc k'" "k' < length xs" "P (xs ! k')" by (cases k) auto
    from Cons.IH [OF k(2,3)] obtain j where "j \<le> k'" "find P xs = Some (xs ! j)" by blast
    with False k(1) show ?thesis by (intro exI [of _ "Suc j"]) simp
  qed
qed simp

lemma conflict_bounds:
  assumes wf: "log_wf (n_log f)" and s0: "rl_snapshot_index (n_log f) = 0" and rej: "ae_consistency req f = Some resp"
  shows "0 < aer_conflict_index resp \<and> aer_conflict_index resp \<le> ae_prev_log_index req \<and> 0 < ae_prev_log_index req \<and>
    \<not> aer_success resp \<and> aer_term resp = n_term f"
proof -
  let ?p = "ae_prev_log_index req" and ?l = "n_log f"
  have p: "0 < ?p" using rej by (auto simp: ae_consistency_def split: if_splits)
  have last: "unat (last_index ?l) = length (rl_entries ?l)" "length (rl_entries ?l) + 1 < 2 ^ 64"
    using log_wf_last_index [OF wf] wf s0 by (simp_all add: log_wf_def)
  have idx: "unat (le_index (rl_entries ?l ! j)) = j + 1" if "j < length (rl_entries ?l)" for j
    using wf s0 that by (simp add: log_wf_def)
  obtain k where k: "unat ?p = Suc k" using p by (cases "unat ?p") (simp_all add: u64_order)
  have t: "term_at ?l ?p = (if k < length (rl_entries ?l) then Some (le_term (rl_entries ?l ! k)) else None)"
    by (rule term_at_offset [OF wf]) (simp add: k s0)
  show ?thesis
  proof (cases "k < length (rl_entries ?l)")
    case False
    then have resp: "resp = ae_reject f (last_index ?l + 1) 0" using rej p t by (simp add: ae_consistency_def)
    have "unat (last_index ?l + 1) = length (rl_entries ?l) + 1" using last by (simp add: u64_arith)
    with False k p resp show ?thesis by (simp add: ae_reject_def u64_order)
  next
    case True
    obtain j where j: "j \<le> k" "find (\<lambda>e. le_term e = le_term (rl_entries ?l ! k)) (rl_entries ?l) = Some (rl_entries ?l ! j)"
      using find_bound [OF True, of "\<lambda>e. le_term e = le_term (rl_entries ?l ! k)"] by blast
    then have resp: "resp = ae_reject f (le_index (rl_entries ?l ! j)) (le_term (rl_entries ?l ! k))"
      using rej p t True s0 by (auto simp: ae_consistency_def first_index_of_term_def split: if_splits)
    have "unat (le_index (rl_entries ?l ! j)) = j + 1" using idx j(1) True by simp
    with j(1) k p resp show ?thesis by (simp add: ae_reject_def u64_order)
  qed
qed

lemma negotiate_returns:
  assumes "log_wf (n_log l)" and "log_wf (n_log f)" and "rl_snapshot_index (n_log f) = 0" and "n_term f \<le> n_term l"
    and "n_next_index l p = Some i" and "unat i \<le> k" and "0 < i"
  shows "\<exists>r \<le> k. negotiate k env p up (l, s) f = Some r"
  using assms
proof (induction k arbitrary: l i)
  case 0
  then show ?case by (simp add: u64_order)
next
  case (Suc k)
  obtain req where req: "build_append_entries_for l p up = Ok req" "ae_prev_log_index req = saturating_sub i 1"
    using build_request_prev [OF Suc.prems(1,5)] by blast
  have prev: "unat (ae_prev_log_index req) = unat i - 1" using req(2) saturating_sub_1 Suc.prems(7) by simp
  show ?case
  proof (cases "ae_consistency req f")
    case None
    with req(1) show ?thesis by auto
  next
    case (Some resp)
    let ?c = "aer_conflict_index resp" and ?l = "l\<lparr>n_next_index := (n_next_index l)(p \<mapsto> aer_conflict_index resp)\<rparr>"
    have b: "0 < ?c" "?c \<le> ae_prev_log_index req" "\<not> aer_success resp" "aer_term resp = n_term f"
      using conflict_bounds [OF Suc.prems(2,3) Some] by auto
    have "\<not> n_term l < aer_term resp" using b(4) Suc.prems(4) by simp
    with b have acks: "ae_acks env up [(p, resp)] 0 (l, s) = (Ok (False, 0), (?l, s))" by simp
    have "unat ?c \<le> k" using b(2) prev Suc.prems(6) by (simp add: u64_order)
    then obtain r where "r \<le> k" "negotiate k env p up (?l, s) f = Some r"
      using Suc.IH [of ?l ?c] Suc.prems b(1) by auto
    with req(1) Some acks show ?thesis by auto
  qed
qed

end
