(* ===== verification/Server.thy ===== *)
theory Server
  imports Raft_Replication
begin

text \<open>
  \<open>wal-replication/src/server.rs\<close>, the two gRPC services over the handle, and the parts of
  \<open>wal-server/src/main.rs\<close> that decide something: the validation of the arguments, the cluster
  configuration made of them and the routing of the HTTP server. gRPC, HTTP, JSON and the metrics
  recorder are external; a \<open>Status\<close> carries the error it was made of.
\<close>

section \<open>RaftService\<close>

datatype grpc_status = Internal raft_error

definition serve_append_entries where
  "serve_append_entries crc env net req a = map_err Internal (handle_append_entries crc env net req a)"

definition serve_request_vote where
  "serve_request_vote crc env net req a = map_err Internal (handle_request_vote crc env net req a)"

definition serve_install_snapshot where
  "serve_install_snapshot crc env net req a = map_err Internal (handle_install_snapshot crc env net req a)"

section \<open>WalService\<close>

record write_response =
  wr_success :: bool
  wr_index :: u64
  wr_leader_hint :: string

definition serve_write ::
  "(bytes \<Rightarrow> u32) \<Rightarrow> env \<Rightarrow> network \<Rightarrow> bytes \<Rightarrow> actor \<Rightarrow> (write_response, grpc_status) res \<times> actor" where
  "serve_write crc env net dat a =
     (case handle_write crc env net dat a of
        (Ok index, a) \<Rightarrow> (Ok \<lparr>wr_success = True, wr_index = index, wr_leader_hint = []\<rparr>, a)
      | (Err (NotLeader hint), a) \<Rightarrow>
          (Ok \<lparr>wr_success = False, wr_index = 0,
              wr_leader_hint = (case hint of Some h \<Rightarrow> h | None \<Rightarrow> [])\<rparr>, a)
      | (Err e, a) \<Rightarrow> (Err (Internal e), a)
      | (Panic, a) \<Rightarrow> (Panic, a))"

definition serve_read_from ::
  "(bytes \<Rightarrow> u32) \<Rightarrow> env \<Rightarrow> network \<Rightarrow> u64 \<Rightarrow> actor \<Rightarrow> (log_entry list, grpc_status) res \<times> actor" where
  "serve_read_from crc env net from_index a =
     and_then (map_err Internal (handle_read_from crc env net from_index a))
       (\<lambda>entries a. (Ok (map (\<lambda>e. \<lparr>le_term = le_term e, le_index = le_index e, le_data = le_data e\<rparr>) entries), a))"

section \<open>The server binary\<close>

record args =
  arg_id :: string
  arg_addr :: string
  arg_peers :: "string list"
  arg_peer_ids :: "string list"
  arg_data_dir :: path

datatype args_error = EmptyId | PeerCountMismatch nat nat

definition validate_args :: "args \<Rightarrow> args_error + unit" where
  "validate_args a =
     (if arg_id a = [] then Inl EmptyId
      else if length (arg_peer_ids a) \<noteq> length (arg_peers a) then
        Inl (PeerCountMismatch (length (arg_peer_ids a)) (length (arg_peers a)))
      else Inr ())"

definition args_config :: "args \<Rightarrow> cluster_config" where
  "args_config a =
     (let peers = map (\<lambda>(i, ad). \<lparr>ni_id = i, ni_addr = ad\<rparr>) (zip (arg_peer_ids a) (arg_peers a));
          this_node = \<lparr>ni_id = arg_id a, ni_addr = arg_addr a\<rparr>
      in cluster_config_new this_node peers (arg_data_dir a))"

datatype http_body = HealthOk | MetricsText | StatusOk | NotFoundBody

definition handle_http :: "string \<Rightarrow> nat \<times> http_body" where
  "handle_http p =
     (if p = ''/health'' \<or> p = ''/healthz'' then (200, HealthOk)
      else if p = ''/metrics'' then (200, MetricsText)
      else if p = ''/status'' then (200, StatusOk)
      else (404, NotFoundBody))"

end
