(* ===== verification/Node_Properties.thy ===== *)
theory Node_Properties
  imports Sample_Node Compaction Progress Backtracking Server
begin

text \<open>
  What one node guarantees, each theorem with a witness on concrete input. \<open>node_rep\<close> says that a node's
  disk holds its term, vote, log and snapshot; the file system is then without faults. Theorems about
  faults say so.
\<close>

section \<open>Restart\<close>

text \<open>C17: restart. Starting a node from the disk of a running one gives the same node back, with its term, vote, log
  and snapshot; it is a follower, and has forgotten its commit index, the leader and the peers' progress.\<close>

theorem node_restart:
  assumes "node_rep crc n s"
  shows "node_start crc env (n_config n) s = (Ok (restarted env n), s) \<and> n_ps (restarted env n) = n_ps n \<and>
    n_log (restarted env n) = n_log n \<and> n_snapshot (restarted env n) = n_snapshot n \<and> n_role (restarted env n) = Follower"
  using node_start_rep [OF assms] by (simp add: restarted_def)

theorem node_restart_witness:
  "node_start sum_crc still (three_config ''A'' ''B'' ''C'') (started_fs ''A'') = (Ok (restarted still node_A), started_fs ''A'')"
  using node_restart [OF node_A_rep, of still] by simp

section \<open>RequestVote\<close>

definition vote_for_B :: request_vote_request where
  "vote_for_B = \<lparr>rv_term = 1, rv_candidate_id = ''B'', rv_last_log_index = 0, rv_last_log_term = 0\<rparr>"

lemma vote_for_B_simps [simp]:
  "rv_term vote_for_B = 1" "rv_candidate_id vote_for_B = ''B''" "rv_last_log_index vote_for_B = 0" "rv_last_log_term vote_for_B = 0"
  by (simp_all add: vote_for_B_def)

text \<open>C9: a vote is granted exactly when the request's term is not old, the node has not voted for somebody else in
  that term, and the candidate's log is at least as up to date; term and vote are then on disk. The log is
  never changed.\<close>

theorem request_vote_spec:
  assumes rep: "node_rep crc n s" and c: "name_ok (rv_candidate_id req)"
  shows "\<exists>resp n' s'. on_request_vote env req (n, s) = (Ok resp, (n', s')) \<and> node_rep crc n' s' \<and> n_log n' = n_log n \<and>
    (rvr_vote_granted resp \<longleftrightarrow> n_term n \<le> rv_term req \<and>
       (n_term n < rv_term req \<or> n_vote n = None \<or> n_vote n = Some (rv_candidate_id req)) \<and>
       (last_term (n_log n) < rv_last_log_term req \<or>
        rv_last_log_term req = last_term (n_log n) \<and> last_index (n_log n) \<le> rv_last_log_index req)) \<and>
    n_term n' = max (n_term n) (rv_term req) \<and> rvr_term resp = n_term n' \<and>
    (rvr_vote_granted resp \<longrightarrow> vote_cell.stored (n_data_dir n) s' = (rv_term req, Some (rv_candidate_id req)))"
proof -
  obtain s' where r: "on_request_vote env req (n, s) =
      (Ok (rv_answer (after_vote env req n) (grants req n)), (after_vote env req n, s'))"
    "node_rep crc (after_vote env req n) s'"
    using on_request_vote_rep [OF rep c] by blast
  have "n_log (after_vote env req n) = n_log n" "n_term (after_vote env req n) = max (n_term n) (rv_term req)"
    "n_data_dir (after_vote env req n) = n_data_dir n"
    "grants req n \<longrightarrow> n_vote (after_vote env req n) = Some (rv_candidate_id req)"
    by (auto simp: after_vote_def Let_def in_term_def grants_def)
  moreover have "grants req n \<longrightarrow> max (n_term n) (rv_term req) = rv_term req" by (simp add: grants_def)
  moreover have "vote_cell.stored (n_data_dir (after_vote env req n)) s' = (n_term (after_vote env req n), n_vote (after_vote env req n))"
    using r(2) by (simp add: node_rep_def ps_synced_def)
  ultimately show ?thesis
    using r by (intro exI [of _ "rv_answer (after_vote env req n) (grants req n)"] exI [of _ "after_vote env req n"] exI [of _ s'])
      (auto simp: rv_answer_def grants_def log_ok_def)
qed

theorem request_vote_spec_witness:
  "\<exists>resp n' s'. on_request_vote still vote_for_B (node_A, started_fs ''A'') = (Ok resp, (n', s')) \<and> rvr_vote_granted resp \<and>
     vote_cell.stored [''A''] s' = (1, Some ''B'')"
  using request_vote_spec [OF node_A_rep, of vote_for_B still] by auto

text \<open>C12: whatever message arrives and whatever the file system does, the pair of term and vote never goes back: not in
  memory, not on disk, and the disk is never ahead of the memory. In one term a vote is never changed.\<close>

theorem ballot_monotone:
  assumes "node_inv n s" and "msg_ok msg" and "handle_msg crc env net msg (n, s) = (r, (n', s'))"
  shows "n_ballot n \<le> n_ballot n' \<and> disk_ballot (n_data_dir n) s \<le> disk_ballot (n_data_dir n) s' \<and>
    disk_ballot (n_data_dir n) s' \<le> n_ballot n'"
proof -
  have "evolves n s (n', s')"
    using handle_msg_evolves [OF evolves_refl [OF assms(1)] assms(2), of crc env net] assms(3) by (simp add: outcome_def)
  then show ?thesis by (auto simp: evolves_def same_node_def)
qed

lemma node_A_inv: "node_inv node_A (started_fs ''A'' \<lparr>faults := fl\<rparr>)"
proof -
  have "vote_cell.stored [''A''] (started_fs ''A'' \<lparr>faults := fl\<rparr>) = vote_cell.stored [''A''] (started_fs ''A'')"
    by (simp add: vote_cell.stored_def)
  then have "disk_ballot [''A''] (started_fs ''A'' \<lparr>faults := fl\<rparr>) = Ballot 0 None" by (simp add: disk_ballot_def)
  moreover have "node_ok node_A"
    by (simp add: node_ok_def in_dir_def sample_wal_def node_wal_config_def path_join_def) (simp add: started_def STATE_FILE_def)
  ultimately show ?thesis by (simp add: node_inv_def n_ballot_def)
qed

theorem ballot_monotone_witness:
  "\<exists>r n' s'. handle_msg sum_crc still yes_net (MsgRequestVote vote_for_B) (node_A, started_fs ''A'' \<lparr>faults := [Pass, Refuse]\<rparr>) = (r, (n', s')) \<and>
     Ballot 0 None \<le> n_ballot n'"
proof -
  obtain r n' s' where run: "handle_msg sum_crc still yes_net (MsgRequestVote vote_for_B) (node_A, started_fs ''A'' \<lparr>faults := [Pass, Refuse]\<rparr>) = (r, (n', s'))"
    by (metis surj_pair)
  have "msg_ok (MsgRequestVote vote_for_B)" by (simp add: msg_ok_def)
  from ballot_monotone [OF node_A_inv this run] run show ?thesis by (auto simp: n_ballot_def)
qed

section \<open>AppendEntries\<close>

text \<open>C10: an AppendEntries request that matches the log at its previous index is accepted. If the log already has
  the entries of the request it stays as it is, longer tail included; otherwise it becomes the part up to the previous
  index followed by the entries, on disk too. The commit index moves to the leader's, capped by the last
  entry; the node follows the sender in its term.\<close>

theorem append_entries_accepts:
  assumes rep: "node_rep crc n s" and t: "n_term n \<le> ae_term req"
    and cons: "ae_consistency req n = None" and snap: "rl_snapshot_index (n_log n) \<le> ae_prev_log_index req"
    and num: "numbered_from (ae_prev_log_index req) (ae_entries req)"
    and same: "same_entries (unat (ae_prev_log_index req) - unat (rl_snapshot_index (n_log n))) (ae_entries req) (rl_entries (n_log n))"
    and b: "log_budget (n_log n) (2 * length (ae_entries req)) m" and d: "\<forall>e \<in> set (ae_entries req). 17 + length (le_data e) \<le> m"
  shows "\<exists>resp n' s'. on_append_entries crc env req (n, s) = (Ok resp, (n', s')) \<and> aer_success resp \<and> aer_term resp = ae_term req \<and>
    node_rep crc n' s' \<and> n_role n' = Follower \<and> n_current_leader n' = Some (ae_leader_id req) \<and> n_term n' = ae_term req \<and>
    rl_snapshot_index (n_log n') = rl_snapshot_index (n_log n) \<and>
    rl_entries (n_log n') =
      (let k = unat (ae_prev_log_index req) - unat (rl_snapshot_index (n_log n)) in
       if terms_match k (ae_entries req) (rl_entries (n_log n)) then rl_entries (n_log n)
       else take k (rl_entries (n_log n)) @ ae_entries req) \<and>
    n_commit_index n' = (if n_commit_index n < ae_leader_commit req then min (ae_leader_commit req) (last_index (n_log n'))
                         else n_commit_index n)"
proof -
  let ?k = "unat (ae_prev_log_index req) - unat (rl_snapshot_index (n_log n))"
  let ?n = "\<lambda>l'. committed (ae_leader_commit req) (followed env (ae_term req) (ae_leader_id req) n\<lparr>n_log := l'\<rparr>)"
  obtain l' s' where r: "on_append_entries crc env req (n, s) =
      (Ok \<lparr>aer_term = ae_term req, aer_success = True, aer_conflict_index = 0, aer_conflict_term = 0\<rparr>, (?n l', s'))"
    "node_rep crc (?n l') s'" "rl_entries l' = merge ?k (ae_entries req) (rl_entries (n_log n))"
    "rl_snapshot_index l' = rl_snapshot_index (n_log n)" "?k \<le> length (rl_entries (n_log n))"
    using on_append_entries_rep [OF rep t cons snap num b d] by blast
  have "n_current_leader (?n l') = Some (ae_leader_id req)" "n_term (?n l') = ae_term req" "n_role (?n l') = Follower"
    "n_log (?n l') = l'" "n_commit_index (?n l') = (if n_commit_index n < ae_leader_commit req
       then min (ae_leader_commit req) (last_index l') else n_commit_index n)"
    using t by (auto simp: committed_def max_def)
  with r merge_cases [OF r(5) same] show ?thesis
    by (intro exI [of _ "\<lparr>aer_term = ae_term req, aer_success = True, aer_conflict_index = 0, aer_conflict_term = 0\<rparr>"]
        exI [of _ "?n l'"] exI [of _ s']) (simp add: Let_def)
qed

definition append_one :: append_entries_request where
  "append_one = \<lparr>ae_term = 2, ae_leader_id = ''B'', ae_prev_log_index = 0, ae_prev_log_term = 0,
     ae_entries = [\<lparr>le_term = 2, le_index = 1, le_data = [5]\<rparr>], ae_leader_commit = 1\<rparr>"

lemma append_one_simps [simp]:
  "ae_term append_one = 2" "ae_leader_id append_one = ''B''" "ae_prev_log_index append_one = 0"
  "ae_entries append_one = [\<lparr>le_term = 2, le_index = 1, le_data = [5]\<rparr>]" "ae_leader_commit append_one = 1"
  by (simp_all add: append_one_def)

theorem append_entries_accepts_witness:
  "\<exists>resp n' s'. on_append_entries sum_crc still append_one (node_A, started_fs ''A'') = (Ok resp, (n', s')) \<and> aer_success resp \<and>
     rl_entries (n_log n') = [\<lparr>le_term = 2, le_index = 1, le_data = [5]\<rparr>] \<and> node_rep sum_crc n' s'"
proof -
  have "ae_consistency append_one node_A = None" by (simp add: ae_consistency_def)
  moreover have "numbered_from 0 (ae_entries append_one)" by (simp add: numbered_from_def)
  moreover have "same_entries 0 (ae_entries append_one) []" by (simp add: same_entries_def)
  moreover have "log_budget (n_log node_A) 2 100" by (rule started_budget) simp_all
  ultimately show ?thesis
    using append_entries_accepts [OF node_A_rep, of append_one 100 still] by (auto simp: terms_match_def numeral_2_eq_2)
qed

text \<open>C23: a request that does not match at its previous index is rejected, and the log stays as it is; the
  node follows the sender in its term.\<close>

theorem append_entries_mismatch:
  assumes rep: "node_rep crc n s" and t: "n_term n \<le> ae_term req" and prev: "0 < ae_prev_log_index req"
    and mis: "term_at (n_log n) (ae_prev_log_index req) \<noteq> Some (ae_prev_log_term req)"
  shows "\<exists>resp n' s'. on_append_entries crc env req (n, s) = (Ok resp, (n', s')) \<and> \<not> aer_success resp \<and> aer_term resp = ae_term req \<and>
    node_rep crc n' s' \<and> n_log n' = n_log n \<and> n_commit_index n' = n_commit_index n \<and> n_term n' = ae_term req"
proof -
  let ?n = "followed env (ae_term req) (ae_leader_id req) n"
  obtain resp where resp: "ae_consistency req ?n = Some resp" "\<not> aer_success resp" "aer_term resp = n_term ?n"
    using prev mis by (cases "term_at (n_log n) (ae_prev_log_index req)")
      (auto simp: ae_consistency_def ae_reject_def split: option.splits)
  with on_append_entries_mismatch [OF rep t resp(1)] t show ?thesis by (auto simp: max_def)
qed

theorem append_entries_mismatch_witness:
  "\<exists>resp n' s'. on_append_entries sum_crc still (append_one\<lparr>ae_prev_log_index := 4, ae_prev_log_term := 1\<rparr>) (node_A, started_fs ''A'') = (Ok resp, (n', s')) \<and>
     \<not> aer_success resp \<and> n_log n' = n_log node_A"
proof -
  have "term_at (n_log node_A) 4 = None" by (simp add: term_at_def get_entry_def)
  then show ?thesis
    using append_entries_mismatch [OF node_A_rep, of "append_one\<lparr>ae_prev_log_index := 4, ae_prev_log_term := 1\<rparr>" still] by auto
qed

text \<open>Requests of an old term are refused with the node's own term, and change nothing at all.\<close>

lemma old_terms_refused:
  "(ae_term areq < n_term n \<longrightarrow> on_append_entries crc env areq (n, s) =
      (Ok \<lparr>aer_term = n_term n, aer_success = False, aer_conflict_index = 0, aer_conflict_term = 0\<rparr>, (n, s))) \<and>
   (rv_term vreq < n_term n \<longrightarrow> on_request_vote env vreq (n, s) = (Ok \<lparr>rvr_term = n_term n, rvr_vote_granted = False\<rparr>, (n, s))) \<and>
   (is_term sreq < n_term n \<longrightarrow> on_install_snapshot crc env sreq (n, s) = (Ok \<lparr>isr_term = n_term n, isr_success = False\<rparr>, (n, s)))"
  by (auto simp: on_append_entries_def on_request_vote_def on_install_snapshot_def ae_reject_def rv_answer_def is_answer_def)

lemma old_terms_refused_sample:
  "on_request_vote still vote_for_B (node_A\<lparr>n_ps := (n_ps node_A)\<lparr>ps_current_term := 9\<rparr>\<rparr>, started_fs ''A'') =
     (Ok \<lparr>rvr_term = 9, rvr_vote_granted = False\<rparr>, (node_A\<lparr>n_ps := (n_ps node_A)\<lparr>ps_current_term := 9\<rparr>\<rparr>, started_fs ''A''))"
  using old_terms_refused [of append_one "node_A\<lparr>n_ps := (n_ps node_A)\<lparr>ps_current_term := 9\<rparr>\<rparr>" sum_crc still "started_fs ''A''" vote_for_B
    "\<lparr>is_term = 1, is_leader_id = ''B'', is_last_included_index = 1, is_last_included_term = 1, is_data = []\<rparr>"]
  by simp

section \<open>The leader\<close>

lemma yes_net_simps [simp]: "quiet yes_net t p" "agrees yes_net p"
  by (simp_all add: quiet_def agrees_def yes_net_def)

lemma lead_A_rep: "node_rep sum_crc lead_A (started_fs ''A'')"
  by (rule node_rep_role [OF node_A_rep])

text \<open>C14: progress. On a healthy disk, a client write to a leader is committed if a majority of the cluster, the
  leader included, acknowledges what it is sent and nobody answers with a higher term: the call returns the new
  index, the entry is at the end of the log on disk, and the commit index is that index.\<close>

theorem client_write_commits:
  assumes "node_rep crc n s" and "n_role n = Leader" and "log_budget (n_log n) (Suc k) m" and "17 + length dat \<le> m"
    and "\<forall>p \<in> set (n_peers n). quiet net (n_term n) p"
    and "quorum (n_config n) \<le> 1 + length (filter (agrees net) (n_peers n))"
    and "n_entries_since_snapshot n + 1 < 100"
  shows "\<exists>n' s'. on_client_write crc env net dat (n, s) = (Ok (last_index (n_log n) + 1), (n', s')) \<and> node_rep crc n' s' \<and>
    n_commit_index n' = last_index (n_log n) + 1 \<and> n_role n' = Leader \<and>
    rl_entries (n_log n') = rl_entries (n_log n) @ [\<lparr>le_term = n_term n, le_index = last_index (n_log n) + 1, le_data = dat\<rparr>]"
  by (rule write_commits [OF assms])

theorem client_write_commits_witness:
  "\<exists>n' s'. on_client_write sum_crc still yes_net [9] (lead_A, started_fs ''A'') = (Ok 1, (n', s')) \<and> n_commit_index n' = 1 \<and>
     rl_entries (n_log n') = [\<lparr>le_term = 0, le_index = 1, le_data = [9]\<rparr>]"
  using client_write_commits [OF lead_A_rep, of 0 100 "[9]" yes_net still] started_budget [of 1 100] by auto





text \<open>C13: one round of replication. The leader builds a request from what it keeps about a follower, the follower's
  log matches at the previous index and agrees with the leader's wherever index and term are the same: then the
  follower accepts, and afterwards has every entry of the leader from \<open>next_index\<close> to the index replicated.\<close>

theorem replication_reaches_follower:
  assumes "log_wf (n_log l)" and "rl_snapshot_index (n_log l) < next_for l p up" and "next_for l p up \<le> up + 1" and "up < up + 1"
    and "build_append_entries_for l p up = Ok req"
    and "node_rep crc f s" and "n_term f \<le> n_term l" and "ae_consistency req f = None"
    and "rl_snapshot_index (n_log f) < next_for l p up"
    and "log_budget (n_log f) (2 * length (ae_entries req)) m" and "\<forall>e \<in> set (ae_entries req). 17 + length (le_data e) \<le> m"
    and "\<And>i e e'. log_map (n_log l) i = Some e \<Longrightarrow> log_map (n_log f) i = Some e' \<Longrightarrow> le_term e = le_term e' \<Longrightarrow> e = e'"
  shows "\<exists>resp f' s'. on_append_entries crc env req (f, s) = (Ok resp, (f', s')) \<and> aer_success resp \<and> node_rep crc f' s' \<and>
    (\<forall>i. unat (next_for l p up) \<le> i \<longrightarrow> i \<le> unat up \<longrightarrow> log_map (n_log l) i \<noteq> None \<longrightarrow> log_map (n_log f') i = log_map (n_log l) i)"
  by (rule replication_round [OF assms])

definition leader_1 :: raft_node where
  "leader_1 = lead_A\<lparr>n_next_index := [''B'' \<mapsto> 1],
     n_log := (n_log node_A)\<lparr>rl_entries := [\<lparr>le_term = 0, le_index = 1, le_data = [4]\<rparr>]\<rparr>\<rparr>"

lemma leader_1_simps [simp]:
  "rl_snapshot_index (n_log leader_1) = 0" "rl_entries (n_log leader_1) = [\<lparr>le_term = 0, le_index = 1, le_data = [4]\<rparr>]"
  "next_for leader_1 ''B'' up = 1" "n_term leader_1 = 0" "log_wf (n_log leader_1)"
  by (simp_all add: leader_1_def next_for_def log_wf_def)

theorem replication_reaches_follower_witness:
  "\<exists>req resp f' s'. build_append_entries_for leader_1 ''B'' 1 = Ok req \<and>
     on_append_entries sum_crc still req (started (three_config ''B'' ''A'' ''C''), started_fs ''B'') = (Ok resp, (f', s')) \<and>
     log_map (n_log f') 1 = log_map (n_log leader_1) 1"
proof -
  let ?f = "started (three_config ''B'' ''A'' ''C'')"
  have rep: "node_rep sum_crc ?f (started_fs ''B'')" by (rule started_rep) simp_all
  obtain req where req: "build_append_entries_for leader_1 ''B'' 1 = Ok req" "unat (ae_prev_log_index req) = 0"
    "ae_entries req = [\<lparr>le_term = 0, le_index = 1, le_data = [4]\<rparr>]"
    using build_request [of leader_1 "''B''" 1] by auto
  have "ae_consistency req ?f = None" using req(2) by (simp add: ae_consistency_def unat_eq_zero)
  moreover have "log_budget (n_log ?f) 2 100" by (rule started_budget) simp_all
  moreover have "log_map (n_log ?f) i \<noteq> Some e'" for i e' by (simp add: log_map_def get_entry_def)
  moreover have "log_map (n_log leader_1) 1 \<noteq> None" by (simp add: log_map_def get_entry_def)
  ultimately show ?thesis
    using replication_reaches_follower [of leader_1 "''B''" 1 req sum_crc ?f "started_fs ''B''" 100 still] req rep by fastforce
qed

text \<open>C16: finding the point of agreement terminates. As long as the follower has no snapshot, every rejection moves the
  leader's \<open>next_index\<close> for it strictly down, so that after at most as many rejections as \<open>next_index\<close> the follower
  accepts.\<close>

theorem backtracking_terminates:
  assumes "log_wf (n_log l)" and "log_wf (n_log f)" and "rl_snapshot_index (n_log f) = 0" and "n_term f \<le> n_term l"
    and "n_next_index l p = Some i" and "0 < i"
  shows "\<exists>r \<le> unat i. negotiate (unat i) env p up (l, s) f = Some r"
  by (rule negotiate_returns [OF assms(1-5) order_refl assms(6)])

theorem backtracking_terminates_witness:
  "\<exists>r \<le> 1. negotiate 1 still ''B'' 1 (leader_1, empty_fs) node_A = Some r"
proof -
  have "log_wf (n_log node_A)" and "n_next_index leader_1 ''B'' = Some 1" by (simp_all add: log_wf_def leader_1_def)
  from backtracking_terminates [OF _ this(1) _ _ this(2), of still 1 empty_fs] show ?thesis by simp
qed

text \<open>C15: progress. On a healthy disk a node that starts an election becomes leader of the next term if the votes it is
  granted make a majority with its own, and nobody answers with a higher term.\<close>

theorem election_won:
  assumes "node_rep crc n s" and "name_ok (n_id n)"
    and "\<forall>p \<in> set (n_peers n). \<forall>req resp. net p req = Some resp \<longrightarrow> rvr_term resp \<le> n_term n + 1"
    and "\<And>req. quorum (n_config n) \<le> 1 + granted_count (map (\<lambda>p. net p req) (n_peers n))"
  shows "\<exists>n' s'. start_election env net (n, s) = (Ok (), (n', s')) \<and> node_rep crc n' s' \<and>
    n_role n' = Leader \<and> n_term n' = n_term n + 1 \<and> n_log n' = n_log n"
  by (rule start_election_wins [OF assms])

theorem election_won_witness:
  "\<exists>n' s'. start_election still (net_request_vote yes_net) (node_A, started_fs ''A'') = (Ok (), (n', s')) \<and> n_role n' = Leader \<and> n_term n' = 1"
  using election_won [OF node_A_rep, of "net_request_vote yes_net" still] by (auto simp: yes_net_def)

section \<open>Snapshots\<close>

text \<open>C22: taking a snapshot saves the committed entries of the log with the commit index and its term, then drops
  them from the log; the disk agrees with the memory. (Space for one record, and a WAL where truncation
  deletes no later entry, are assumed.)\<close>

theorem take_snapshot_spec:
  assumes "node_rep crc n s" and "snapshot_fits (snapshot_of n)" and "log_budget (n_log n) 1 m"
    and "rl_snapshot_index (n_log n) < n_commit_index n" and "unat (n_commit_index n) + 1 < 2 ^ 64"
    and "snapshot_safe crc (n_commit_index n) (sn_last_included_term (snapshot_of n)) (n_log n) s"
  shows "\<exists>n' s'. take_snapshot crc (n, s) = (Ok (), (n', s')) \<and> node_rep crc n' s' \<and> n_snapshot n' = Some (snapshot_of n) \<and>
    rl_snapshot_index (n_log n') = n_commit_index n \<and> rl_entries (n_log n') = filter (\<lambda>e. n_commit_index n < le_index e) (rl_entries (n_log n)) \<and>
    n_commit_index n' = n_commit_index n"
  using take_snapshot_rep [OF assms] by (fastforce simp: snapshotted_def)

lemma snapshot_safe_started: "snapshot_safe crc li lt (n_log (started cfg)) s"
  by (simp add: snapshot_safe_def one_segment_def would_overflow_def HEADER_SIZE_def encode_snapshot_def)

theorem take_snapshot_spec_witness:
  "\<exists>n' s'. take_snapshot sum_crc (node_A\<lparr>n_commit_index := 3\<rparr>, started_fs ''A'') = (Ok (), (n', s')) \<and> rl_snapshot_index (n_log n') = 3"
proof -
  have "node_rep sum_crc (node_A\<lparr>n_commit_index := 3\<rparr>) (started_fs ''A'')" by (rule node_rep_cong [OF node_A_rep]) simp_all
  moreover have "snapshot_fits (snapshot_of (node_A\<lparr>n_commit_index := 3\<rparr>))"
    by (simp add: snapshot_fits_def snapshot_of_def encode_entries_def)
  ultimately show ?thesis
    using take_snapshot_spec [of sum_crc "node_A\<lparr>n_commit_index := 3\<rparr>" "started_fs ''A''" 100] started_budget [of 1 100]
      snapshot_safe_started by auto
qed



section \<open>The server\<close>

text \<open>C40: arguments that pass validation give a cluster configuration with one peer for each id and address, in order,
  a nonempty node id, and a majority of the whole cluster as quorum.\<close>

theorem valid_args_config:
  assumes "validate_args a = Inr ()"
  shows "ni_id (cc_this_node (args_config a)) \<noteq> [] \<and> map ni_id (cc_peers (args_config a)) = arg_peer_ids a \<and>
    map ni_addr (cc_peers (args_config a)) = arg_peers a \<and> cluster_size (args_config a) < 2 * quorum (args_config a) \<and>
    quorum (args_config a) \<le> cluster_size (args_config a)"
proof -
  have eq: "length (arg_peer_ids a) = length (arg_peers a)" "arg_id a \<noteq> []"
    using assms by (auto simp: validate_args_def split: if_splits)
  then have "map ni_id (cc_peers (args_config a)) = arg_peer_ids a" "map ni_addr (cc_peers (args_config a)) = arg_peers a"
    by (simp_all add: args_config_def Let_def cluster_config_new_def comp_def split_beta')
  with eq(2) show ?thesis by (auto simp: args_config_def Let_def cluster_config_new_def quorum_def cluster_size_def)
qed

theorem valid_args_config_witness:
  "map ni_id (cc_peers (args_config \<lparr>arg_id = ''A'', arg_addr = ''x'', arg_peers = [''y''], arg_peer_ids = [''B''], arg_data_dir = [''d'']\<rparr>)) = [''B'']"
  using valid_args_config [of "\<lparr>arg_id = ''A'', arg_addr = ''x'', arg_peers = [''y''], arg_peer_ids = [''B''], arg_data_dir = [''d'']\<rparr>"]
  by (simp add: validate_args_def)

end
