(* ===== verification/Restart.thy ===== *)
theory Restart
  imports Handlers_Evolve
begin

text \<open>
  \<open>RaftNode::start\<close> on any directory, also one that a crash has left behind: if it succeeds, the node
  is a follower whose ballot is the one on disk, and the disk still has it.
\<close>

section \<open>Opening the WAL\<close>

lemma checkpoint_open_step:
  assumes "fs_step d s0 s"
  shows "outcome (fs_step d s0) (\<lambda>c. butlast (cp_path c) = d) (checkpoint_open d s)"
  unfolding checkpoint_open_def Let_def
  by (auto intro!: outcome_and_then [where Q = "\<lambda>_. True"] outcome_fs fs_steps assms)

lemma list_segments_step:
  assumes "fs_step d s0 s"
  shows "outcome (fs_step d s0) (\<lambda>ps. \<forall>p \<in> set ps. butlast p = d) (list_segments d s)"
proof -
  have "outcome (fs_step d s0) (\<lambda>_. True) (fs_read_dir d s)"
    by (rule outcome_fs [OF _ assms]) (rule fs_steps)
  then have "outcome (fs_step d s0) (\<lambda>ps. \<forall>p \<in> set ps. butlast p = d) (fs_read_dir d s)"
    by (auto simp: outcome_def fs_read_dir_def io_call_def Let_def split: list.splits fault.splits)
  then have "outcome (fs_step d s0) (\<lambda>ps. \<forall>p \<in> set ps. butlast p = d) (map_err Io (fs_read_dir d s))"
    by simp
  then show ?thesis
    unfolding list_segments_def by (rule outcome_and_then) auto
qed

lemma read_entries_step: "fs_step d s0 s \<Longrightarrow> outcome (fs_step d s0) (\<lambda>_. True) (read_entries crc p s)"
  unfolding read_entries_def
  by (rule outcome_and_then [where Q = "\<lambda>_. True"]) (auto intro!: outcome_fs outcome_pure fs_steps)

lemma highest_sealed_step:
  "fs_step d s0 s \<Longrightarrow> outcome (fs_step d s0) (\<lambda>_. True) (highest_sealed crc d' ids s)"
  by (induction ids arbitrary: s) (auto intro!: outcome_and_then [where Q = "\<lambda>_. True"] read_entries_step)

lemma highest_sequence_step:
  "fs_step d s0 s \<Longrightarrow> outcome (fs_step d s0) (\<lambda>_. True) (highest_sequence_on_disk crc p ids d' s)"
  by (auto simp: highest_sequence_on_disk_def intro!: outcome_and_then [where Q = "\<lambda>_. True"] read_entries_step highest_sealed_step)

lemma segment_open_step:
  assumes "fs_step d s0 s" and "butlast p = d"
  shows "outcome (fs_step d s0) (\<lambda>g. butlast (seg_path g) = d) (segment_open_for_append p m s)"
  using assms
  by (auto simp: segment_open_for_append_def intro!: outcome_and_then [where Q = "\<lambda>_. True"] outcome_fs outcome_pure fs_steps)

lemma wal_open_step:
  assumes "fs_step d s0 s" and d: "wc_dir cfg = d"
  shows "outcome (fs_step d s0) (in_dir d) (wal_open crc cfg s)"
  unfolding wal_open_def Let_def d
proof (rule outcome_and_then [where Q = "\<lambda>_. True"], goal_cases)
  case 1
  then show ?case by (auto intro!: outcome_fs fs_steps assms)
next
  case (2 u s)
  show ?case
  proof (rule outcome_and_then [OF checkpoint_open_step], goal_cases)
    case (2 cp s)
    show ?case
    proof (rule outcome_and_then [OF list_segments_step], goal_cases)
      case ls: (2 existing s)
      have last: "existing \<noteq> [] \<Longrightarrow> butlast (last existing) = d" using ls by simp
      let ?P = "\<lambda>(g, ids, q). butlast (seg_path g) = d"
      have "outcome (fs_step d s0) ?P
        (if existing = [] then
           and_then (segment_create d 1 (wc_max_segment_bytes cfg) s) (\<lambda>seg s. (Ok (seg, [], 1), s))
         else
           and_then (unwrap_ids (butlast existing), s) (\<lambda>sealed_ids s.
           and_then (segment_open_for_append (last existing) (wc_max_segment_bytes cfg) s) (\<lambda>active_seg s.
           and_then (highest_sequence_on_disk crc (last existing) sealed_ids d s) (\<lambda>highest s.
             (Ok (active_seg, sealed_ids, case highest of Some q \<Rightarrow> q + 1 | None \<Rightarrow> 1), s)))))"
        using ls(2) last
        by (auto intro!: outcome_and_then [OF segment_create_step] outcome_and_then [OF segment_open_step]
            outcome_and_then [OF highest_sequence_step] outcome_and_then [where m = "(unwrap_ids (butlast existing), s)" and Q = "\<lambda>_. True"]
            outcome_pure)
      then show ?case
        by (rule outcome_and_then) (use 2(1) d in \<open>auto simp: in_dir_def\<close>)
    qed (use 2 in auto)
  qed (use 2 in auto)
qed

lemma read_sealed_step: "fs_step d s0 s \<Longrightarrow> outcome (fs_step d s0) (\<lambda>_. True) (read_sealed crc d' q ids s)"
  by (induction ids arbitrary: s) (auto intro!: outcome_and_then [where Q = "\<lambda>_. True"] read_entries_step)

lemma wal_read_step: "fs_step d s0 s \<Longrightarrow> outcome (fs_step d s0) (\<lambda>_. True) (wal_read_from crc w q s)"
  by (auto simp: wal_read_from_def intro!: outcome_and_then [where Q = "\<lambda>_. True"] read_sealed_step read_entries_step)

lemma raft_log_open_step:
  assumes "fs_step d s0 s" and "wc_dir cfg = d"
  shows "outcome (fs_step d s0) (\<lambda>l. in_dir d (rl_wal l)) (raft_log_open crc cfg s)"
  unfolding raft_log_open_def
proof (rule outcome_and_then [where Q = "in_dir d"], goal_cases)
  case 1
  show ?case using wal_open_step [OF assms] by simp
next
  case (2 w s)
  then show ?case
    by (auto intro!: outcome_and_then [where Q = "\<lambda>_. True"] wal_read_step split: prod.split)
qed

section \<open>Starting the node\<close>

definition config_ok :: "cluster_config \<Rightarrow> bool" where
  "config_ok cfg \<longleftrightarrow> name_ok (ni_id (cc_this_node cfg))"

definition of_config :: "cluster_config \<Rightarrow> raft_node \<Rightarrow> bool" where
  "of_config cfg n \<longleftrightarrow> n_config n = cfg \<and> n_id n = ni_id (cc_this_node cfg) \<and>
     n_peers n = cc_peers cfg \<and> n_data_dir n = cc_data_dir cfg"

lemma of_config_same: "of_config cfg n \<Longrightarrow> same_node n n' \<Longrightarrow> of_config cfg n'"
  by (simp add: of_config_def same_node_def)

lemma snapshot_load_files: "healthy s \<Longrightarrow> snd (snapshot_load dir s) = s"
  by (simp add: snapshot_load_healthy)

lemma node_start_run:
  assumes h: "healthy s" and cfg: "config_ok cfg" and run: "node_start crc env cfg s = (Ok n, s')"
  shows "of_config cfg n \<and> node_inv n s' \<and> synced n s' \<and> n_role n = Follower \<and>
    n_ballot n = disk_ballot (cc_data_dir cfg) s"
proof -
  let ?d = "cc_data_dir cfg" and ?w = "path_join (cc_data_dir cfg) ''wal''"
  let ?wc = "\<lparr>wc_dir = ?w, wc_max_segment_bytes = 64 * 1024 * 1024, wc_sync_writes = True\<rparr>"
  let ?ps = "\<lparr>ps_path = path_join ?d STATE_FILE, ps_current_term = fst (vote_cell.stored ?d s),
          ps_voted_for = snd (vote_cell.stored ?d s)\<rparr>"
  obtain rl sl where lo0: "raft_log_open crc ?wc s = (rl, sl)" by fastforce
  obtain rs ss where sn: "snapshot_load ?d sl = (rs, ss)" by fastforce
  obtain l where lo: "raft_log_open crc ?wc s = (Ok l, sl)"
    and n: "n_id n = ni_id (cc_this_node cfg)" "n_config n = cfg" "n_peers n = cc_peers cfg" "n_ps n = ?ps"
      "n_log n = l" "n_role n = Follower" "n_data_dir n = ?d" and sl: "s' = snd (snapshot_load ?d sl)"
    using run h lo0 sn
    by (cases rl; cases rs) (auto simp: node_start_def fs_healthy ps_open_healthy Let_def)
  have "outcome (fs_step ?w s) (\<lambda>l. in_dir ?w (rl_wal l)) (raft_log_open crc ?wc s)"
    by (rule raft_log_open_step) simp_all
  then have st: "fs_step ?w s sl" "in_dir ?w (rl_wal l)" unfolding lo by simp_all
  then have h': "healthy sl" using h by (simp add: fs_step_def)
  then have s': "s' = sl" by (simp add: sl snapshot_load_files)
  have "fs_content sl (path_join ?d STATE_FILE) = fs_content s (path_join ?d STATE_FILE)"
    using st(1) by (simp add: fs_step_def same_outside_def) (simp add: path_join_def)
  then have dk: "disk_ballot ?d s' = disk_ballot ?d s" unfolding s' by (rule disk_ballot_cong)
  have b: "n_ballot n = disk_ballot ?d s"
    by (simp add: n_ballot_def n disk_ballot_def split: prod.split)
  have "case snd (vote_cell.stored ?d s) of None \<Rightarrow> True | Some v \<Rightarrow> name_ok v"
    using ps_decode_vote [of _ "fst (vote_cell.stored ?d s)"]
    by (auto simp: vote_cell.stored_def ps_parse_def split: option.splits) (metis prod.collapse)
  then have "node_ok n"
    using n st(2) cfg by (simp add: node_ok_def config_ok_def)
  with n dk b h' s' show ?thesis
    by (simp add: of_config_def node_inv_def synced_def)
qed

end
