(* ===== verification/Quorum.thy ===== *)
theory Quorum
  imports Main
begin

text \<open>
  What the election relies on: any two quorums share a member. A candidate needs a quorum of votes,
  and a member votes once per term, so a term has one winner. The configured majority is a quorum
  system.
\<close>

locale quorum_system =
  fixes is_quorum :: "'a set \<Rightarrow> bool"
  assumes quorums_meet: "is_quorum Q \<Longrightarrow> is_quorum R \<Longrightarrow> Q \<inter> R \<noteq> {}"
begin

text \<open>\<open>votes\<close> holds who voted in which term for whom.\<close>

definition one_vote :: "('a \<times> 't \<times> 'c) set \<Rightarrow> bool" where
  "one_vote votes \<longleftrightarrow> (\<forall>k t c c'. (k, t, c) \<in> votes \<longrightarrow> (k, t, c') \<in> votes \<longrightarrow> c = c')"

definition wins :: "('a \<times> 't \<times> 'c) set \<Rightarrow> 't \<Rightarrow> 'c \<Rightarrow> bool" where
  "wins votes t c \<longleftrightarrow> (\<exists>Q. is_quorum Q \<and> (\<forall>k \<in> Q. (k, t, c) \<in> votes))"

lemma wins_mono: "wins votes t c \<Longrightarrow> votes \<subseteq> votes' \<Longrightarrow> wins votes' t c"
  unfolding wins_def by blast

lemma one_winner: "one_vote votes \<Longrightarrow> wins votes t c \<Longrightarrow> wins votes t c' \<Longrightarrow> c = c'"
  unfolding wins_def one_vote_def using quorums_meet by blast

lemma one_vote_insert:
  "one_vote votes \<Longrightarrow> (\<And>c'. (k, t, c') \<in> votes \<Longrightarrow> c' = c) \<Longrightarrow> one_vote (insert (k, t, c) votes)"
  unfolding one_vote_def by blast

end

definition majority :: "'a set \<Rightarrow> 'a set \<Rightarrow> bool" where
  "majority A Q \<longleftrightarrow> finite A \<and> Q \<subseteq> A \<and> card A div 2 + 1 \<le> card Q"

lemma majorities_meet:
  assumes "majority A Q" and "majority A R"
  shows "Q \<inter> R \<noteq> {}"
proof
  assume dis: "Q \<inter> R = {}"
  have fin: "finite Q" "finite R" "finite A" and sub: "Q \<union> R \<subseteq> A"
    using assms finite_subset unfolding majority_def by blast+
  have "card Q + card R = card (Q \<union> R)" using fin dis by (simp add: card_Un_disjoint)
  also have "\<dots> \<le> card A" using fin sub by (intro card_mono)
  finally have "card Q + card R \<le> card A" .
  moreover have "card A div 2 + 1 \<le> card Q" "card A div 2 + 1 \<le> card R"
    using assms by (simp_all add: majority_def)
  ultimately show False by linarith
qed

interpretation majorities: quorum_system "majority A" for A
  by unfold_locales (rule majorities_meet)

end
