(* ===== verification/Cluster.thy ===== *)
theory Cluster
  imports Restart Quorum
begin

text \<open>
  The cluster: nodes that handle messages, time out, crash inside a handler and start again, in any
  order. Messages may be lost, delayed, reordered and made up; only the answers to a candidate's
  requests are those its peers gave. At most one leader is ever elected in a term.
\<close>

section \<open>State and steps\<close>

record cluster =
  c_nodes :: "string \<rightharpoonup> raft_node \<times> fs"
  c_waiting :: "string \<rightharpoonup> request_vote_request"
  c_requests :: "request_vote_request set"
  c_answers :: "(string \<times> request_vote_request \<times> request_vote_response) set"

text \<open>What an actor can be doing; an election is two activities, with the wait for the peers in between.\<close>

datatype activity =
    Handle raft_msg
  | Heartbeat
  | Campaign
  | Elect "request_vote_response option list"

definition no_reply :: "('a, 'e) res \<times> 's \<Rightarrow> (unit, 'e) res \<times> 's" where
  "no_reply m = and_then m (\<lambda>_ s. (Ok (), s))"

fun perform :: "(bytes \<Rightarrow> u32) \<Rightarrow> env \<Rightarrow> network \<Rightarrow> activity \<Rightarrow> (raft_node, unit, raft_error) meth" where
  "perform crc env net (Handle msg) ns = no_reply (handle_msg crc env net msg ns)"
| "perform crc env net Heartbeat ns = send_heartbeats env net ns"
| "perform crc env net Campaign ns = no_reply (start_election_begin env ns)"
| "perform crc env net (Elect rs) ns = start_election_finish env rs ns"

text \<open>Candidates are nonempty strings, and a campaign happens only when there is a next term.\<close>

fun activity_ok :: "activity \<Rightarrow> raft_node \<Rightarrow> bool" where
  "activity_ok (Handle msg) n \<longleftrightarrow> msg_ok msg"
| "activity_ok Heartbeat n \<longleftrightarrow> n_role n = Leader"
| "activity_ok Campaign n \<longleftrightarrow> n_role n \<noteq> Leader \<and> n_term n < n_term n + 1"
| "activity_ok (Elect rs) n \<longleftrightarrow> True"

fun votes_answered :: "raft_msg \<Rightarrow> raft_reply \<Rightarrow> string \<Rightarrow> (string \<times> request_vote_request \<times> request_vote_response) set" where
  "votes_answered (MsgRequestVote req) (ReplyRequestVote resp) i = {(i, req, resp)}"
| "votes_answered _ _ i = {}"

inductive cluster_step :: "(bytes \<Rightarrow> u32) \<Rightarrow> cluster \<Rightarrow> cluster \<Rightarrow> bool" for crc where
  message:
    "c_nodes c i = Some (n, s) \<Longrightarrow> c_waiting c i = None \<Longrightarrow> msg_ok msg \<Longrightarrow>
     handle_msg crc env net msg (n, s) = (Ok reply, ns') \<Longrightarrow>
     cluster_step crc c (c\<lparr>c_nodes := (c_nodes c)(i \<mapsto> ns'),
                           c_answers := c_answers c \<union> votes_answered msg reply i\<rparr>)"
| heartbeat:
    "c_nodes c i = Some (n, s) \<Longrightarrow> c_waiting c i = None \<Longrightarrow> n_role n = Leader \<Longrightarrow>
     send_heartbeats env net (n, s) = (Ok (), ns') \<Longrightarrow>
     cluster_step crc c (c\<lparr>c_nodes := (c_nodes c)(i \<mapsto> ns')\<rparr>)"
| campaign:
    "c_nodes c i = Some (n, s) \<Longrightarrow> c_waiting c i = None \<Longrightarrow> n_role n \<noteq> Leader \<Longrightarrow> n_term n < n_term n + 1 \<Longrightarrow>
     start_election_begin env (n, s) = (Ok req, ns') \<Longrightarrow>
     cluster_step crc c (c\<lparr>c_nodes := (c_nodes c)(i \<mapsto> ns'), c_waiting := (c_waiting c)(i \<mapsto> req),
                           c_requests := insert req (c_requests c)\<rparr>)"
| elect:
    "c_nodes c i = Some (n, s) \<Longrightarrow> c_waiting c i = Some req \<Longrightarrow>
     list_all2 (\<lambda>p r. case r of None \<Rightarrow> True | Some resp \<Rightarrow> (ni_id p, req, resp) \<in> c_answers c) (n_peers n) rs \<Longrightarrow>
     start_election_finish env rs (n, s) = (Ok (), ns') \<Longrightarrow>
     cluster_step crc c (c\<lparr>c_nodes := (c_nodes c)(i \<mapsto> ns'), c_waiting := (c_waiting c)(i := None)\<rparr>)"
| crash:
    "c_nodes c i = Some (n, s) \<Longrightarrow> activity_ok act n \<Longrightarrow>
     perform crc env net act (n, s\<lparr>faults := fl\<rparr>) = (r, (n1, s1)) \<Longrightarrow>
     node_start crc env' (n_config n) (s1\<lparr>faults := []\<rparr>) = (Ok n', s') \<Longrightarrow>
     cluster_step crc c (c\<lparr>c_nodes := (c_nodes c)(i \<mapsto> (n', s')), c_waiting := (c_waiting c)(i := None)\<rparr>)"

inductive_cases cluster_stepE: "cluster_step crc c c'"

text \<open>The members of the cluster agree on who they are.\<close>

definition member_ok :: "string set \<Rightarrow> string \<Rightarrow> cluster_config \<Rightarrow> bool" where
  "member_ok ids i cfg \<longleftrightarrow> config_ok cfg \<and> ni_id (cc_this_node cfg) = i \<and> finite ids \<and>
     distinct (map ni_id (cc_peers cfg)) \<and> i \<notin> ni_id ` set (cc_peers cfg) \<and> insert i (ni_id ` set (cc_peers cfg)) = ids"

text \<open>At first every node has just been started, on a file system in any state.\<close>

definition cluster_init :: "(bytes \<Rightarrow> u32) \<Rightarrow> cluster \<Rightarrow> bool" where
  "cluster_init crc c \<longleftrightarrow> c_waiting c = Map.empty \<and> c_requests c = {} \<and> c_answers c = {} \<and>
     (\<forall>i n s. c_nodes c i = Some (n, s) \<longrightarrow>
        (\<exists>env cfg s0. healthy s0 \<and> member_ok (dom (c_nodes c)) i cfg \<and> node_start crc env cfg s0 = (Ok n, s)))"

inductive reachable :: "(bytes \<Rightarrow> u32) \<Rightarrow> cluster \<Rightarrow> cluster \<Rightarrow> bool" for crc where
  start: "reachable crc c c"
| step: "reachable crc c c' \<Longrightarrow> cluster_step crc c' c'' \<Longrightarrow> reachable crc c c''"

section \<open>The invariant\<close>

definition votes_of :: "'z cluster_scheme \<Rightarrow> (string \<times> u64 \<times> string) set" where
  "votes_of c =
     {(k, rv_term req, rv_candidate_id req) | k req resp. (k, req, resp) \<in> c_answers c \<and> rvr_vote_granted resp} \<union>
     {(rv_candidate_id req, rv_term req, rv_candidate_id req) | req. req \<in> c_requests c}"

definition node_at :: "'z cluster_scheme \<Rightarrow> string \<Rightarrow> raft_node \<times> fs \<Rightarrow> bool" where
  "node_at c i = (\<lambda>(n, s). node_inv n s \<and> synced n s \<and> of_config (n_config n) n \<and>
     member_ok (dom (c_nodes c)) i (n_config n) \<and>
     (\<forall>t v. (i, t, v) \<in> votes_of c \<longrightarrow> Ballot t (Some v) \<le> n_ballot n) \<and>
     (\<forall>req. c_waiting c i = Some req \<longrightarrow> n_term n = rv_term req \<and> rv_candidate_id req = i \<and> req \<in> c_requests c) \<and>
     (n_role n = Leader \<longrightarrow> majorities.wins (dom (c_nodes c)) (votes_of c) (n_term n) i))"

definition cluster_inv :: "'z cluster_scheme \<Rightarrow> bool" where
  "cluster_inv c \<longleftrightarrow> majorities.one_vote (votes_of c) \<and> (\<forall>k t v. (k, t, v) \<in> votes_of c \<longrightarrow> k \<in> dom (c_nodes c)) \<and>
     (\<forall>i ns. c_nodes c i = Some ns \<longrightarrow> node_at c i ns)"

text \<open>One node moves on; the votes that appear are its own, of its present ballot.\<close>

lemma inv_update:
  assumes inv: "cluster_inv c" and at: "c_nodes c i = Some (n, s)" and nodes: "c_nodes c' = (c_nodes c)(i \<mapsto> (n', s'))"
    and same: "same_node n n'" and st: "node_inv n' s'" "synced n' s'" and fwd: "n_ballot n \<le> n_ballot n'"
    and new: "\<And>k t v. (k, t, v) \<in> votes_of c' \<Longrightarrow> (k, t, v) \<in> votes_of c \<or> k = i \<and> n_ballot n' = Ballot t (Some v)"
    and mono: "votes_of c \<subseteq> votes_of c'" "c_requests c \<subseteq> c_requests c'"
    and other: "\<And>j. j \<noteq> i \<Longrightarrow> c_waiting c' j = c_waiting c j"
    and own: "\<And>req. c_waiting c' i = Some req \<Longrightarrow> n_term n' = rv_term req \<and> rv_candidate_id req = i \<and> req \<in> c_requests c'"
    and leader: "n_role n' = Leader \<Longrightarrow> majorities.wins (dom (c_nodes c)) (votes_of c') (n_term n') i"
  shows "cluster_inv c'"
proof -
  have dom: "dom (c_nodes c') = dom (c_nodes c)" using at nodes by auto
  have na: "node_at c i (n, s)" using inv at by (simp add: cluster_inv_def)
  have upper: "Ballot t (Some v) \<le> n_ballot n'" if "(i, t, v) \<in> votes_of c'" for t v
    using new [OF that]
  proof
    assume "(i, t, v) \<in> votes_of c"
    then have "Ballot t (Some v) \<le> n_ballot n" using na by (simp add: node_at_def)
    then show ?thesis using fwd by (rule order_trans)
  qed simp
  have one: "majorities.one_vote (votes_of c')"
    unfolding majorities.one_vote_def
  proof (intro allI impI)
    fix k t v v' assume a: "(k, t, v) \<in> votes_of c'" "(k, t, v') \<in> votes_of c'"
    show "v = v'"
    proof (cases "(k, t, v) \<in> votes_of c \<and> (k, t, v') \<in> votes_of c")
      case True
      then show ?thesis using inv unfolding cluster_inv_def majorities.one_vote_def by blast
    next
      case False
      then have k: "k = i" and "n_ballot n' = Ballot t (Some v) \<or> n_ballot n' = Ballot t (Some v')"
        using new [OF a(1)] new [OF a(2)] by auto
      moreover have "Ballot t (Some v) \<le> n_ballot n'" "Ballot t (Some v') \<le> n_ballot n'"
        using upper a k by auto
      ultimately show ?thesis by auto
    qed
  qed
  have "node_at c' j ns" if "c_nodes c' j = Some ns" for j ns
  proof (cases "j = i")
    case True
    have "n_config n' = n_config n" using same by (simp add: same_node_def)
    moreover have "of_config (n_config n) n'" using na same of_config_same by (auto simp: node_at_def)
    ultimately show ?thesis
      using True that nodes na st upper own leader dom by (auto simp: node_at_def)
  next
    case False
    obtain m u where ns: "ns = (m, u)" by fastforce
    have nj: "node_at c j (m, u)" using inv that False nodes ns by (simp add: cluster_inv_def)
    have "(j, t, v) \<in> votes_of c" if "(j, t, v) \<in> votes_of c'" for t v
      using new [OF that] False by simp
    then show ?thesis
      using nj other [OF False] mono majorities.wins_mono [OF _ mono(1)] by (auto simp: node_at_def dom ns)
  qed
  moreover have "k \<in> dom (c_nodes c')" if "(k, t, v) \<in> votes_of c'" for k t v
    using new [OF that] inv at by (auto simp: cluster_inv_def dom)
  ultimately show ?thesis using one by (simp add: cluster_inv_def)
qed

lemma evolves_parts:
  assumes "evolves n s (n', s')" and "synced n s"
  shows "same_node n n'" and "node_inv n' s'" and "synced n' s'" and "n_ballot n \<le> n_ballot n'"
    and "n_role n' = Leader \<Longrightarrow> n_role n = Leader \<and> n_term n' = n_term n"
  using assms by (simp_all add: evolves_def node_inv_def)

lemma leader_stays:
  assumes "node_at c i (n, s)" and "evolves n s (n', s')" and "votes_of c \<subseteq> votes_of c'" and "n_role n' = Leader"
  shows "majorities.wins (dom (c_nodes c)) (votes_of c') (n_term n') i"
proof -
  have "n_role n = Leader" "n_term n' = n_term n" using assms(2,4) by (simp_all add: evolves_def)
  with assms(1) have "majorities.wins (dom (c_nodes c)) (votes_of c) (n_term n') i" by (simp add: node_at_def)
  then show ?thesis using assms(3) by (rule majorities.wins_mono)
qed

section \<open>Every step keeps it\<close>

lemma disk_ballot_faults [simp]: "disk_ballot d (s\<lparr>faults := fl\<rparr>) = disk_ballot d s"
  by (rule disk_ballot_cong) simp

lemma become_leader_same [simp]:
  "same_node n (become_leader n)" "n_ballot (become_leader n) = n_ballot n" "n_role (become_leader n) = Leader"
  "n_ps (become_leader n) = n_ps n" "n_data_dir (become_leader n) = n_data_dir n" "n_log (become_leader n) = n_log n"
  "n_id (become_leader n) = n_id n"
  by (simp_all add: become_leader_def same_node_def n_ballot_def Let_def)

lemma become_leader_inv [simp]: "node_inv (become_leader n) s = node_inv n s" "synced (become_leader n) s = synced n s"
  by (simp_all add: node_inv_def node_ok_def synced_def)

lemma perform_evolves:
  assumes inv: "node_inv n s" and ok: "activity_ok act n" and run: "perform crc env net act (n, s) = (r, (n1, s1))"
  shows "same_node n n1 \<and> disk_ballot (n_data_dir n) s \<le> disk_ballot (n_data_dir n) s1"
proof -
  have ev: "evolves n s (n, s)" using inv by (rule evolves_refl)
  have done': "evolves n s (n1, s1) \<Longrightarrow> ?thesis"
    by (auto simp: evolves_def same_node_def)
  show ?thesis
  proof (cases act)
    case (Handle msg)
    have "evolving n s (no_reply (handle_msg crc env net msg (n, s)))"
      unfolding no_reply_def using handle_msg_evolves [OF ev] ok Handle by (intro evolving_and_then) simp_all
    then show ?thesis using run Handle done' by (simp add: outcome_def)
  next
    case Heartbeat
    then show ?thesis using send_heartbeats_evolves [OF ev, of env net] run done' by (simp add: outcome_def)
  next
    case Campaign
    then have "n_role n \<noteq> Leader" "n_term n < n_term n + 1" using ok by simp_all
    from start_election_begin_run [OF ev this, of env] obtain q n2 s2 where
      "start_election_begin env (n, s) = (Ok q, (n2, s2))" "evolves n s (n2, s2)" by blast
    then show ?thesis using run Campaign done' by (simp add: no_reply_def)
  next
    case (Elect rs)
    then show ?thesis using start_election_finish_run [OF ev, of env rs r n1 s1] run done' by auto
  qed
qed

lemma granted_quorum:
  assumes "list_all2 (\<lambda>p r. case r of None \<Rightarrow> True | Some resp \<Rightarrow> (ni_id p, req, resp) \<in> A) ps rs"
    and "distinct (map ni_id ps)" and "i \<notin> ni_id ` set ps"
  shows "\<exists>Q. Q \<subseteq> ni_id ` set ps \<and> card Q = granted_count rs \<and>
    (\<forall>k \<in> Q. \<exists>resp. (k, req, resp) \<in> A \<and> rvr_vote_granted resp)"
  using assms
proof (induction ps rs rule: list_all2_induct)
  case Nil
  then show ?case by (simp add: granted_count_def)
next
  case (Cons p ps r rs)
  then obtain Q where Q: "Q \<subseteq> ni_id ` set ps" "card Q = granted_count rs"
      "\<forall>k \<in> Q. \<exists>resp. (k, req, resp) \<in> A \<and> rvr_vote_granted resp"
    by auto
  show ?case
  proof (cases "\<exists>resp. r = Some resp \<and> rvr_vote_granted resp")
    case True
    then obtain resp where r: "r = Some resp" "rvr_vote_granted resp" by blast
    have "finite Q" and "ni_id p \<notin> Q" using Q(1) Cons.prems finite_subset by auto
    then have "card (insert (ni_id p) Q) = granted_count (r # rs)"
      using Q(2) r by (simp add: granted_count_def)
    moreover have "\<forall>k \<in> insert (ni_id p) Q. \<exists>resp. (k, req, resp) \<in> A \<and> rvr_vote_granted resp"
      using Q(3) r Cons.hyps by auto
    ultimately show ?thesis
      using Q(1) by (intro exI [of _ "insert (ni_id p) Q"]) auto
  next
    case False
    then have "granted_count (r # rs) = granted_count rs" by (auto simp: granted_count_def split: option.splits)
    then show ?thesis using Q by auto
  qed
qed

text \<open>A node and a configured quorum less one of its peers are a majority of the members.\<close>

lemma quorum_majority:
  assumes m: "member_ok ids i cfg" and Q: "Q \<subseteq> ni_id ` set (cc_peers cfg)" "quorum cfg \<le> 1 + card Q"
  shows "majority ids (insert i Q)"
proof -
  have cfg: "distinct (map ni_id (cc_peers cfg))" "i \<notin> ni_id ` set (cc_peers cfg)" "insert i (ni_id ` set (cc_peers cfg)) = ids"
    "finite ids"
    using m by (simp_all add: member_ok_def)
  have "card ids = length (cc_peers cfg) + 1"
    using cfg by (metis List.finite_set card_insert_disjoint distinct_card finite_imageI length_map list.set_map Suc_eq_plus1)
  moreover have "card (insert i Q) = card Q + 1"
  proof -
    have "finite Q" "i \<notin> Q" using Q(1) cfg(2) finite_subset [OF Q(1)] by blast+
    then show ?thesis by simp
  qed
  moreover have "insert i Q \<subseteq> ids" using Q(1) cfg(3) by auto
  ultimately show ?thesis
    using Q(2) cfg(4) by (simp add: majority_def quorum_def cluster_size_def)
qed

text \<open>A node that starts again on what a crash left, when no ballot was lost.\<close>

lemma started_inv:
  assumes inv: "cluster_inv c" and at: "c_nodes c i = Some (n, s)"
    and p: "same_node n n1" "disk_ballot (n_data_dir n) s \<le> disk_ballot (n_data_dir n) s1"
    and run: "node_start crc env (n_config n) (s1\<lparr>faults := []\<rparr>) = (Ok n', s')"
    and c': "c_nodes c' = (c_nodes c)(i \<mapsto> (n', s'))" "c_waiting c' = (c_waiting c)(i := None)"
      "c_requests c' = c_requests c" "c_answers c' = c_answers c"
  shows "cluster_inv c'"
proof -
  have na: "node_at c i (n, s)" using inv at by (simp add: cluster_inv_def)
  have cfg: "config_ok (n_config n)" "of_config (n_config n) n"
    using na by (simp_all add: node_at_def member_ok_def)
  have h: "healthy (s1\<lparr>faults := []\<rparr>)" by simp
  note st = node_start_run [OF h cfg(1) run]
  have same: "same_node n n'" using st cfg(2) by (simp add: of_config_def same_node_def)
  have dd: "cc_data_dir (n_config n) = n_data_dir n" using cfg(2) by (simp add: of_config_def)
  have "n_ballot n = disk_ballot (n_data_dir n) s" using na by (simp add: node_at_def synced_def)
  then have fwd: "n_ballot n \<le> n_ballot n'" using p(2) st dd by simp
  have vo: "votes_of c' = votes_of c" using c' by (simp add: votes_of_def)
  show ?thesis
    by (rule inv_update [OF inv at c'(1)]) (use c' same st fwd vo in auto)
qed

lemma step_inv:
  assumes step: "cluster_step crc c c'" and inv: "cluster_inv c"
  shows "cluster_inv c'"
  using step
proof cases
  case (message i n s msg env net reply ns')
  obtain n' s' where ns': "ns' = (n', s')" by fastforce
  have na: "node_at c i (n, s)" using inv message by (simp add: cluster_inv_def)
  then have ev0: "evolves n s (n, s)" and sy: "synced n s" by (simp_all add: node_at_def evolves_refl)
  have ev: "evolves n s (n', s')"
    using handle_msg_evolves [OF ev0, of msg crc env net] message ns' by simp
  have vo: "votes_of c \<subseteq> votes_of c'" using message by (auto simp: votes_of_def)
  have new: "(k, t, v) \<in> votes_of c \<or> k = i \<and> n_ballot n' = Ballot t (Some v)" if mem: "(k, t, v) \<in> votes_of c'" for k t v
  proof (cases "(k, t, v) \<in> votes_of c")
    case False
    then obtain req resp where a: "(k, req, resp) \<in> votes_answered msg reply i" "rvr_vote_granted resp"
        "t = rv_term req" "v = rv_candidate_id req"
      using mem message by (auto simp: votes_of_def)
    then have m: "msg = MsgRequestVote req" "reply = ReplyRequestVote resp" "k = i"
      by (cases "(msg, reply, i)" rule: votes_answered.cases; simp)+
    have "on_request_vote env req (n, s) = (Ok resp, (n', s'))"
      using message m ns' by (auto simp: handle_msg_def reply_with_def and_then_Ok_iff)
    moreover have "name_ok (rv_candidate_id req)" using message m by (simp add: msg_ok_def)
    ultimately show ?thesis
      using on_request_vote_granted [OF ev0] a m by simp
  qed simp
  show ?thesis
    by (rule inv_update [OF inv, of i n s c' n' s'])
      (use message ns' evolves_parts [OF ev sy] new vo leader_stays [OF na ev vo] in auto)
next
  case (heartbeat i n s env net ns')
  obtain n' s' where ns': "ns' = (n', s')" by fastforce
  have na: "node_at c i (n, s)" using inv heartbeat by (simp add: cluster_inv_def)
  then have ev0: "evolves n s (n, s)" and sy: "synced n s" by (simp_all add: node_at_def evolves_refl)
  have ev: "evolves n s (n', s')"
    using send_heartbeats_evolves [OF ev0, of env net] heartbeat ns' by simp
  have vo: "votes_of c' = votes_of c" using heartbeat by (auto simp: votes_of_def)
  show ?thesis
    by (rule inv_update [OF inv, of i n s c' n' s'])
      (use heartbeat ns' evolves_parts [OF ev sy] vo leader_stays [OF na ev, of c'] in auto)
next
  case (campaign i n s env req ns')
  have na: "node_at c i (n, s)" using inv campaign by (simp add: cluster_inv_def)
  then have ev0: "evolves n s (n, s)" and sy: "synced n s" by (simp_all add: node_at_def evolves_refl)
  have id: "n_id n = i" using na by (auto simp: node_at_def of_config_def member_ok_def)
  obtain n' s' where run: "start_election_begin env (n, s) =
      (Ok \<lparr>rv_term = n_term n + 1, rv_candidate_id = n_id n, rv_last_log_index = last_index (n_log n),
           rv_last_log_term = last_term (n_log n)\<rparr>, (n', s'))"
    and ev: "evolves n s (n', s')" and t: "n_term n' = n_term n + 1" "n_vote n' = Some (n_id n)" "n_role n' = Candidate"
    using start_election_begin_run [OF ev0 campaign(4,5), of env] by blast
  have req: "rv_term req = n_term n + 1" "rv_candidate_id req = i" and ns': "ns' = (n', s')"
    using campaign run id by auto
  have vo: "votes_of c' = insert (i, n_term n + 1, i) (votes_of c)"
    using campaign req by (auto simp: votes_of_def)
  have b: "n_ballot n' = Ballot (n_term n + 1) (Some i)" using t id by (simp add: n_ballot_def)
  show ?thesis
    by (rule inv_update [OF inv, of i n s c' n' s'])
      (use campaign ns' evolves_parts [OF ev sy] vo b req t in auto)
next
  case (elect i n s req rs env ns')
  obtain n' s' where ns': "ns' = (n', s')" by fastforce
  have na: "node_at c i (n, s)" using inv elect by (simp add: cluster_inv_def)
  then have ev0: "evolves n s (n, s)" and sy: "synced n s" and niv: "node_inv n s"
    by (simp_all add: node_at_def evolves_refl)
  have w: "n_term n = rv_term req" "rv_candidate_id req = i" "req \<in> c_requests c"
    using na elect by (simp_all add: node_at_def)
  have vo: "votes_of c' = votes_of c" using elect by (auto simp: votes_of_def)
  have "evolves n s (n', s') \<or> n' = become_leader n \<and> s' = s \<and> quorum (n_config n) \<le> 1 + granted_count rs"
    using start_election_finish_run [OF ev0] elect ns' by simp
  then show ?thesis
  proof
    assume ev: "evolves n s (n', s')"
    show ?thesis
      by (rule inv_update [OF inv, of i n s c' n' s'])
        (use elect ns' evolves_parts [OF ev sy] vo leader_stays [OF na ev, of c'] in auto)
  next
    assume l: "n' = become_leader n \<and> s' = s \<and> quorum (n_config n) \<le> 1 + granted_count rs"
    let ?ids = "dom (c_nodes c)" and ?ps = "n_peers n"
    have mem: "member_ok ?ids i (n_config n)" and pe: "cc_peers (n_config n) = ?ps"
      using na by (auto simp: node_at_def of_config_def)
    then have cfg: "distinct (map ni_id ?ps)" "i \<notin> ni_id ` set ?ps" by (simp_all add: member_ok_def)
    obtain Q where Q: "Q \<subseteq> ni_id ` set ?ps" "card Q = granted_count rs"
        "\<forall>k \<in> Q. \<exists>resp. (k, req, resp) \<in> c_answers c \<and> rvr_vote_granted resp"
      using granted_quorum [OF elect(4) cfg] by blast
    have "majority ?ids (insert i Q)" by (rule quorum_majority [OF mem]) (use Q l pe in simp_all)
    moreover have "\<forall>k \<in> insert i Q. (k, n_term n, i) \<in> votes_of c"
      using Q(3) w by (auto simp: votes_of_def)
    ultimately have "majorities.wins ?ids (votes_of c) (n_term n) i"
      unfolding majorities.wins_def by blast
    then show ?thesis
      by (intro inv_update [OF inv, of i n s c' n' s']) (use elect ns' l vo niv sy in auto)
  qed
next
  case (crash i n s act env net fl r n1 s1 env' n' s')
  have na: "node_at c i (n, s)" using inv crash by (simp add: cluster_inv_def)
  have niv: "node_inv n (s\<lparr>faults := fl\<rparr>)" using na by (simp add: node_at_def node_inv_def)
  have "same_node n n1 \<and> disk_ballot (n_data_dir n) s \<le> disk_ballot (n_data_dir n) s1"
    using perform_evolves [OF niv crash(3,4)] by simp
  then show ?thesis
    by (intro started_inv [OF inv crash(2) _ _ crash(5)]) (use crash in auto)
qed

lemma init_inv:
  assumes "cluster_init crc c"
  shows "cluster_inv c"
proof -
  have "votes_of c = {}" using assms by (simp add: cluster_init_def votes_of_def)
  moreover have "node_at c i (n, s)" if at: "c_nodes c i = Some (n, s)" for i n s
  proof -
    obtain env cfg s0 where h: "healthy s0" and m: "member_ok (dom (c_nodes c)) i cfg"
      and st: "node_start crc env cfg s0 = (Ok n, s)"
      using assms at unfolding cluster_init_def by blast
    have "config_ok cfg" using m by (simp add: member_ok_def)
    from node_start_run [OF h this st] show ?thesis
      using m assms \<open>votes_of c = {}\<close> by (auto simp: node_at_def of_config_def cluster_init_def)
  qed
  ultimately show ?thesis
    by (auto simp: cluster_inv_def majorities.one_vote_def)
qed

lemma reachable_inv: "reachable crc c c' \<Longrightarrow> cluster_inv c \<Longrightarrow> cluster_inv c'"
  by (induction rule: reachable.induct) (auto intro: step_inv)

lemma step_votes: "cluster_step crc c c' \<Longrightarrow> votes_of c \<subseteq> votes_of c' \<and> dom (c_nodes c') = dom (c_nodes c)"
  by (erule cluster_stepE) (auto simp: votes_of_def)

lemma reachable_votes: "reachable crc c c' \<Longrightarrow> votes_of c \<subseteq> votes_of c' \<and> dom (c_nodes c') = dom (c_nodes c)"
  by (induction rule: reachable.induct) (use step_votes in blast)+

lemma leaders_unique:
  assumes "cluster_inv c" and "reachable crc c c'"
    and "c_nodes c i = Some (n, s)" and "leads n t" and "c_nodes c' j = Some (m, u)" and "leads m t"
  shows "i = j"
proof -
  have inv': "cluster_inv c'" and mono: "votes_of c \<subseteq> votes_of c'" "dom (c_nodes c') = dom (c_nodes c)"
    using assms reachable_inv reachable_votes by auto
  have "node_at c i (n, s)" using assms(1,3) by (simp add: cluster_inv_def)
  then have "majorities.wins (dom (c_nodes c)) (votes_of c) t i"
    using assms(4) by (simp add: node_at_def leads_def)
  then have "majorities.wins (dom (c_nodes c)) (votes_of c') t i" using mono(1) by (rule majorities.wins_mono)
  moreover have "node_at c' j (m, u)" using inv' assms(5) by (simp add: cluster_inv_def)
  then have "majorities.wins (dom (c_nodes c)) (votes_of c') t j"
    using assms(6) mono(2) by (simp add: node_at_def leads_def)
  moreover have "majorities.one_vote (votes_of c')" using inv' by (simp add: cluster_inv_def)
  ultimately show ?thesis by (intro majorities.one_winner)
qed

end
