(* ===== verification/Cluster_Properties.thy ===== *)
theory Cluster_Properties
  imports Node_Properties Cluster
begin

text \<open>
  What the cluster guarantees: election safety, with a witness in which a node of three wins an election
  by the vote of another.
\<close>

text \<open>C1: election safety. In every run of a cluster that starts from restarted nodes whose configurations name the
  same members, with any messages, in any order, lost or repeated, and with crashes at any call of any handler
  followed by a restart from disk, at most one node is ever leader in a term: if one node leads a term, and a
  node leads the same term now or later, they are the same.\<close>

theorem election_safety:
  assumes "cluster_init crc c0" and "reachable crc c0 c" and "reachable crc c c'"
    and "c_nodes c i = Some (n, s)" and "leads n t" and "c_nodes c' j = Some (m, u)" and "leads m t"
  shows "i = j"
  by (rule leaders_unique [OF reachable_inv [OF assms(2) init_inv [OF assms(1)]] assms(3-7)])

definition three :: cluster where
  "three = \<lparr>c_nodes = [''A'' \<mapsto> (node_A, started_fs ''A''),
       ''B'' \<mapsto> (started (three_config ''B'' ''A'' ''C''), started_fs ''B''),
       ''C'' \<mapsto> (started (three_config ''C'' ''A'' ''B''), started_fs ''C'')],
     c_waiting = Map.empty, c_requests = {}, c_answers = {}\<rparr>"

lemma three_start:
  "i \<noteq> [] \<Longrightarrow> name_ok i \<Longrightarrow> i \<noteq> j \<Longrightarrow> i \<noteq> k \<Longrightarrow> j \<noteq> k \<Longrightarrow> node_start sum_crc still (three_config i j k) empty_fs = (Ok (started (three_config i j k)), started_fs i) \<and>
    member_ok {i, j, k} i (three_config i j k)"
  using start_fresh [of "three_config i j k" i] by (auto simp: member_ok_def config_ok_def)

lemma three_init: "cluster_init sum_crc three"
proof -
  have dom: "dom (c_nodes three) = {''A'', ''B'', ''C''}" by (auto simp: three_def)
  have e: "\<exists>env cfg s0. healthy s0 \<and> member_ok {''A'', ''B'', ''C''} i cfg \<and> node_start sum_crc env cfg s0 = (Ok n, s)"
    if "node_start sum_crc still cfg empty_fs = (Ok n, s) \<and> member_ok {''A'', ''B'', ''C''} i cfg" for i n s cfg
    using that empty_fs_simps(1) by blast
  have "\<exists>env cfg s0. healthy s0 \<and> member_ok {''A'', ''B'', ''C''} i cfg \<and> node_start sum_crc env cfg s0 = (Ok n, s)"
    if at: "c_nodes three i = Some (n, s)" for i n s
  proof -
    consider "i = ''A''" "n = node_A" "s = started_fs ''A''"
      | "i = ''B''" "n = started (three_config ''B'' ''A'' ''C'')" "s = started_fs ''B''"
      | "i = ''C''" "n = started (three_config ''C'' ''A'' ''B'')" "s = started_fs ''C''"
      using at by (auto simp: three_def split: if_splits)
    then show ?thesis
    proof cases
      case 1
      with three_start [of "''A''" "''B''" "''C''"] show ?thesis by (intro e [of "three_config ''A'' ''B'' ''C''"]) simp
    next
      case 2
      with three_start [of "''B''" "''A''" "''C''"] show ?thesis
        by (intro e [of "three_config ''B'' ''A'' ''C''"]) (simp add: insert_commute)
    next
      case 3
      with three_start [of "''C''" "''A''" "''B''"] show ?thesis
        by (intro e [of "three_config ''C'' ''A'' ''B''"]) (simp add: insert_commute)
    qed
  qed
  with dom show ?thesis by (simp add: cluster_init_def) (simp add: three_def)
qed

text \<open>\<open>A\<close> asks for votes, \<open>B\<close> grants its vote, and \<open>A\<close> counts two of three.\<close>

definition vote_for_A :: request_vote_request where
  "vote_for_A = \<lparr>rv_term = 1, rv_candidate_id = ''A'', rv_last_log_index = 0, rv_last_log_term = 0\<rparr>"

lemma vote_for_A_simps [simp]:
  "rv_term vote_for_A = 1" "rv_candidate_id vote_for_A = ''A''" "rv_last_log_index vote_for_A = 0" "rv_last_log_term vote_for_A = 0"
  by (simp_all add: vote_for_A_def)

lemma three_elects:
  "\<exists>c n s. reachable sum_crc three c \<and> c_nodes c ''A'' = Some (n, s) \<and> leads n 1"
proof -
  let ?B = "started (three_config ''B'' ''A'' ''C'')"
  obtain n1 s1 where camp: "start_election_begin still (node_A, started_fs ''A'') = (Ok vote_for_A, (n1, s1))"
    and n1: "n_term n1 = 1" "n_role n1 = Candidate" "n_peers n1 = [member ''B'', member ''C'']" "n_config n1 = three_config ''A'' ''B'' ''C''"
    using start_election_begin_rep [OF node_A_rep, of still] by (auto simp: vote_for_A_def)
  let ?c1 = "three\<lparr>c_nodes := (c_nodes three)(''A'' \<mapsto> (n1, s1)), c_waiting := (c_waiting three)(''A'' \<mapsto> vote_for_A),
    c_requests := insert vote_for_A (c_requests three)\<rparr>"
  have step1: "cluster_step sum_crc three ?c1"
    by (rule campaign [OF _ _ _ _ camp]) (simp_all add: three_def)
  have "node_rep sum_crc ?B (started_fs ''B'')" by (rule started_rep) simp_all
  then obtain s2 where vote: "on_request_vote still vote_for_A (?B, started_fs ''B'') =
      (Ok (rv_answer (after_vote still vote_for_A ?B) (grants vote_for_A ?B)), (after_vote still vote_for_A ?B, s2))"
    using on_request_vote_rep name_ok_letters(1) vote_for_A_simps(2) by metis
  define resp n2 where "resp = rv_answer (after_vote still vote_for_A ?B) (grants vote_for_A ?B)"
    and "n2 = after_vote still vote_for_A ?B"
  then have resp: "rvr_vote_granted resp" "rvr_term resp = 1"
    by (simp_all add: grants_def log_ok_def rv_answer_def after_vote_def in_term_def Let_def)
  let ?c2 = "?c1\<lparr>c_nodes := (c_nodes ?c1)(''B'' \<mapsto> (n2, s2)),
    c_answers := c_answers ?c1 \<union> votes_answered (MsgRequestVote vote_for_A) (ReplyRequestVote resp) ''B''\<rparr>"
  have "handle_msg sum_crc still yes_net (MsgRequestVote vote_for_A) (?B, started_fs ''B'') = (Ok (ReplyRequestVote resp), (n2, s2))"
    using vote by (simp add: handle_msg_def reply_with_def resp_def n2_def)
  then have step2: "cluster_step sum_crc ?c1 ?c2"
    by (intro message) (simp_all add: three_def msg_ok_def)
  have elect: "start_election_finish still [Some resp, None] (n1, s1) = (Ok (), (become_leader n1, s1))"
    using resp n1 by (simp add: start_election_finish_def numeral_2_eq_2)
  let ?c3 = "?c2\<lparr>c_nodes := (c_nodes ?c2)(''A'' \<mapsto> (become_leader n1, s1)), c_waiting := (c_waiting ?c2)(''A'' := None)\<rparr>"
  have step3: "cluster_step sum_crc ?c2 ?c3"
    by (rule cluster_step.elect [OF _ _ _ elect]) (simp_all add: three_def n1)
  have "reachable sum_crc three ?c3"
    using reachable.step [OF reachable.step [OF reachable.step [OF reachable.start step1] step2] step3] .
  moreover have "c_nodes ?c3 ''A'' = Some (become_leader n1, s1)" by simp
  moreover have "leads (become_leader n1) 1" by (simp add: leads_def n1)
  ultimately show ?thesis by blast
qed

theorem election_safety_witness:
  "\<exists>c. reachable sum_crc three c \<and> {j. \<exists>m u. c_nodes c j = Some (m, u) \<and> leads m 1} = {''A''}"
proof -
  obtain c n s where r: "reachable sum_crc three c" "c_nodes c ''A'' = Some (n, s)" "leads n 1"
    using three_elects by blast
  have "{j. \<exists>m u. c_nodes c j = Some (m, u) \<and> leads m 1} = {''A''}"
    using election_safety [OF three_init r(1) reachable.start r(2,3)] r(2,3) by blast
  with r(1) show ?thesis by blast
qed

end
