(* ===== verification/Findings.thy ===== *)
theory Findings
  imports Sample_Run Compaction Server
begin

text \<open>
  Runs on concrete inputs where the code does not do what its documentation, or the protocol, asks
  for. Every theorem evaluates the model; the settings are those of
  \<open>Sample_Run\<close>: the checksum is a plain sum of bytes, the directories are empty at first, and segments are
  small where segments matter.
\<close>

section \<open>Running the WAL\<close>

fun after_ops :: "wal_op list \<Rightarrow> wal \<times> fs \<Rightarrow> wal \<times> fs" where
  "after_ops [] ws = ws"
| "after_ops (op # ops) ws = after_ops ops (state_after (wal_do sum_crc op ws))"

fun read_all_entries :: "wal \<times> fs \<Rightarrow> (entry list, wal_error) res" where
  "read_all_entries (w, s) = returned (wal_read_from sum_crc w 1 s)"

section \<open>The WAL\<close>

text \<open>A write that stops after five bytes leaves a directory that cannot be opened any more.\<close>

lemma torn_tail_blocks_open:
  "returned (wal_do sum_crc Reopen (faulty [] (state_after (wal_append sum_crc [1, 2, 3] (faulty [Torn 5] (small_wal, small_wal_fs)))))) =
   Err (UnexpectedEof 0)"
  by code_simp

text \<open>An append refused for its size still seals the active segment; truncating and reopening then
  starts the sequence numbers at 1 again.\<close>

fun next_number :: "wal \<times> fs \<Rightarrow> u64" where
  "next_number (w, s) = w_next_sequence w"

lemma sequence_reused_after_oversize:
  "next_number (after_ops [Append [1], Append (replicate 200 0), Truncate 2] (small_wal, small_wal_fs)) = 2 \<and>
   next_number (after_ops [Append [1], Append (replicate 200 0), Truncate 2, Reopen] (small_wal, small_wal_fs)) = 1"
  by code_simp

text \<open>An append whose flush fails reports an error, but its bytes stay in the buffer: the next append
  writes both, under the same sequence number.\<close>

lemma failed_append_duplicates_sequence:
  "returned (wal_append sum_crc [1] (faulty [Refuse] (small_wal, small_wal_fs))) = Err (Io OtherIo) \<and>
   read_all_entries (after_ops [Append [2]] (state_after (wal_append sum_crc [1] (faulty [Refuse] (small_wal, small_wal_fs))))) =
     Ok [\<lparr>sequence = 1, data = [1]\<rparr>, \<lparr>sequence = 1, data = [2]\<rparr>]"
  by code_simp

text \<open>A rotation that cannot create the new segment leaves the active one in the list of sealed
  segments: reads return its entries twice.\<close>

fun failed_rotation :: "wal \<times> fs \<Rightarrow> wal \<times> fs" where
  "failed_rotation ws = state_after (wal_append sum_crc (replicate 80 0) (faulty [Pass, Refuse] ws))"

lemma failed_rotation_duplicates_reads:
  "read_all_entries (failed_rotation (after_ops [Append [1]] (small_wal, small_wal_fs))) =
     Ok [\<lparr>sequence = 1, data = [1]\<rparr>, \<lparr>sequence = 1, data = [1]\<rparr>]"
  by code_simp

text \<open>Truncation then deletes the file that is still written to: the append of \<open>[2]\<close> succeeds and its
  entry is gone.\<close>

lemma failed_rotation_loses_appends:
  "returned (wal_append sum_crc [2] (after_ops [Truncate 5] (failed_rotation (after_ops [Append [1]] (small_wal, small_wal_fs))))) = Ok 2 \<and>
   read_all_entries (after_ops [Truncate 5, Append [2]] (failed_rotation (after_ops [Append [1]] (small_wal, small_wal_fs)))) =
     Err (Io NotFound)"
  by code_simp

text \<open>Two files with segment names that are no numbers make \<open>Wal::open\<close> panic.\<close>

lemma stray_files_panic:
  "returned (wal_open sum_crc small_config \<lparr>files = [([''d'', ''wal-x.seg''], \<lparr>f_content = [], f_durable = []\<rparr>),
     ([''d'', ''wal-y.seg''], \<lparr>f_content = [], f_durable = []\<rparr>)], faults = []\<rparr>) = Panic"
  by code_simp

text \<open>The checkpoint is renamed into place without a sync: a loss of power can take it back to 0.\<close>

fun checkpoint_number :: "wal \<times> fs \<Rightarrow> u64" where
  "checkpoint_number (w, s) = wal_checkpoint_sequence w"

lemma checkpoint_lost_at_power_loss:
  "checkpoint_number (after_ops [Append [1], Append [2], Checkpoint 1] (small_wal, small_wal_fs)) = 1 \<and>
   checkpoint_number (after_ops [Reopen] (lose_power (after_ops [Append [1], Append [2], Checkpoint 1] (small_wal, small_wal_fs)))) = 0"
  by code_simp

section \<open>The replicated log\<close>

fun after_appends :: "bytes list \<Rightarrow> raft_log \<times> fs \<Rightarrow> raft_log \<times> fs" where
  "after_appends [] ls = ls"
| "after_appends (d # ds) ls = after_appends ds (state_after (raft_log_append sum_crc 1 d ls))"

fun indices :: "raft_log \<times> fs \<Rightarrow> u64 list" where
  "indices (l, s) = map le_index (rl_entries l)"

fun reopened_indices :: "raft_log \<times> fs \<Rightarrow> (u64 list, raft_error) res" where
  "reopened_indices (l, s) = (case raft_log_open sum_crc small_config s of
     (Ok l', s') \<Rightarrow> Ok (map le_index (rl_entries l')) | (Err e, s') \<Rightarrow> Err e | (Panic, s') \<Rightarrow> Panic)"

text \<open>Compacting up to index 1 deletes the sealed segment that holds entry 2 as well: memory still has
  it, the restarted log does not.\<close>

definition two_entries :: "raft_log \<times> fs" where
  "two_entries = after_appends [[1], [2]] (small_log, small_wal_fs)"

lemma compaction_keeps_in_memory:
  "indices (state_after (compact sum_crc 1 1 two_entries)) = [2]"
  by code_simp

lemma compaction_loses_on_disk:
  "reopened_indices (state_after (compact sum_crc 1 1 two_entries)) = Ok []"
  by code_simp

end
