(* ===== verification/Node_Findings.thy ===== *)
theory Node_Findings
  imports Sample_Node Progress Backtracking Compaction
begin

text \<open>
  Runs of a node on concrete inputs where the code does not do what the protocol asks for. The settings
  are those of \<open>Sample_Node\<close>.
\<close>

section \<open>Votes\<close>

definition ask_vote :: "string \<Rightarrow> request_vote_request" where
  "ask_vote c = \<lparr>rv_term = 1, rv_candidate_id = c, rv_last_log_index = 0, rv_last_log_term = 0\<rparr>"

fun granted :: "(request_vote_response, raft_error) res \<times> 's \<Rightarrow> bool" where
  "granted (Ok resp, s) = rvr_vote_granted resp"
| "granted (Err e, s) = False"
| "granted (Panic, s) = False"

text \<open>The process starts again on the disk it left.\<close>

fun start_again :: "raft_node \<times> fs \<Rightarrow> raft_node \<times> fs" where
  "start_again (n, s) = (case node_start sum_crc still (n_config n) (s\<lparr>faults := []\<rparr>) of
     (Ok n', s') \<Rightarrow> (n', s') | (Err e, s') \<Rightarrow> (n, s') | (Panic, s') \<Rightarrow> (n, s'))"

text \<open>The state file is renamed into place without a sync: a loss of power can take the vote back, and the node
  votes again in the same term, for another candidate.\<close>

lemma two_votes_after_power_loss:
  "granted (on_request_vote still (ask_vote ''B'') (node_A, started_fs ''A'')) \<and>
   granted (on_request_vote still (ask_vote ''C'')
     (start_again (lose_power (state_after (on_request_vote still (ask_vote ''B'') (node_A, started_fs ''A''))))))"
  by code_simp

text \<open>A vote that cannot be written is granted all the same, because the result of \<open>record_vote\<close> is dropped; after
  a restart the node votes for another candidate in the same term.\<close>

lemma two_votes_after_failed_persist:
  "granted (on_request_vote still (ask_vote ''B'') (faulty [Pass, Pass, Refuse] (node_A, started_fs ''A''))) \<and>
   granted (on_request_vote still (ask_vote ''C'')
     (start_again (state_after (on_request_vote still (ask_vote ''B'') (faulty [Pass, Pass, Refuse] (node_A, started_fs ''A''))))))"
  by code_simp

section \<open>Reads and writes\<close>

definition no_net :: network where
  "no_net = \<lparr>net_append_entries = (\<lambda>p req. None), net_request_vote = (\<lambda>p req. None), net_install_snapshot = (\<lambda>p req. None)\<rparr>"

definition snapshot_net :: network where
  "snapshot_net = no_net\<lparr>net_install_snapshot := (\<lambda>p req. Some \<lparr>isr_term = 0, isr_success = True\<rparr>)\<rparr>"

fun commit_of :: "raft_node \<times> fs \<Rightarrow> u64" where
  "commit_of (n, s) = n_commit_index n"

fun read_entries_of :: "(raft_reply, raft_error) res \<times> 's \<Rightarrow> log_entry list" where
  "read_entries_of (Ok (ReplyClientRead es), s) = es"
| "read_entries_of _ = []"

text \<open>A result with what the node has committed, and with what a read then returns.\<close>

fun and_commit :: "'a \<times> raft_node \<times> fs \<Rightarrow> 'a \<times> u64" where
  "and_commit (r, ns) = (r, commit_of ns)"

fun and_read :: "'a \<times> raft_node \<times> fs \<Rightarrow> 'a \<times> u64 \<times> log_entry list" where
  "and_read (r, ns) = (r, commit_of ns, read_entries_of (handle_msg sum_crc still no_net (MsgClientRead 1) ns))"

text \<open>A write that reaches no quorum is reported as such, and a read still returns its entry; nothing is
  committed.\<close>

lemma read_returns_uncommitted:
  "and_read (on_client_write sum_crc still no_net [7] (lead_A, started_fs ''A'')) =
   (Err QuorumNotReached, 0, [\<lparr>le_term = 0, le_index = 1, le_data = [7]\<rparr>])"
  by code_simp

text \<open>A follower that is sent a snapshot instead of the new entry counts as having acknowledged the entry: with
  snapshots up to index 1 installed everywhere, the write of index 2 is committed though no follower has it.\<close>

definition behind :: raft_node where
  "behind = lead_A\<lparr>n_commit_index := 1, n_log := (n_log node_A)\<lparr>rl_snapshot_index := 1, rl_snapshot_term := 0\<rparr>,
     n_snapshot := Some \<lparr>sn_last_included_index = 1, sn_last_included_term = 0, sn_data = []\<rparr>,
     n_next_index := [''B'' \<mapsto> 1, ''C'' \<mapsto> 1]\<rparr>"

lemma snapshot_counts_as_ack:
  "and_commit (on_client_write sum_crc still snapshot_net [8] (behind, started_fs ''A'')) = (Ok 2, 2)"
  by code_simp

section \<open>Snapshots\<close>

fun snapshot_entries :: "raft_node \<times> fs \<Rightarrow> u64 list option" where
  "snapshot_entries (n, s) = (case n_snapshot n of None \<Rightarrow> None
     | Some sn \<Rightarrow> (case decode_entries (sn_data sn) of None \<Rightarrow> None | Some es \<Rightarrow> Some (map le_index es)))"

fun with_commit :: "u64 \<Rightarrow> raft_node \<times> fs \<Rightarrow> raft_node \<times> fs" where
  "with_commit i (n, s) = (n\<lparr>n_commit_index := i\<rparr>, s)"

definition one_written :: "raft_node \<times> fs" where
  "one_written = with_commit 1 (state_after (on_client_write sum_crc still no_net [1] (lead_A, started_fs ''A'')))"

definition snapshot_1 :: "raft_node \<times> fs" where
  "snapshot_1 = state_after (take_snapshot sum_crc one_written)"

definition snapshot_2 :: "raft_node \<times> fs" where
  "snapshot_2 = state_after (take_snapshot sum_crc (with_commit 2 (state_after (on_client_write sum_crc still no_net [2] snapshot_1))))"

text \<open>The second snapshot holds only the entries since the first, whose own are nowhere any more: the file is
  overwritten and the log has dropped them.\<close>

lemma first_snapshot: "snapshot_entries snapshot_1 = Some [1]"
  by code_simp

lemma second_snapshot_is_partial: "snapshot_entries snapshot_2 = Some [2]"
  by code_simp

text \<open>After a snapshot up to index 5 has been installed, a late request that starts at index 0 passes the consistency
  check, and its entry with index 1 is appended as the entry after the snapshot.\<close>

definition snapshot_to_5 :: install_snapshot_request where
  "snapshot_to_5 = \<lparr>is_term = 1, is_leader_id = ''B'', is_last_included_index = 5, is_last_included_term = 1, is_data = []\<rparr>"

definition late_request :: append_entries_request where
  "late_request = \<lparr>ae_term = 1, ae_leader_id = ''B'', ae_prev_log_index = 0, ae_prev_log_term = 0,
     ae_entries = [\<lparr>le_term = 1, le_index = 1, le_data = [1]\<rparr>], ae_leader_commit = 0\<rparr>"

fun log_of :: "raft_node \<times> fs \<Rightarrow> log_entry list" where
  "log_of (n, s) = rl_entries (n_log n)"

lemma late_entry_appended_past_snapshot:
  "log_of (state_after (on_append_entries sum_crc still late_request
     (state_after (on_install_snapshot sum_crc still snapshot_to_5 (node_A, started_fs ''A''))))) =
   [\<lparr>le_term = 1, le_index = 6, le_data = [1]\<rparr>]"
  by code_simp

text \<open>The commit index is forgotten at a restart, even when the node has a snapshot that says more.\<close>

lemma commit_index_forgotten:
  "commit_of (state_after (on_install_snapshot sum_crc still snapshot_to_5 (node_A, started_fs ''A''))) = 5 \<and>
   commit_of (start_again (state_after (on_install_snapshot sum_crc still snapshot_to_5 (node_A, started_fs ''A'')))) = 0"
  by code_simp

section \<open>Acknowledgments\<close>

text \<open>The results of \<open>append\<close> and \<open>truncate_from\<close> are dropped by a follower: when the write to its log fails it answers
  with success all the same, and the leader counts it for the entry's quorum.\<close>

definition send_1 :: append_entries_request where
  "send_1 = \<lparr>ae_term = 0, ae_leader_id = ''B'', ae_prev_log_index = 0, ae_prev_log_term = 0,
     ae_entries = [\<lparr>le_term = 0, le_index = 1, le_data = [1]\<rparr>], ae_leader_commit = 0\<rparr>"

fun and_log :: "'a \<times> raft_node \<times> fs \<Rightarrow> 'a \<times> log_entry list" where
  "and_log (r, ns) = (r, log_of ns)"

lemma acknowledged_but_not_stored:
  "and_log (on_append_entries sum_crc still send_1 (faulty [Refuse] (node_A, started_fs ''A''))) =
   (Ok \<lparr>aer_term = 0, aer_success = True, aer_conflict_index = 0, aer_conflict_term = 0\<rparr>, [])"
  by code_simp

section \<open>A search that does not end\<close>

text \<open>A follower that was leader in term 1 has a snapshot up to index 2 and an uncommitted entry 3 of term 1; the
  leader of term 2 has entry 3 of term 2 and no snapshot. The follower's conflict index for term 1 is its
  snapshot index, for the index before it is one past its last entry: the leader's \<open>next_index\<close> goes from 4 to
  2 and back to 4, and no request is ever accepted.\<close>

definition stuck_leader :: "u64 \<Rightarrow> raft_node" where
  "stuck_leader i = lead_A\<lparr>n_ps := (n_ps node_A)\<lparr>ps_current_term := 2\<rparr>,
     n_log := (n_log node_A)\<lparr>rl_entries := [\<lparr>le_term = 1, le_index = 1, le_data = []\<rparr>, \<lparr>le_term = 1, le_index = 2, le_data = []\<rparr>,
       \<lparr>le_term = 2, le_index = 3, le_data = []\<rparr>]\<rparr>, n_next_index := [''B'' \<mapsto> i]\<rparr>"

definition stuck_follower :: raft_node where
  "stuck_follower = node_A\<lparr>n_ps := (n_ps node_A)\<lparr>ps_current_term := 2\<rparr>,
     n_log := (n_log node_A)\<lparr>rl_entries := [\<lparr>le_term = 1, le_index = 3, le_data = []\<rparr>], rl_snapshot_index := 2, rl_snapshot_term := 1\<rparr>\<rparr>"

lemma stuck_step:
  "negotiate (Suc k) still ''B'' 3 (stuck_leader 4, s) stuck_follower =
     map_option Suc (negotiate k still ''B'' 3 (stuck_leader 2, s) stuck_follower)"
  "negotiate (Suc k) still ''B'' 3 (stuck_leader 2, s) stuck_follower =
     map_option Suc (negotiate k still ''B'' 3 (stuck_leader 4, s) stuck_follower)"
  by (simp_all add: build_append_entries_for_def next_for_def stuck_leader_def stuck_follower_def saturating_sub_def
      term_at_def get_entry_def entries_from_def last_index_def Let_def ae_consistency_def ae_reject_def first_index_of_term_def)

theorem backtracking_never_ends:
  "negotiate k still ''B'' 3 (stuck_leader 4, s) stuck_follower = None \<and>
   negotiate k still ''B'' 3 (stuck_leader 2, s) stuck_follower = None"
  by (induction k) (simp_all add: stuck_step del: negotiate.simps(2))

end
