(* ===== verification/Write_Phases.thy ===== *)
theory Write_Phases
  imports Progress
begin

text \<open>
  \<open>on_client_write\<close> in two phases, split where it awaits the peers: the first appends and builds the
  requests, the second counts the answers. Then what the parts that only listen to answers do to a healthy
  node: at most it moves to a later term and follows.
\<close>

section \<open>The two phases\<close>

definition client_write_begin ::
  "(bytes \<Rightarrow> u32) \<Rightarrow> bytes \<Rightarrow> (raft_node,
     u64 \<times> (node_info \<times> append_entries_request) list \<times> (node_info \<times> install_snapshot_request) list, raft_error) meth" where
  "client_write_begin crc dat = (\<lambda>(n, s).
     if n_role n \<noteq> Leader then (Err (NotLeader (n_current_leader n)), (n, s))
     else
       and_then (on_log (raft_log_append crc (n_term n) dat) (n, s)) (\<lambda>index (n, s).
         case peer_requests n index (n_peers n) of
           Ok (aes, snaps) \<Rightarrow> (Ok (index, aes, snaps), (n, s))
         | Err e \<Rightarrow> (Err e, (n, s))
         | Panic \<Rightarrow> (Panic, (n, s))))"

definition client_write_finish ::
  "(bytes \<Rightarrow> u32) \<Rightarrow> env \<Rightarrow> u64 \<Rightarrow> (string \<times> append_entries_response) list \<Rightarrow>
   (string \<times> install_snapshot_response option) list \<Rightarrow> (raft_node, u64, raft_error) meth" where
  "client_write_finish crc env index ae_results snap_results ns =
     and_then
       (and_then (ae_acks env index ae_results 1 ns) (\<lambda>(returned, acks) ns.
          if returned then (Ok acks, ns) else snap_acks env snap_results acks ns))
       (\<lambda>acks (n, s).
         if acks < quorum (n_config n) then (Err QuorumNotReached, (n, s))
         else
           let n = n\<lparr>n_commit_index := index, n_entries_since_snapshot := n_entries_since_snapshot n + 1\<rparr>
           in and_then (if n_snapshot_trigger n \<le> n_entries_since_snapshot n
                        then ignore_result (take_snapshot crc (n, s)) else (Ok (), (n, s)))
                (\<lambda>_ ns. (Ok index, ns)))"

definition ae_answer :: "append_entries_response option \<Rightarrow> append_entries_response" where
  "ae_answer r = (case r of Some resp \<Rightarrow> resp | None \<Rightarrow> ae_failed)"

lemma on_client_write_phases:
  "on_client_write crc env net dat ns =
     and_then (client_write_begin crc dat ns) (\<lambda>(index, aes, snaps) ns.
       client_write_finish crc env index
         (map (\<lambda>(p, req). (ni_id p, ae_answer (net_append_entries net p req))) aes)
         (map (\<lambda>(p, req). (ni_id p, net_install_snapshot net p req)) snaps) ns)"
proof (cases ns)
  case (Pair n s)
  obtain r n1 s1 where a: "on_log (raft_log_append crc (n_term n) dat) (n, s) = (r, (n1, s1))" by (metis surj_pair)
  show ?thesis
  proof (cases "n_role n = Leader \<and> is_ok r")
    case True
    then obtain i where r: "r = Ok i" by (cases r) auto
    show ?thesis
      using True a Pair r
      by (cases "peer_requests n1 i (n_peers n1)")
        (auto simp: on_client_write_def client_write_begin_def client_write_finish_def replicate_to_peers_def Let_def ae_answer_def
          split: prod.splits)
  next
    case False
    with a Pair show ?thesis
      by (cases r) (auto simp: on_client_write_def client_write_begin_def)
  qed
qed

section \<open>Listening to answers\<close>

definition calm :: "(bytes \<Rightarrow> u32) \<Rightarrow> raft_node \<Rightarrow> raft_node \<times> fs \<Rightarrow> bool" where
  "calm crc n0 = (\<lambda>(n, s). node_rep crc n s \<and> n_log n = n_log n0 \<and> n_commit_index n = n_commit_index n0 \<and>
     n_snapshot n = n_snapshot n0 \<and> n_entries_since_snapshot n = n_entries_since_snapshot n0 \<and>
     n_config n = n_config n0 \<and> n_peers n = n_peers n0 \<and> n_term n0 \<le> n_term n \<and>
     (n_role n = Leader \<longrightarrow> n_role n0 = Leader \<and> n_term n = n_term n0))"

lemma calm_refl: "node_rep crc n s \<Longrightarrow> calm crc n (n, s)"
  by (simp add: calm_def)

lemma step_down_calm:
  assumes c: "calm crc n0 (n, s)" and t: "n_term n < t"
  shows "outcome (calm crc n0) (\<lambda>_. True) (step_down env t (n, s))"
proof -
  let ?n = "n\<lparr>n_ps := (n_ps n)\<lparr>ps_current_term := t, ps_voted_for := None\<rparr>\<rparr>"
  obtain s' where s': "ignore_result (on_ps (advance_term t) (n, s)) = (Ok (), (?n, s'))" "node_rep crc ?n s'"
    using node_advance_term [of crc n s t] c by (auto simp: calm_def)
  have "node_rep crc (become_follower_with_leader env None ?n) s'"
    by (rule node_rep_cong [OF s'(2)]) (simp_all add: become_follower_with_leader_def)
  then have "calm crc n0 (become_follower_with_leader env None ?n, s')"
    using c t by (auto simp: calm_def become_follower_with_leader_def)
  then show ?thesis using s'(1) by (simp add: step_down_def)
qed

lemma calm_fields:
  assumes "calm crc n0 (n, s)"
  shows "calm crc n0 (n\<lparr>n_match_index := mi, n_next_index := ni\<rparr>, s)" and "calm crc n0 (n\<lparr>n_next_index := ni\<rparr>, s)"
    and "calm crc n0 (n\<lparr>n_role := Follower\<rparr>, s)"
  using assms by (auto simp: calm_def elim: node_rep_cong)

lemma ae_acks_calm: "calm crc n0 ns \<Longrightarrow> outcome (calm crc n0) (\<lambda>_. True) (ae_acks env i rs acks ns)"
  by (induction env i rs acks ns rule: ae_acks.induct)
    (auto simp: calm_fields intro!: outcome_and_then [OF step_down_calm])

lemma snap_acks_calm: "calm crc n0 ns \<Longrightarrow> outcome (calm crc n0) (\<lambda>_. True) (snap_acks env rs acks ns)"
  by (induction env rs acks ns rule: snap_acks.induct)
    (auto simp: calm_fields Let_def intro!: outcome_and_then [OF step_down_calm])

lemma heartbeat_answers_calm: "calm crc n0 ns \<Longrightarrow> outcome (calm crc n0) (\<lambda>_. True) (heartbeat_answers env rs ns)"
  by (induction env rs ns rule: heartbeat_answers.induct) (auto intro: step_down_calm)

lemma send_heartbeats_calm: "node_rep crc n s \<Longrightarrow> outcome (calm crc n) (\<lambda>_. True) (send_heartbeats env net (n, s))"
  by (simp add: send_heartbeats_def heartbeat_answers_calm calm_refl)

lemma count_votes_calm: "calm crc n0 ns \<Longrightarrow> outcome (calm crc n0) (\<lambda>_. True) (count_votes env rs v ns)"
proof (induction env rs v ns rule: count_votes.induct)
  case (3 env resp rs votes n s)
  have "count_votes env (Some resp # rs) votes (n, s) =
      (if n_term n < rvr_term resp then and_then (step_down env (rvr_term resp) (n, s)) (\<lambda>_ ns. (Ok None, ns))
       else count_votes env rs (if rvr_vote_granted resp then votes + 1 else votes) (n, s))"
  proof -
    obtain r n1 s1 where "ignore_result (on_ps (advance_term (rvr_term resp)) (n, s)) = (r, (n1, s1))" by (metis surj_pair)
    then show ?thesis by (cases r) (simp_all add: step_down_def)
  qed
  with 3 show ?case by (auto intro!: outcome_and_then [OF step_down_calm])
qed simp_all

text \<open>The end of an election: the candidate leads, or it changed nothing that matters.\<close>

lemma count_votes_all:
  "count_votes env rs v (n, s) = (Ok (Some w), ns) \<Longrightarrow> ns = (n, s) \<and> w = v + granted_count rs"
proof (induction rs arbitrary: v)
  case (Cons r rs)
  then show ?case
    using Cons.IH [of v] Cons.IH [of "Suc v"] by (cases r) (auto simp: and_then_Ok_iff split: if_splits)
qed simp

lemma start_election_finish_calm:
  assumes rep: "node_rep crc n s" and cand: "n_role n \<noteq> Leader" and run: "start_election_finish env rs (n, s) = (r, (n', s'))"
  shows "calm crc n (n', s') \<or> n' = become_leader n \<and> s' = s \<and> quorum (n_config n) \<le> 1 + granted_count rs"
proof -
  obtain rc nc sc where cv: "count_votes env rs 1 (n, s) = (rc, (nc, sc))" by (metis surj_pair)
  have c: "calm crc n (nc, sc)"
    using count_votes_calm [OF calm_refl [OF rep], of env rs 1] cv by (simp add: outcome_def)
  show ?thesis
  proof (cases "\<exists>w. rc = Ok (Some w)")
    case True
    then obtain w where w: "rc = Ok (Some w)" by blast
    have "(nc, sc) = (n, s) \<and> w = 1 + granted_count rs" using count_votes_all cv w by blast
    then show ?thesis
      using run cv w c calm_fields(3) [OF c] by (auto simp: start_election_finish_def split: if_splits)
  next
    case False
    then have "(n', s') = (nc, sc)"
      using run cv by (cases rc) (auto simp: start_election_finish_def split: option.splits)
    then show ?thesis using c by simp
  qed
qed

section \<open>The phases of a write\<close>

text \<open>The first phase adds the entry, in memory and on disk, and sends nothing but parts of the new log.\<close>

lemma peer_requests_members:
  "peer_requests n up ps = Ok (aes, snaps) \<Longrightarrow> n_snapshot n = None \<Longrightarrow>
   snaps = [] \<and> map fst aes = ps \<and> (\<forall>(p, req) \<in> set aes. build_append_entries_for n (ni_id p) up = Ok req)"
  by (induction ps arbitrary: aes snaps) (auto simp: snapshot_for_def split: option.splits res.splits prod.splits if_splits)

lemma client_write_begin_run:
  assumes rep: "node_rep crc n s" and b: "log_budget (n_log n) 1 m" and d: "17 + length dat \<le> m"
    and run: "client_write_begin crc dat (n, s) = (Ok (index, aes, snaps), (n', s'))"
  shows "n_role n = Leader \<and> index = last_index (n_log n) + 1 \<and> node_rep crc n' s' \<and> (\<exists>l. n' = n\<lparr>n_log := l\<rparr>) \<and>
    rl_entries (n_log n') = rl_entries (n_log n) @ [\<lparr>le_term = n_term n, le_index = index, le_data = dat\<rparr>] \<and>
    rl_snapshot_index (n_log n') = rl_snapshot_index (n_log n) \<and> rl_snapshot_term (n_log n') = rl_snapshot_term (n_log n) \<and>
    peer_requests n' index (n_peers n) = Ok (aes, snaps)"
proof -
  have lead: "n_role n = Leader" using run by (auto simp: client_write_begin_def split: if_splits)
  have b1: "log_budget (n_log n) (Suc 0) m" using b by simp
  obtain l' s1 where a: "raft_log_append crc (n_term n) dat (n_log n, s) = (Ok (last_index (n_log n) + 1), (l', s1))"
    "raft_log_rep crc l' s1" "rl_config l' = rl_config (n_log n)" "same_outside (rl_dir (n_log n)) s s1"
    "rl_entries l' = rl_entries (n_log n) @ [\<lparr>le_term = n_term n, le_index = last_index (n_log n) + 1, le_data = dat\<rparr>]"
    "rl_snapshot_index l' = rl_snapshot_index (n_log n)" "rl_snapshot_term l' = rl_snapshot_term (n_log n)"
    using log_append_step [OF _ b1 d] node_rep_log [OF rep] by blast
  have "node_rep crc (n\<lparr>n_log := l'\<rparr>) s1" by (rule node_log_step [OF rep a(2-4)])
  moreover have "n' = n\<lparr>n_log := l'\<rparr> \<and> s' = s1 \<and> index = last_index (n_log n) + 1 \<and> peer_requests n' index (n_peers n) = Ok (aes, snaps)"
    using run lead a(1)
    by (auto simp: client_write_begin_def on_log_def on_field_def split: res.splits prod.splits)
  ultimately show ?thesis using lead a(5-7) by auto
qed

text \<open>The second phase commits when a quorum acknowledged, and otherwise at most steps down.\<close>

lemma client_write_finish_run:
  assumes rep: "node_rep crc n s" and trig: "n_entries_since_snapshot n + 1 < n_snapshot_trigger n"
    and run: "client_write_finish crc env index rs [] (n, s) = (r, (n', s'))"
  shows "calm crc n (n', s') \<and> \<not> is_ok r \<or>
    r = Ok index \<and> quorum (n_config n) \<le> 1 + successes rs \<and> n_commit_index n' = index \<and>
    calm crc n (n'\<lparr>n_commit_index := n_commit_index n, n_entries_since_snapshot := n_entries_since_snapshot n\<rparr>, s')"
proof -
  obtain ra n1 s1 where a: "ae_acks env index rs 1 (n, s) = (ra, (n1, s1))" by (metis surj_pair)
  have c: "calm crc n (n1, s1)"
    using ae_acks_calm [OF calm_refl [OF rep], of env index rs 1] a by (simp add: outcome_def)
  show ?thesis
  proof (cases "\<exists>ret acks. ra = Ok (ret, acks) \<and> quorum (n_config n1) \<le> acks")
    case True
    then obtain ret acks where ok: "ra = Ok (ret, acks)" "quorum (n_config n1) \<le> acks" by blast
    have "acks \<le> 1 + successes rs" using ae_acks_bound a ok(1) by blast
    then have "quorum (n_config n) \<le> 1 + successes rs" using ok(2) c by (simp add: calm_def)
    moreover have t1: "n_entries_since_snapshot n1 = n_entries_since_snapshot n" "n_snapshot_trigger n1 = n_snapshot_trigger n"
      using c rep by (simp_all add: calm_def node_rep_def)
    moreover have "r = Ok index \<and> n' = n1\<lparr>n_commit_index := index, n_entries_since_snapshot := n_entries_since_snapshot n1 + 1\<rparr> \<and> s' = s1"
      using run a ok t1 trig by (auto simp: client_write_finish_def Let_def not_le split: if_splits)
    moreover have "n1\<lparr>n_commit_index := n_commit_index n, n_entries_since_snapshot := n_entries_since_snapshot n\<rparr> = n1"
      using c by (simp add: calm_def)
    ultimately show ?thesis using c by simp
  next
    case False
    have "(n', s') = (n1, s1) \<and> \<not> is_ok r"
      using run a False
      by (cases ra) (auto simp: client_write_finish_def Let_def split: if_splits prod.splits)
    with c show ?thesis by auto
  qed
qed

end
