(* ===== verification/Raft_Protocol.thy ===== *)
theory Raft_Protocol
  imports Raft_Log Quorum
begin

text \<open>
  The abstract Raft protocol: what the nodes of a cluster promise each other, without disks, messages and
  timers. The history of a run is part of the state: the log of the leader of every term, the logs with which
  nodes stood for election, the voters' logs when they voted, and what each node acknowledged in which term. An
  entry that a majority acknowledged in its own term is in the log of every later leader.
\<close>

section \<open>Lists of entries\<close>

abbreviation eterm :: "log_entry \<Rightarrow> nat" where
  "eterm e \<equiv> unat (le_term e)"

definition last_eterm :: "log_entry list \<Rightarrow> nat" where
  "last_eterm xs = (if xs = [] then 0 else eterm (last xs))"

text \<open>The comparison of a voter: \<open>xs\<close> is at least as up to date as \<open>ys\<close>.\<close>

definition up_to_date :: "log_entry list \<Rightarrow> log_entry list \<Rightarrow> bool" where
  "up_to_date xs ys \<longleftrightarrow>
     last_eterm ys < last_eterm xs \<or> last_eterm ys = last_eterm xs \<and> length ys \<le> length xs"

text \<open>Both lists have \<open>i\<close> entries, the same ones.\<close>

definition agree :: "nat \<Rightarrow> 'a list \<Rightarrow> 'a list \<Rightarrow> bool" where
  "agree i xs ys \<longleftrightarrow> i \<le> length xs \<and> i \<le> length ys \<and> take i xs = take i ys"

lemma agree_sym: "agree i xs ys \<Longrightarrow> agree i ys xs"
  by (simp add: agree_def)

lemma agree_trans: "agree i xs ys \<Longrightarrow> agree i ys zs \<Longrightarrow> agree i xs zs"
  by (simp add: agree_def)

lemma agree_nth: "agree i xs ys \<Longrightarrow> j < i \<Longrightarrow> xs ! j = ys ! j"
  by (metis agree_def nth_take)

lemma agree_le: "agree i xs ys \<Longrightarrow> j \<le> i \<Longrightarrow> agree j xs ys"
  unfolding agree_def by (metis le_trans min.absorb1 take_take)

lemma agree_refl: "i \<le> length xs \<Longrightarrow> agree i xs xs"
  by (simp add: agree_def)

lemma agree_append: "agree i xs ys \<Longrightarrow> agree i (xs @ zs) ys"
  by (simp add: agree_def)

lemma agree_append2: "agree i xs ys \<Longrightarrow> agree i xs (ys @ zs)"
  by (simp add: agree_def)

lemma agree_take: "agree i xs ys \<Longrightarrow> i \<le> m \<Longrightarrow> agree i (take m xs) ys"
  by (simp add: agree_def min_def)

text \<open>The first place where two lists differ bounds how far they agree.\<close>

lemma agree_differ: "agree i xs ys \<Longrightarrow> agree i zs ys \<Longrightarrow> xs ! m \<noteq> zs ! m \<Longrightarrow> i \<le> m"
  by (metis agree_nth not_le)

lemma agree_copy:
  assumes "agree i xs ys" and "agree (length xs) xs zs"
  shows "agree i (take (Suc (length xs)) zs) ys"
proof -
  have "i \<le> length xs" using assms(1) by (simp add: agree_def)
  then have "agree i zs ys" using agree_trans [OF agree_le [OF agree_sym [OF assms(2)]] assms(1)] by simp
  then show ?thesis using \<open>i \<le> length xs\<close> by (simp add: agree_take)
qed

section \<open>State and steps\<close>

record proto =
  p_term :: "string \<Rightarrow> nat"
  p_log :: "string \<Rightarrow> log_entry list"
  p_hist :: "nat \<Rightarrow> log_entry list option"
  p_cand :: "string \<Rightarrow> nat \<Rightarrow> log_entry list option"
  p_votes :: "(string \<times> nat \<times> string \<times> log_entry list) set"
  p_acks :: "(string \<times> nat \<times> nat) set"

text \<open>A node moves to a later term; stands for election in it; votes for a candidate whose log is up to date;
  wins; appends to its log as leader; cuts its log where it differs from the leader's; copies the leader's next
  entry; acknowledges what it has of the leader's log.\<close>

inductive proto_step :: "string set \<Rightarrow> proto \<Rightarrow> proto \<Rightarrow> bool" for ids where
  advance: "p_term a k < t \<Longrightarrow> proto_step ids a (a\<lparr>p_term := (p_term a)(k := t)\<rparr>)"
| stand: "p_term a k < t \<Longrightarrow>
    proto_step ids a (a\<lparr>p_term := (p_term a)(k := t), p_cand := (p_cand a)(k := (p_cand a k)(t \<mapsto> p_log a k)),
                        p_votes := insert (k, t, k, p_log a k) (p_votes a)\<rparr>)"
| grant: "p_term a k = t \<Longrightarrow> p_cand a v t = Some C \<Longrightarrow> up_to_date C (p_log a k) \<Longrightarrow>
    proto_step ids a (a\<lparr>p_votes := insert (k, t, v, p_log a k) (p_votes a)\<rparr>)"
| win: "p_cand a v t = Some C \<Longrightarrow> p_hist a t = None \<Longrightarrow> majority ids Q \<Longrightarrow>
    \<forall>k \<in> Q. \<exists>V. (k, t, v, V) \<in> p_votes a \<Longrightarrow> proto_step ids a (a\<lparr>p_hist := (p_hist a)(t \<mapsto> C)\<rparr>)"
| propose: "p_term a v = t \<Longrightarrow> p_hist a t = Some (p_log a v) \<Longrightarrow> eterm e = t \<Longrightarrow>
    proto_step ids a (a\<lparr>p_hist := (p_hist a)(t \<mapsto> p_log a v @ [e]), p_log := (p_log a)(v := p_log a v @ [e])\<rparr>)"
| cut: "p_term a k = t \<Longrightarrow> p_hist a t = Some G \<Longrightarrow> agree m (p_log a k) G \<Longrightarrow> m < length (p_log a k) \<Longrightarrow>
    m < length G \<Longrightarrow> p_log a k ! m \<noteq> G ! m \<Longrightarrow>
    proto_step ids a (a\<lparr>p_log := (p_log a)(k := take m (p_log a k))\<rparr>)"
| copy: "p_term a k = t \<Longrightarrow> p_hist a t = Some G \<Longrightarrow> agree (length (p_log a k)) (p_log a k) G \<Longrightarrow>
    length (p_log a k) < length G \<Longrightarrow>
    proto_step ids a (a\<lparr>p_log := (p_log a)(k := take (Suc (length (p_log a k))) G)\<rparr>)"
| ack: "p_term a k = t \<Longrightarrow> p_hist a t = Some G \<Longrightarrow> agree i (p_log a k) G \<Longrightarrow>
    proto_step ids a (a\<lparr>p_acks := p_acks a \<union> {(k, t, j) | j. j \<le> i}\<rparr>)"

definition proto_init :: "proto \<Rightarrow> bool" where
  "proto_init a \<longleftrightarrow> p_log a = (\<lambda>k. []) \<and> p_hist a = Map.empty \<and> p_cand a = (\<lambda>k. Map.empty) \<and> p_votes a = {} \<and> p_acks a = {}"

section \<open>The invariant\<close>

definition known :: "proto \<Rightarrow> log_entry list set" where
  "known a = range (p_log a) \<union> ran (p_hist a) \<union> (\<Union>v. ran (p_cand a v)) \<union> {V. \<exists>k t v. (k, t, v, V) \<in> p_votes a}"

text \<open>Up to any entry, a log is that of the leader of the entry's term.\<close>

definition matching :: "proto \<Rightarrow> log_entry list \<Rightarrow> bool" where
  "matching a L \<longleftrightarrow> (\<forall>j < length L. \<exists>G. p_hist a (eterm (L ! j)) = Some G \<and> agree (Suc j) L G)"

definition terms_ok :: "proto \<Rightarrow> bool" where
  "terms_ok a \<longleftrightarrow>
     (\<forall>t G. p_hist a t = Some G \<longrightarrow> 0 < t \<and> (\<forall>e \<in> set G. eterm e \<le> t) \<and> sorted (map eterm G)) \<and>
     (\<forall>k. \<forall>e \<in> set (p_log a k). eterm e \<le> p_term a k) \<and>
     (\<forall>v t C. p_cand a v t = Some C \<longrightarrow> 0 < t \<and> t \<le> p_term a v \<and> (\<forall>e \<in> set C. eterm e < t))"

definition votes_ok :: "string set \<Rightarrow> proto \<Rightarrow> bool" where
  "votes_ok ids a \<longleftrightarrow>
     (\<forall>k t v V. (k, t, v, V) \<in> p_votes a \<longrightarrow> t \<le> p_term a k \<and> (\<exists>C. p_cand a v t = Some C \<and> up_to_date C V)) \<and>
     (\<forall>k t i. (k, t, i) \<in> p_acks a \<longrightarrow> t \<le> p_term a k \<and> (\<exists>G. p_hist a t = Some G \<and> i \<le> length G)) \<and>
     (\<forall>t G. p_hist a t = Some G \<longrightarrow> (\<exists>Q. majority ids Q \<and> (\<forall>k \<in> Q. t \<le> p_term a k)))"

text \<open>Entry \<open>i\<close> of the log of term \<open>t\<close> was appended in that term; a log holds the entries up to it; a majority
  has left the term without acknowledging it, so that no majority ever will.\<close>

definition own :: "proto \<Rightarrow> nat \<Rightarrow> nat \<Rightarrow> bool" where
  "own a t i \<longleftrightarrow> (\<exists>G. p_hist a t = Some G \<and> 0 < i \<and> i \<le> length G \<and> eterm (G ! (i - 1)) = t)"

definition holds_up_to :: "proto \<Rightarrow> nat \<Rightarrow> nat \<Rightarrow> log_entry list \<Rightarrow> bool" where
  "holds_up_to a t i L \<longleftrightarrow> (\<exists>G. p_hist a t = Some G \<and> agree i L G)"

definition dead :: "string set \<Rightarrow> proto \<Rightarrow> nat \<Rightarrow> nat \<Rightarrow> bool" where
  "dead ids a t i \<longleftrightarrow> (\<exists>R. majority ids R \<and> (\<forall>k \<in> R. t < p_term a k \<and> (k, t, i) \<notin> p_acks a))"

definition chosen :: "string set \<Rightarrow> proto \<Rightarrow> nat \<Rightarrow> nat \<Rightarrow> bool" where
  "chosen ids a t i \<longleftrightarrow> own a t i \<and> (\<exists>Q. majority ids Q \<and> (\<forall>k \<in> Q. (k, t, i) \<in> p_acks a))"

definition safe :: "string set \<Rightarrow> proto \<Rightarrow> bool" where
  "safe ids a \<longleftrightarrow>
     (\<forall>t i t' L. own a t i \<longrightarrow> t < t' \<longrightarrow> p_hist a t' = Some L \<longrightarrow> holds_up_to a t i L \<or> dead ids a t i) \<and>
     (\<forall>k t i. own a t i \<longrightarrow> (k, t, i) \<in> p_acks a \<longrightarrow> holds_up_to a t i (p_log a k) \<or> dead ids a t i) \<and>
     (\<forall>k t i t' v V. own a t i \<longrightarrow> (k, t, i) \<in> p_acks a \<longrightarrow> t < t' \<longrightarrow> (k, t', v, V) \<in> p_votes a \<longrightarrow>
        holds_up_to a t i V \<or> dead ids a t i)"

definition proto_inv :: "string set \<Rightarrow> proto \<Rightarrow> bool" where
  "proto_inv ids a \<longleftrightarrow> (\<forall>L \<in> known a. matching a L) \<and> terms_ok a \<and> votes_ok ids a \<and> safe ids a"


section \<open>What a run keeps\<close>

definition later :: "proto \<Rightarrow> proto \<Rightarrow> bool" where
  "later a a' \<longleftrightarrow> (\<forall>t G. p_hist a t = Some G \<longrightarrow> (\<exists>zs. p_hist a' t = Some (G @ zs))) \<and>
     (\<forall>k. p_term a k \<le> p_term a' k) \<and> p_acks a \<subseteq> p_acks a' \<and>
     (\<forall>k t i. (k, t, i) \<in> p_acks a' \<longrightarrow> (k, t, i) \<notin> p_acks a \<longrightarrow> p_term a' k = t)"

lemma later_hist: "later a a' \<Longrightarrow> p_hist a t = Some G \<Longrightarrow> \<exists>zs. p_hist a' t = Some (G @ zs)"
  by (simp add: later_def)

lemma later_dead:
  assumes "later a a'" and "dead ids a t i"
  shows "dead ids a' t i"
proof -
  obtain R where R: "majority ids R" "\<forall>k \<in> R. t < p_term a k \<and> (k, t, i) \<notin> p_acks a"
    using assms(2) by (auto simp: dead_def)
  have "t < p_term a' k \<and> (k, t, i) \<notin> p_acks a'" if "k \<in> R" for k
  proof -
    have "t < p_term a k" "(k, t, i) \<notin> p_acks a" "p_term a k \<le> p_term a' k"
      using R(2) that assms(1) by (auto simp: later_def)
    then show ?thesis using assms(1) unfolding later_def by fastforce
  qed
  then show ?thesis using R(1) by (auto simp: dead_def)
qed

lemma later_holds: "later a a' \<Longrightarrow> holds_up_to a t i L \<Longrightarrow> holds_up_to a' t i L"
  unfolding later_def holds_up_to_def by (metis agree_append2)

lemma later_matching:
  assumes "later a a'" and "matching a L"
  shows "matching a' L"
  unfolding matching_def
proof (intro allI impI)
  fix j assume "j < length L"
  then obtain G where G: "p_hist a (eterm (L ! j)) = Some G" "agree (Suc j) L G"
    using assms(2) by (auto simp: matching_def)
  then obtain zs where "p_hist a' (eterm (L ! j)) = Some (G @ zs)" using later_hist [OF assms(1)] by blast
  with G(2) show "\<exists>G. p_hist a' (eterm (L ! j)) = Some G \<and> agree (Suc j) L G" by (auto intro: agree_append2)
qed

lemma matching_take:
  assumes "matching a L"
  shows "matching a (take m L)"
  unfolding matching_def
proof (intro allI impI)
  fix j assume j: "j < length (take m L)"
  then obtain G where "p_hist a (eterm (L ! j)) = Some G" "agree (Suc j) L G"
    using assms by (auto simp: matching_def)
  with j show "\<exists>G. p_hist a (eterm (take m L ! j)) = Some G \<and> agree (Suc j) (take m L) G"
    by (simp add: agree_take)
qed

lemma own_holds_last:
  assumes "own a t i" and "holds_up_to a t i L"
  shows "0 < i \<and> i \<le> length L \<and> eterm (L ! (i - 1)) = t"
proof -
  obtain G where G: "p_hist a t = Some G" "0 < i" "eterm (G ! (i - 1)) = t" "agree i L G"
    using assms by (auto simp: own_def holds_up_to_def)
  then have "L ! (i - 1) = G ! (i - 1)" using agree_nth [of i L G "i - 1"] by simp
  with G show ?thesis by (simp add: agree_def)
qed

lemma sorted_hist: "terms_ok a \<Longrightarrow> p_hist a t = Some G \<Longrightarrow> sorted (map eterm G)"
  by (simp add: terms_ok_def)

lemma sorted_matching:
  assumes "matching a L" and "terms_ok a"
  shows "sorted (map eterm L)"
proof (cases "L = []")
  case False
  then have "length L - 1 < length L" by simp
  then obtain G where G: "p_hist a (eterm (L ! (length L - 1))) = Some G" "agree (Suc (length L - 1)) L G"
    using assms(1) unfolding matching_def by blast
  then have "L = take (length L) G" using False by (simp add: agree_def)
  then have "map eterm L = take (length L) (map eterm G)" by (metis take_map)
  moreover have "sorted (take (length L) (map eterm G))"
    using sorted_hist [OF assms(2) G(1)] by (rule sorted_wrt_take)
  ultimately show ?thesis by simp
qed simp

lemma nth_le_last_eterm:
  assumes "sorted (map eterm L)" and "j < length L"
  shows "eterm (L ! j) \<le> last_eterm L"
proof -
  have "L \<noteq> []" using assms(2) by auto
  then have "last_eterm L = map eterm L ! (length L - 1)" by (simp add: last_eterm_def last_conv_nth)
  moreover have "map eterm L ! j \<le> map eterm L ! (length L - 1)"
    using assms by (intro sorted_nth_mono) auto
  ultimately show ?thesis using assms(2) by simp
qed


section \<open>A new leader has every entry that can still be chosen\<close>

lemma new_leader_safe:
  assumes inv: "proto_inv ids a" and cand: "p_cand a v t' = Some C"
    and Q: "majority ids Q" "\<forall>k \<in> Q. \<exists>V. (k, t', v, V) \<in> p_votes a"
    and own: "own a t i" and less: "t < t'"
  shows "holds_up_to a t i C \<or> dead ids a t i"
proof (cases "\<exists>k \<in> Q. (k, t, i) \<in> p_acks a")
  case False
  have "t < p_term a k" if "k \<in> Q" for k
    using that Q(2) inv less unfolding proto_inv_def votes_ok_def by (meson less_le_trans)
  with False Q(1) show ?thesis by (auto simp: dead_def)
next
  case True
  then obtain k V where k: "(k, t, i) \<in> p_acks a" "(k, t', v, V) \<in> p_votes a" using Q(2) by blast
  have tok: "terms_ok a" and mat: "\<And>L. L \<in> known a \<Longrightarrow> matching a L" using inv by (auto simp: proto_inv_def)
  show ?thesis
  proof (cases "dead ids a t i")
    case False
    have safe: "safe ids a" using inv by (simp add: proto_inv_def)
    have V: "holds_up_to a t i V"
      using safe own k less False unfolding safe_def by blast
    obtain G where G: "p_hist a t = Some G" and GV: "agree i V G" using V by (auto simp: holds_up_to_def)
    have "V \<in> known a" using k(2) by (auto simp: known_def)
    then have "sorted (map eterm V)" using sorted_matching mat tok by blast
    then have lV: "t \<le> last_eterm V"
      using nth_le_last_eterm [of V "i - 1"] own_holds_last [OF own V] by auto
    have up: "up_to_date C V"
      using inv k(2) cand unfolding proto_inv_def votes_ok_def by fastforce
    have t0: "0 < t" using tok G by (simp add: terms_ok_def)
    define s where "s = last_eterm C"
    have ts: "t \<le> s" using up lV by (auto simp: up_to_date_def s_def)
    then have Cne: "C \<noteq> []" using t0 by (auto simp: s_def last_eterm_def)
    have sC: "s = eterm (C ! (length C - 1))" using Cne by (simp add: s_def last_eterm_def last_conv_nth)
    have "C \<in> known a" using cand by (auto simp: known_def ran_def)
    then obtain Gs where Gs: "p_hist a s = Some Gs" "agree (length C) C Gs"
      using mat [of C] Cne unfolding matching_def sC by (metis Suc_pred' diff_less length_greater_0_conv less_numeral_extra(1))
    have st: "s < t'" using tok cand Cne unfolding terms_ok_def sC by simp
    show ?thesis
    proof (cases "s = t")
      case True
      then have "length V \<le> length C" using up lV by (auto simp: up_to_date_def s_def)
      then have "i \<le> length C" using GV by (simp add: agree_def)
      moreover have "Gs = G" using True G Gs(1) by simp
      ultimately show ?thesis using G agree_le [OF Gs(2)] by (auto simp: holds_up_to_def)
    next
      case neq: False
      then have "t < s" using ts by simp
      then have "holds_up_to a t i Gs" using safe own Gs(1) False unfolding safe_def by blast
      then have GG: "agree i Gs G" using G by (auto simp: holds_up_to_def)
      have "i \<le> length C"
      proof (rule ccontr)
        assume "\<not> i \<le> length C"
        then have lt: "length C - 1 < i" "length C - 1 \<le> i - 1" by simp_all
        then have "C ! (length C - 1) = G ! (length C - 1)"
          using agree_nth [OF Gs(2), of "length C - 1"] agree_nth [OF GG, of "length C - 1"] Cne by simp
        moreover have "map eterm G ! (length C - 1) \<le> map eterm G ! (i - 1)"
          using lt own G by (intro sorted_nth_mono sorted_hist [OF tok G]) (auto simp: own_def)
        ultimately have "s \<le> t" using sC own G lt by (auto simp: own_def)
        with \<open>t < s\<close> show False by simp
      qed
      then show ?thesis
        using G agree_trans [OF agree_le [OF Gs(2)] GG] by (auto simp: holds_up_to_def)
    qed
  qed simp
qed

section \<open>Every step keeps the invariant\<close>

lemma step_later: "proto_step ids a a' \<Longrightarrow> later a a'"
  by (induction rule: proto_step.induct) (auto simp: later_def)

lemma step_matching:
  assumes step: "proto_step ids a a'" and inv: "proto_inv ids a" and L: "L \<in> known a'"
  shows "matching a' L"
proof -
  note lat = step_later [OF step]
  have old: "matching a' L" if "L \<in> known a" for L
    using that inv later_matching [OF lat] by (auto simp: proto_inv_def)
  have pl: "matching a (p_log a k)" for k using inv by (auto simp: proto_inv_def known_def)
  have ph: "matching a G" if "p_hist a t = Some G" for t G
    using inv that by (auto simp: proto_inv_def known_def ran_def)
  show ?thesis
    using step
  proof cases
    case (propose v t e)
    have new: "matching a' (p_log a v @ [e])"
      unfolding matching_def
    proof (intro allI impI)
      fix j assume j: "j < length (p_log a v @ [e])"
      show "\<exists>G. p_hist a' (eterm ((p_log a v @ [e]) ! j)) = Some G \<and> agree (Suc j) (p_log a v @ [e]) G"
      proof (cases "j < length (p_log a v)")
        case True
        have "matching a' (p_log a v)" by (rule later_matching [OF lat pl])
        then obtain G where "p_hist a' (eterm (p_log a v ! j)) = Some G" "agree (Suc j) (p_log a v) G"
          using True unfolding matching_def by blast
        then show ?thesis using True by (auto simp: nth_append intro: agree_append)
      next
        case False
        then have "(p_log a v @ [e]) ! j = e" using j by (simp add: nth_append)
        then show ?thesis using j propose by (auto simp: agree_def)
      qed
    qed
    have "L \<in> known a \<or> L = p_log a v @ [e]"
      using L propose by (auto simp: known_def ran_def split: if_splits)
    with old new show ?thesis by blast
  next
    case (cut k t G m)
    then have "L \<in> known a \<or> L = take m (p_log a k)"
      using L by (auto simp: known_def)
    with old show ?thesis using later_matching [OF lat matching_take [OF pl]] by blast
  next
    case (copy k t G)
    then have "L \<in> known a \<or> L = take (Suc (length (p_log a k))) G"
      using L by (auto simp: known_def)
    with old show ?thesis using later_matching [OF lat matching_take [OF ph [OF copy(3)]]] by blast
  next
    case (win v t C Q)
    then have "L \<in> known a" using L by (auto simp: known_def ran_def split: if_splits)
    with old show ?thesis .
  next
    case (stand k t)
    then have "L \<in> known a" using L by (auto simp: known_def ran_def split: if_splits)
    with old show ?thesis .
  next
    case (grant k t v C)
    then have "L \<in> known a" using L by (auto simp: known_def)
    with old show ?thesis .
  next
    case advance
    then have "L \<in> known a" using L by (simp add: known_def)
    with old show ?thesis .
  next
    case ack
    then have "L \<in> known a" using L by (simp add: known_def)
    with old show ?thesis .
  qed
qed

lemma terms_ok_simps:
  assumes "terms_ok a"
  shows "p_hist a t = Some G \<Longrightarrow> 0 < t" and "p_hist a t = Some G \<Longrightarrow> e \<in> set G \<Longrightarrow> eterm e \<le> t"
    and "e \<in> set (p_log a k) \<Longrightarrow> eterm e \<le> p_term a k"
    and "p_cand a v t = Some C \<Longrightarrow> 0 < t" and "p_cand a v t = Some C \<Longrightarrow> t \<le> p_term a v"
    and "p_cand a v t = Some C \<Longrightarrow> e \<in> set C \<Longrightarrow> eterm e < t"
  using assms unfolding terms_ok_def by blast+

lemma step_terms:
  assumes step: "proto_step ids a a'" and inv: "proto_inv ids a"
  shows "terms_ok a'"
proof -
  have tok: "terms_ok a" using inv by (simp add: proto_inv_def)
  note old = terms_ok_simps [OF tok] and srt = sorted_hist [OF tok]
  show ?thesis
    using step
  proof cases
    case (advance k t)
    then show ?thesis
      using old srt by (auto simp: terms_ok_def) (meson le_trans less_imp_le)+
  next
    case (stand k t)
    have "eterm e < t" if "e \<in> set (p_log a k)" for e using old(3) [OF that] stand(2) by simp
    moreover have "t' \<le> t" if "p_cand a k t' = Some C" for t' C using old(5) [OF that] stand(2) by simp
    moreover have "0 < t" using stand(2) by simp
    ultimately show ?thesis using old srt stand by (auto simp: terms_ok_def less_imp_le)
  next
    case (win v t C Q)
    have "C \<in> known a" using win by (auto simp: known_def ran_def)
    then have "sorted (map eterm C)" using inv sorted_matching tok by (auto simp: proto_inv_def)
    then show ?thesis using old srt win by (auto simp: terms_ok_def less_imp_le)
  next
    case (propose v t e)
    have "sorted (map eterm (p_log a v @ [e]))"
      using old(2) [OF propose(3)] srt [OF propose(3)] propose(4) by (auto simp: sorted_append)
    then show ?thesis using old srt propose by (auto simp: terms_ok_def)
  next
    case (cut k t G m)
    then show ?thesis using old srt by (auto simp: terms_ok_def dest: in_set_takeD)
  next
    case (copy k t G)
    then show ?thesis using old srt by (auto simp: terms_ok_def dest!: in_set_takeD)
  qed (use tok in \<open>auto simp: terms_ok_def\<close>)
qed

lemma acks_bound:
  "proto_inv ids a \<Longrightarrow> (k, t, i) \<in> p_acks a \<Longrightarrow> t \<le> p_term a k \<and> (\<exists>G. p_hist a t = Some G \<and> i \<le> length G)"
  unfolding proto_inv_def votes_ok_def by blast

lemma step_votes_ok:
  assumes step: "proto_step ids a a'" and inv: "proto_inv ids a"
  shows "votes_ok ids a'"
proof -
  have vok: "votes_ok ids a" and tok: "terms_ok a" using inv by (simp_all add: proto_inv_def)
  have mono: "\<exists>Q. majority ids Q \<and> (\<forall>k \<in> Q. t \<le> p_term a' k)" if "p_hist a t = Some G" for t G
  proof -
    have "\<exists>Q. majority ids Q \<and> (\<forall>k \<in> Q. t \<le> p_term a k)" using vok that unfolding votes_ok_def by simp
    then obtain Q where "majority ids Q" "\<forall>k \<in> Q. t \<le> p_term a k" by blast
    moreover have "p_term a k \<le> p_term a' k" for k using step_later [OF step] by (simp add: later_def)
    ultimately show ?thesis by (meson order_trans)
  qed
  show ?thesis
    using step
  proof cases
    case (advance k t)
    have "t' \<le> t" if "(k, t', v, V) \<in> p_votes a" for t' v V
      using vok that advance(2) unfolding votes_ok_def by fastforce
    moreover have "t' \<le> t" if "(k, t', i) \<in> p_acks a" for t' i
      using vok that advance(2) unfolding votes_ok_def by fastforce
    ultimately show ?thesis using vok mono advance unfolding votes_ok_def by auto
  next
    case (stand k t)
    have fresh: "p_cand a k t = None"
      using terms_ok_simps(5) [OF tok, of k t] stand(2) by (cases "p_cand a k t") auto
    have up: "up_to_date (p_log a k) (p_log a k)" by (simp add: up_to_date_def)
    show ?thesis
      unfolding votes_ok_def
    proof (intro conjI allI impI)
      fix k' t' v V assume "(k', t', v, V) \<in> p_votes a'"
      then consider "(k', t', v, V) \<in> p_votes a" | "k' = k" "t' = t" "v = k" "V = p_log a k"
        using stand by auto
      then have "t' \<le> p_term a' k' \<and> (\<exists>C. p_cand a' v t' = Some C \<and> up_to_date C V)"
      proof cases
        case 1
        then obtain C where C: "t' \<le> p_term a k'" "p_cand a v t' = Some C" "up_to_date C V"
          using vok unfolding votes_ok_def by blast
        then have "\<not> (v = k \<and> t' = t)" using fresh by auto
        with C stand show ?thesis by auto
      qed (use stand up in auto)
      then show "t' \<le> p_term a' k'" "\<exists>C. p_cand a' v t' = Some C \<and> up_to_date C V" by blast+
    next
      fix k' t' i assume "(k', t', i) \<in> p_acks a'"
      then have "t' \<le> p_term a k' \<and> (\<exists>G. p_hist a t' = Some G \<and> i \<le> length G)"
        using vok stand unfolding votes_ok_def by auto
      then show "t' \<le> p_term a' k'" "\<exists>G. p_hist a' t' = Some G \<and> i \<le> length G" using stand by auto
    next
      fix t' G assume "p_hist a' t' = Some G"
      then show "\<exists>Q. majority ids Q \<and> (\<forall>k \<in> Q. t' \<le> p_term a' k)" using mono stand by simp
    qed
  next
    case (win v t C Q)
    have new: "\<forall>k \<in> Q. t \<le> p_term a k" using vok win(5) unfolding votes_ok_def by fast
    show ?thesis
      unfolding votes_ok_def
    proof (intro conjI allI impI)
      fix t' G assume "p_hist a' t' = Some G"
      then show "\<exists>Q. majority ids Q \<and> (\<forall>k \<in> Q. t' \<le> p_term a' k)"
        using mono new win by (cases "t' = t") auto
    next
      fix k t' i assume "(k, t', i) \<in> p_acks a'"
      then have "t' \<le> p_term a k" "\<exists>G. p_hist a t' = Some G \<and> i \<le> length G"
        using acks_bound [OF inv] win by simp_all
      moreover from this have "t' \<noteq> t" using win(3) by auto
      ultimately show "t' \<le> p_term a' k" "\<exists>G. p_hist a' t' = Some G \<and> i \<le> length G" using win by simp_all
    qed (use vok win in \<open>auto simp: votes_ok_def\<close>)
  next
    case (propose v t e)
    show ?thesis
      unfolding votes_ok_def
    proof (intro conjI allI impI)
      fix k' t' i assume "(k', t', i) \<in> p_acks a'"
      then have old: "t' \<le> p_term a k'" "\<exists>G. p_hist a t' = Some G \<and> i \<le> length G"
        using vok propose unfolding votes_ok_def by auto
      then show "t' \<le> p_term a' k'" "\<exists>G. p_hist a' t' = Some G \<and> i \<le> length G" using propose by auto
    next
      fix t' G assume "p_hist a' t' = Some G"
      then show "\<exists>Q. majority ids Q \<and> (\<forall>k \<in> Q. t' \<le> p_term a' k)"
        using mono propose by (cases "t' = t") auto
    qed (use vok propose in \<open>auto simp: votes_ok_def\<close>)
  qed (use vok in \<open>auto simp: votes_ok_def agree_def\<close>)
qed


lemma own_new:
  assumes step: "proto_step ids a a'" and inv: "proto_inv ids a" and own: "own a' t i"
  shows "own a t i \<or> p_acks a' = p_acks a \<and> (\<exists>G. p_hist a t = Some G \<and> i = Suc (length G)) \<and>
    (\<forall>t'. t' \<noteq> t \<longrightarrow> p_hist a' t' = p_hist a t') \<and> p_term a' = p_term a"
  using step
proof cases
  case (win v t0 C Q)
  have "\<not> (t = t0)"
  proof
    assume "t = t0"
    then have "C ! (i - 1) \<in> set C" "eterm (C ! (i - 1)) = t0" using own win by (auto simp: own_def)
    then show False using terms_ok_simps(6) [of a v t0 C] inv win by (auto simp: proto_inv_def)
  qed
  then show ?thesis using own win by (auto simp: own_def)
next
  case (propose v t0 e)
  show ?thesis
  proof (cases "t = t0 \<and> i = Suc (length (p_log a v))")
    case False
    then have "own a t i" using own propose by (auto simp: own_def nth_append split: if_splits)
    then show ?thesis ..
  qed (use propose in auto)
qed (use own in \<open>simp_all add: own_def\<close>)

lemma own_acked:
  assumes step: "proto_step ids a a'" and inv: "proto_inv ids a" and own: "own a' t i" and ack: "(k, t, i) \<in> p_acks a'"
  shows "own a t i"
  using own_new [OF step inv own] acks_bound [OF inv, of k t i] ack by auto

text \<open>An entry that is new in term \<open>t\<close> when a later leader exists comes too late to be chosen.\<close>

lemma late_entry_dead:
  assumes inv: "proto_inv ids a" and G: "p_hist a t = Some G" and L: "p_hist a t' = Some L" and less: "t < t'"
  shows "dead ids a t (Suc (length G))"
proof -
  have "\<exists>Q. majority ids Q \<and> (\<forall>k \<in> Q. t' \<le> p_term a k)"
    using inv L by (simp add: proto_inv_def votes_ok_def)
  moreover have "(k, t, Suc (length G)) \<notin> p_acks a" for k
    using inv G unfolding proto_inv_def votes_ok_def by fastforce
  ultimately show ?thesis using less by (meson dead_def less_le_trans)
qed

lemma later_safe_log:
  "later a a' \<Longrightarrow> holds_up_to a t i L \<or> dead ids a t i \<Longrightarrow> holds_up_to a' t i L \<or> dead ids a' t i"
  using later_holds later_dead by blast

lemma step_safe_leaders:
  assumes step: "proto_step ids a a'" and inv: "proto_inv ids a"
    and own: "own a' t i" and less: "t < t'" and L: "p_hist a' t' = Some L"
  shows "holds_up_to a' t i L \<or> dead ids a' t i"
proof -
  note lat = step_later [OF step]
  have safe: "holds_up_to a t i M \<or> dead ids a t i" if "own a t i" "p_hist a t' = Some M" for M
    using inv that less unfolding proto_inv_def safe_def by blast
  consider (old) "own a t i"
    | (new) G where "p_hist a t = Some G" "i = Suc (length G)" "p_hist a t' = Some L" "p_acks a' = p_acks a" "p_term a' = p_term a"
    using own_new [OF step inv own] L less by auto
  then show ?thesis
  proof cases
    case new
    then show ?thesis using late_entry_dead [OF inv new(1) new(3) less] by (simp add: dead_def)
  next
    case old
    show ?thesis
      using step
    proof cases
      case (win v t0 C Q)
      show ?thesis
      proof (cases "t' = t0")
        case True
        then have "holds_up_to a t i L \<or> dead ids a t i"
          using new_leader_safe [OF inv win(2) win(4,5) old] less win L by simp
        then show ?thesis by (rule later_safe_log [OF lat])
      qed (use later_safe_log [OF lat safe [OF old]] L win in auto)
    next
      case (propose v t0 e)
      show ?thesis
      proof (cases "t' = t0")
        case True
        then have "holds_up_to a t i (p_log a v) \<or> dead ids a t i" using safe old propose by blast
        then have "holds_up_to a t i L \<or> dead ids a t i"
          using L propose True by (auto simp: holds_up_to_def intro: agree_append)
        then show ?thesis by (rule later_safe_log [OF lat])
      qed (use later_safe_log [OF lat safe [OF old]] L propose in auto)
    qed (use later_safe_log [OF lat safe [OF old]] L in auto)
  qed
qed

text \<open>Cutting and copying keep what can still be chosen.\<close>

lemma log_change_safe:
  assumes inv: "proto_inv ids a" and G: "p_hist a (p_term a k) = Some G" and own: "own a t i"
    and log: "holds_up_to a t i (p_log a k)" and t: "t \<le> p_term a k"
    and m: "agree m (p_log a k) G" "m < length (p_log a k)" "p_log a k ! m \<noteq> G ! m"
  shows "i \<le> m \<or> dead ids a t i"
proof -
  obtain H where H: "p_hist a t = Some H" "agree i (p_log a k) H" using log by (auto simp: holds_up_to_def)
  have "i \<le> m \<or> dead ids a t i" if "agree i G H"
    using agree_differ [OF H(2) that m(3)] ..
  moreover have "agree i G H \<or> dead ids a t i"
  proof (cases "t = p_term a k")
    case True
    then show ?thesis using G H by (auto simp: agree_def)
  next
    case False
    then have "holds_up_to a t i G \<or> dead ids a t i"
      using inv own G t unfolding proto_inv_def safe_def by (meson le_neq_implies_less)
    then show ?thesis using H by (auto simp: holds_up_to_def)
  qed
  ultimately show ?thesis by blast
qed

lemma step_safe_logs:
  assumes step: "proto_step ids a a'" and inv: "proto_inv ids a"
    and own: "own a' t i" and ack: "(k, t, i) \<in> p_acks a'"
  shows "holds_up_to a' t i (p_log a' k) \<or> dead ids a' t i"
proof -
  note lat = step_later [OF step]
  have old: "own a t i" by (rule own_acked [OF step inv own ack])
  have safe: "holds_up_to a t i (p_log a k) \<or> dead ids a t i" if "(k, t, i) \<in> p_acks a"
    using inv that old unfolding proto_inv_def safe_def by blast
  have same: ?thesis if "p_acks a' = p_acks a" "p_log a' k = p_log a k"
    using later_safe_log [OF lat safe] that ack by simp
  show ?thesis
    using step
  proof cases
    case (propose v t0 e)
    then have "holds_up_to a t i (p_log a' k) \<or> dead ids a t i"
      using safe ack by (auto simp: holds_up_to_def intro: agree_append)
    then show ?thesis by (rule later_safe_log [OF lat])
  next
    case (cut k0 t0 G m)
    then have a: "(k, t, i) \<in> p_acks a" using ack by simp
    have "holds_up_to a t i (p_log a' k) \<or> dead ids a t i"
    proof (cases "k = k0 \<and> \<not> dead ids a t i")
      case True
      then have h: "holds_up_to a t i (p_log a k)" using safe a by blast
      have "t \<le> p_term a k" using acks_bound [OF inv a] by simp
      then have "i \<le> m"
        using log_change_safe [OF inv _ old h, of G m] cut(2-7) True by simp
      moreover have "p_log a' k = take m (p_log a k)" using cut(1) True by simp
      ultimately show ?thesis using h by (auto simp: holds_up_to_def intro: agree_take)
    qed (use safe a cut in auto)
    then show ?thesis by (rule later_safe_log [OF lat])
  next
    case (copy k0 t0 G)
    then have a: "(k, t, i) \<in> p_acks a" using ack by simp
    have "holds_up_to a t i (p_log a' k) \<or> dead ids a t i"
      using safe a copy by (auto simp: holds_up_to_def intro: agree_copy)
    then show ?thesis by (rule later_safe_log [OF lat])
  next
    case (ack k0 t0 G j)
    show ?thesis
    proof (cases "(k, t, i) \<in> p_acks a")
      case False
      then have "k = k0" "t = t0" "i \<le> j" using ack \<open>(k, t, i) \<in> p_acks a'\<close> by auto
      then have "holds_up_to a t i (p_log a k)" using ack agree_le by (auto simp: holds_up_to_def)
      then show ?thesis using later_holds [OF lat] ack by auto
    qed (use later_safe_log [OF lat safe] ack in auto)
  qed (rule same; simp)+
qed

lemma step_safe_votes:
  assumes step: "proto_step ids a a'" and inv: "proto_inv ids a" and own: "own a' t i"
    and ack: "(k, t, i) \<in> p_acks a'" and less: "t < t'" and vote: "(k, t', v, V) \<in> p_votes a'"
  shows "holds_up_to a' t i V \<or> dead ids a' t i"
proof -
  note lat = step_later [OF step]
  have old: "own a t i" by (rule own_acked [OF step inv own ack])
  have voted: "t' \<le> p_term a k" if "(k, t', v, V) \<in> p_votes a"
    using inv that unfolding proto_inv_def votes_ok_def by blast
  have a: "(k, t, i) \<in> p_acks a"
    using step
  proof cases
    case (ack k0 t0 G j)
    then show ?thesis using assms(4) voted vote less by auto
  qed (use ack in auto)
  have "holds_up_to a t i V \<or> dead ids a t i"
  proof (cases "(k, t', v, V) \<in> p_votes a")
    case True
    then show ?thesis using inv a old less unfolding proto_inv_def safe_def by blast
  next
    case False
    have "V = p_log a k"
      using step by cases (use vote False in auto)
    then show ?thesis using inv a old unfolding proto_inv_def safe_def by blast
  qed
  then show ?thesis by (rule later_safe_log [OF lat])
qed

lemma proto_step_inv:
  assumes "proto_step ids a a'" and "proto_inv ids a"
  shows "proto_inv ids a'"
  unfolding proto_inv_def safe_def
proof (intro conjI ballI allI impI)
qed (use step_matching [OF assms] step_terms [OF assms] step_votes_ok [OF assms] step_safe_leaders [OF assms]
    step_safe_logs [OF assms] step_safe_votes [OF assms] in blast)+


lemma proto_init_inv: "proto_init a \<Longrightarrow> proto_inv ids a"
  by (auto simp: proto_init_def proto_inv_def known_def matching_def terms_ok_def votes_ok_def safe_def)

section \<open>What follows\<close>

abbreviation proto_steps :: "string set \<Rightarrow> proto \<Rightarrow> proto \<Rightarrow> bool" where
  "proto_steps ids \<equiv> (proto_step ids)\<^sup>*\<^sup>*"

text \<open>What only grows in a run.\<close>

definition grows :: "proto \<Rightarrow> proto \<Rightarrow> bool" where
  "grows a a' \<longleftrightarrow> (\<forall>t G. p_hist a t = Some G \<longrightarrow> (\<exists>zs. p_hist a' t = Some (G @ zs))) \<and>
     (\<forall>k. p_term a k \<le> p_term a' k) \<and> p_acks a \<subseteq> p_acks a' \<and> p_votes a \<subseteq> p_votes a' \<and>
     (\<forall>v t C. p_cand a v t = Some C \<longrightarrow> p_cand a' v t = Some C)"

lemma grows_refl: "grows a a"
  by (simp add: grows_def)

lemma grows_hist: "grows a a' \<Longrightarrow> p_hist a t = Some G \<Longrightarrow> \<exists>zs. p_hist a' t = Some (G @ zs)"
  by (simp add: grows_def)

lemma grows_trans:
  assumes "grows a b" and "grows b c"
  shows "grows a c"
proof -
  have "\<exists>zs. p_hist c t = Some (G @ zs)" if h: "p_hist a t = Some G" for t G
  proof -
    obtain ys where "p_hist b t = Some (G @ ys)" using grows_hist [OF assms(1) h] by blast
    then obtain zs where "p_hist c t = Some ((G @ ys) @ zs)" using grows_hist [OF assms(2)] by blast
    then show ?thesis by auto
  qed
  moreover have "p_term a k \<le> p_term c k" for k
    using assms unfolding grows_def by (meson order_trans)
  ultimately show ?thesis using assms unfolding grows_def by blast
qed

lemma step_grows:
  assumes step: "proto_step ids a a'" and inv: "proto_inv ids a"
  shows "grows a a'"
proof -
  have "p_cand a' v t = Some C" if "p_cand a v t = Some C" for v t C
    using step
  proof cases
    case (stand k t0)
    have "t \<le> p_term a v" using terms_ok_simps(5) [OF _ that] inv by (simp add: proto_inv_def)
    then show ?thesis using stand that by auto
  qed (use that in simp_all)
  moreover have "p_votes a \<subseteq> p_votes a'" using step by cases auto
  ultimately show ?thesis using step_later [OF step] by (simp add: grows_def later_def)
qed

lemma steps_grow: "proto_steps ids a a' \<Longrightarrow> proto_inv ids a \<Longrightarrow> grows a a' \<and> proto_inv ids a'"
proof (induction rule: rtranclp_induct)
  case (step b c)
  then show ?case using proto_step_inv step_grows grows_trans by blast
qed (simp add: grows_refl)

lemma grows_mono:
  "grows a a' \<Longrightarrow> p_term a k \<le> p_term a' k" "grows a a' \<Longrightarrow> x \<in> p_acks a \<Longrightarrow> x \<in> p_acks a'"
  "grows a a' \<Longrightarrow> y \<in> p_votes a \<Longrightarrow> y \<in> p_votes a'" "grows a a' \<Longrightarrow> p_cand a v t = Some C \<Longrightarrow> p_cand a' v t = Some C"
  unfolding grows_def by blast+

lemma grows_holds: "grows a a' \<Longrightarrow> holds_up_to a t i L \<Longrightarrow> holds_up_to a' t i L"
  unfolding holds_up_to_def by (metis agree_append2 grows_hist)

lemma grows_own:
  assumes "grows a a'" and "own a t i"
  shows "own a' t i"
proof -
  obtain G where G: "p_hist a t = Some G" "0 < i" "i \<le> length G" "eterm (G ! (i - 1)) = t"
    using assms(2) by (auto simp: own_def)
  then obtain zs where "p_hist a' t = Some (G @ zs)" using grows_hist [OF assms(1)] by blast
  with G show ?thesis by (auto simp: own_def nth_append)
qed

lemma chosen_grows: "grows a a' \<Longrightarrow> chosen ids a t i \<Longrightarrow> chosen ids a' t i"
  unfolding chosen_def using grows_own grows_mono(2) by blast

lemma chosen_not_dead: "chosen ids a t i \<Longrightarrow> \<not> dead ids a t i"
  unfolding chosen_def dead_def using majorities.quorums_meet by blast

text \<open>Leader completeness: the leader of any later term has what was chosen.\<close>

lemma chosen_in_leader:
  assumes inv: "proto_inv ids a" and ch: "chosen ids a t i" and L: "p_hist a t' = Some L" and le: "t \<le> t'"
  shows "holds_up_to a t i L"
proof (cases "t = t'")
  case True
  then show ?thesis using ch L by (auto simp: chosen_def own_def holds_up_to_def agree_refl)
next
  case False
  then have "holds_up_to a t i L \<or> dead ids a t i"
    using inv ch L le unfolding proto_inv_def safe_def chosen_def by (metis le_neq_implies_less)
  then show ?thesis using chosen_not_dead [OF ch] by simp
qed

text \<open>Log matching: logs with an entry of the same term at one place are the same up to there.\<close>

lemma known_match:
  assumes inv: "proto_inv ids a" and L: "L \<in> known a" "j < length L" and M: "M \<in> known a" "j < length M"
    and same: "le_term (L ! j) = le_term (M ! j)"
  shows "agree (Suc j) L M"
proof -
  obtain G where "p_hist a (eterm (L ! j)) = Some G" "agree (Suc j) L G"
    using inv L unfolding proto_inv_def matching_def by blast
  moreover obtain H where "p_hist a (eterm (M ! j)) = Some H" "agree (Suc j) M H"
    using inv M unfolding proto_inv_def matching_def by blast
  ultimately show ?thesis using same by (auto simp: agree_def)
qed

text \<open>A node that committed \<open>cm\<close> entries in or before term \<open>t\<close>.\<close>

definition prefix_ok :: "string set \<Rightarrow> proto \<Rightarrow> nat \<Rightarrow> nat \<Rightarrow> log_entry list \<Rightarrow> bool" where
  "prefix_ok ids a t cm xs \<longleftrightarrow>
     cm = 0 \<or> (\<exists>t0 i0. chosen ids a t0 i0 \<and> t0 \<le> t \<and> cm \<le> i0 \<and> holds_up_to a t0 cm xs)"

lemma prefix_ok_grows: "grows a a' \<Longrightarrow> prefix_ok ids a t cm xs \<Longrightarrow> t \<le> t' \<Longrightarrow> prefix_ok ids a' t' cm xs"
  unfolding prefix_ok_def using chosen_grows grows_holds by (meson order_trans)

lemma prefix_ok_leader:
  assumes inv: "proto_inv ids a" and pre: "prefix_ok ids a t cm xs" and G: "p_hist a t = Some G"
  shows "prefix_ok ids a t cm G \<and> agree cm xs G"
proof (cases "cm = 0")
  case False
  then obtain t0 i0 where c: "chosen ids a t0 i0" "t0 \<le> t" "cm \<le> i0" "holds_up_to a t0 cm xs"
    using pre by (auto simp: prefix_ok_def)
  have "holds_up_to a t0 i0 G" by (rule chosen_in_leader [OF inv c(1) G c(2)])
  then have "holds_up_to a t0 cm G" using agree_le [OF _ c(3)] by (auto simp: holds_up_to_def)
  with c show ?thesis by (auto simp: prefix_ok_def holds_up_to_def agree_def)
qed (simp add: prefix_ok_def agree_def)

lemma prefix_ok_agree: "prefix_ok ids a t cm xs \<Longrightarrow> agree cm ys xs \<Longrightarrow> prefix_ok ids a t cm ys"
  unfolding prefix_ok_def holds_up_to_def using agree_trans by blast

text \<open>State machine safety: what two nodes have committed is the same.\<close>

lemma prefix_ok_same:
  assumes inv: "proto_inv ids a" and x: "prefix_ok ids a t cm xs" "j < cm" and y: "prefix_ok ids a t' cm' ys" "j < cm'"
  shows "j < length xs \<and> j < length ys \<and> xs ! j = ys ! j"
proof -
  have main: "j < length xs \<and> j < length ys \<and> xs ! j = ys ! j"
    if c0: "chosen ids a t0 i0" "cm \<le> i0" "holds_up_to a t0 cm xs" and c1: "chosen ids a t1 i1" "cm' \<le> i1" "holds_up_to a t1 cm' ys"
      and j: "j < cm" "j < cm'" and le: "t0 \<le> t1" for t0 i0 t1 i1 cm xs cm' ys
  proof -
    obtain G0 where G0: "p_hist a t0 = Some G0" "agree cm xs G0" using c0 by (auto simp: holds_up_to_def)
    obtain G1 where G1: "p_hist a t1 = Some G1" "agree cm' ys G1" using c1 by (auto simp: holds_up_to_def)
    have "agree i0 G1 G0" using chosen_in_leader [OF inv c0(1) G1(1) le] G0(1) by (simp add: holds_up_to_def)
    then have "G1 ! j = G0 ! j" using agree_nth j c0(2) by (meson less_le_trans)
    then have "xs ! j = ys ! j" using agree_nth [OF G0(2) j(1)] agree_nth [OF G1(2) j(2)] by simp
    with j G0(2) G1(2) show ?thesis by (simp add: agree_def)
  qed
  obtain t0 i0 where c0: "chosen ids a t0 i0" "cm \<le> i0" "holds_up_to a t0 cm xs"
    using x by (auto simp: prefix_ok_def)
  obtain t1 i1 where c1: "chosen ids a t1 i1" "cm' \<le> i1" "holds_up_to a t1 cm' ys"
    using y by (auto simp: prefix_ok_def)
  show ?thesis
    using main [OF c0 c1 x(2) y(2)] main [OF c1 c0 y(2) x(2)] by (cases "t0 \<le> t1") auto
qed

end
