(* ===== verification/Protocol_Follower.thy ===== *)
theory Protocol_Follower
  imports Follower Raft_Protocol
begin

text \<open>
  What the follower does to its log is a run of the abstract protocol: it moves to the leader's term, cuts its
  log at the first difference, copies the leader's entries one by one and acknowledges them. Whatever part of
  that it does, it keeps the entries that are committed.
\<close>

lemma not_agree_beyond: "\<not> agree (Suc (length xs)) xs ys"
  by (simp add: agree_def)

lemma first_difference:
  obtains m where "agree m xs ys" "\<not> agree (Suc m) xs ys"
proof -
  have "\<exists>m. agree m xs ys \<and> \<not> agree (Suc m) xs ys"
  proof (rule ccontr)
    assume no: "\<nexists>m. agree m xs ys \<and> \<not> agree (Suc m) xs ys"
    have "agree m xs ys" for m by (induction m) (use no in \<open>auto simp: agree_def\<close>)
    with not_agree_beyond show False by blast
  qed
  then show ?thesis using that by blast
qed

lemma agree_Suc: "agree (Suc m) xs ys \<longleftrightarrow> agree m xs ys \<and> m < length xs \<and> m < length ys \<and> xs ! m = ys ! m"
  by (auto simp: agree_def take_Suc_conv_app_nth less_Suc_eq_le Suc_le_eq)

text \<open>Where the entries of one index and term are the same, the merge keeps the log or replaces the tail.\<close>

lemma merge_segment:
  assumes xs: "agree p xs G" and es: "es = take l (drop p G)" "p + l \<le> length G" and same: "same_entries p es xs"
  shows "merge p es xs = (if agree (p + l) xs G then xs else take (p + l) G)"
proof -
  have len: "length es = l" "p \<le> length xs" using es xs by (simp_all add: agree_def)
  have tp: "take p xs @ es = take (p + l) G" using xs es by (simp add: agree_def take_add)
  have "terms_match p es xs \<longleftrightarrow> agree (p + l) xs G"
  proof
    assume m: "terms_match p es xs"
    then have le: "p + l \<le> length xs" using len by (simp add: terms_match_def)
    have "merge p es xs = xs" using merge_cases [OF len(2) same] m by simp
    then have "take (p + l) xs = take (p + l) G"
      using merge_agrees [OF len(2) same] tp len(1) by simp
    then show "agree (p + l) xs G" using le es(2) by (simp add: agree_def)
  next
    assume a: "agree (p + l) xs G"
    then have "take (p + l) xs = take (p + l) G" by (simp add: agree_def)
    then have "take l (drop p xs) = es" using es(1) by (metis add.commute take_drop)
    then show "terms_match p es xs" using a len by (simp add: terms_match_def agree_def)
  qed
  then show ?thesis using merge_cases [OF len(2) same] tp by simp
qed

lemma merge_keeps_agree:
  assumes "agree p xs G" and "es = take l (drop p G)" and "p + l \<le> length G" and "same_entries p es xs" and "agree cm xs G"
  shows "agree cm (merge p es xs) G"
proof (cases "agree (p + l) xs G")
  case False
  then have "cm \<le> p + l" using agree_le [OF assms(5)] by (meson linear)
  moreover have "cm \<le> length G" using assms(5) by (simp add: agree_def)
  moreover have "merge p es xs = take (p + l) G" using merge_segment [OF assms(1-4)] False by simp
  ultimately show ?thesis using assms(3) by (simp add: agree_def)
qed (use assms merge_segment [OF assms(1-4)] in simp)

lemma merge_has_segment:
  assumes "agree p xs G" and "es = take l (drop p G)" and "p + l \<le> length G" and "same_entries p es xs"
  shows "agree (p + l) (merge p es xs) G"
  using merge_segment [OF assms] assms(3) by (simp add: agree_def)

lemma matching_same_entries:
  assumes inv: "proto_inv ids a" and xs: "xs \<in> known a" and G: "G \<in> known a"
    and es: "es = take l (drop p G)" "p + l \<le> length G"
  shows "same_entries p es xs"
  unfolding same_entries_def
proof (intro allI impI)
  fix i assume i: "i < length es" "p + i < length xs" "le_term (xs ! (p + i)) = le_term (es ! i)"
  have "es ! i = G ! (p + i)" using i(1) es by simp
  moreover have "p + i < length G" using i(1) es by simp
  ultimately have "agree (Suc (p + i)) xs G" using known_match [OF inv xs i(2) G] i(3) by simp
  then show "xs ! (p + i) = es ! i" using \<open>es ! i = G ! (p + i)\<close> by (simp add: agree_Suc)
qed

lemma log_known [simp]: "p_log a k \<in> known a"
  by (simp add: known_def)

lemma hist_known: "p_hist a t = Some G \<Longrightarrow> G \<in> known a"
  by (auto simp: known_def ran_def)

section \<open>Runs of the abstract protocol\<close>

lemma advance_path:
  assumes "p_term a k \<le> t"
  shows "proto_steps ids a (a\<lparr>p_term := (p_term a)(k := t)\<rparr>)"
proof (cases "p_term a k = t")
  case True
  then have "a\<lparr>p_term := (p_term a)(k := t)\<rparr> = a" by (cases a) auto
  then show ?thesis by simp
next
  case False
  then show ?thesis using assms advance [of a k t ids] by (intro r_into_rtranclp) simp
qed

lemma copy_path:
  assumes "p_term a k = t" and "p_hist a t = Some G" and "agree (length (p_log a k)) (p_log a k) G"
    and "length (p_log a k) \<le> m" and "m \<le> length G"
  shows "proto_steps ids a (a\<lparr>p_log := (p_log a)(k := take m G)\<rparr>)"
  using assms(4,5)
proof (induction m rule: dec_induct)
  case base
  have "take (length (p_log a k)) G = p_log a k" using assms(3) by (simp add: agree_def)
  then have eq: "a\<lparr>p_log := (p_log a)(k := take (length (p_log a k)) G)\<rparr> = a" by (cases a) simp
  show ?case unfolding eq by simp
next
  case (step j)
  let ?b = "a\<lparr>p_log := (p_log a)(k := take j G)\<rparr>"
  have "proto_step ids ?b (?b\<lparr>p_log := (p_log ?b)(k := take (Suc (length (p_log ?b k))) G)\<rparr>)"
    by (rule copy [of _ _ t]) (use assms(1,2) step in \<open>simp_all add: agree_def\<close>)
  moreover have "length (take j G) = j" using step assms(5) by simp
  ultimately have "proto_step ids ?b (a\<lparr>p_log := (p_log a)(k := take (Suc j) G)\<rparr>)" by simp
  with step.IH show ?case by (rule rtranclp.rtrancl_into_rtrancl) (use step assms(5) in simp)
qed

lemma merge_path:
  assumes t: "p_term a k = t" "p_hist a t = Some G" and xs: "agree p (p_log a k) G"
    and es: "es = take l (drop p G)" "p + l \<le> length G" and same: "same_entries p es (p_log a k)"
  shows "proto_steps ids a (a\<lparr>p_log := (p_log a)(k := merge p es (p_log a k))\<rparr>)"
proof (cases "agree (p + l) (p_log a k) G")
  case True
  then have "a\<lparr>p_log := (p_log a)(k := merge p es (p_log a k))\<rparr> = a"
    using merge_segment [OF xs es same] by (cases a) simp
  then show ?thesis by simp
next
  case False
  let ?xs = "p_log a k"
  obtain m where m: "agree m ?xs G" "\<not> agree (Suc m) ?xs G" using first_difference by blast
  have ml: "m < p + l"
  proof (rule ccontr)
    assume "\<not> m < p + l"
    then have "agree (p + l) ?xs G" using agree_le [OF m(1)] by simp
    with False show False by simp
  qed
  then have mG: "m < length G" using es(2) by simp
  let ?b = "a\<lparr>p_log := (p_log a)(k := take m ?xs)\<rparr>"
  have s1: "proto_steps ids a ?b"
  proof (cases "m < length ?xs")
    case True
    then have "?xs ! m \<noteq> G ! m" using m mG by (simp add: agree_Suc)
    then show ?thesis using cut [OF t m(1) True mG] by (intro r_into_rtranclp)
  next
    case False
    then have eq: "?b = a" by (cases a) auto
    show ?thesis unfolding eq by simp
  qed
  have s2: "proto_steps ids ?b (?b\<lparr>p_log := (p_log ?b)(k := take (p + l) G)\<rparr>)"
    by (rule copy_path [of _ _ t]) (use t m(1) ml es(2) in \<open>auto simp: agree_def\<close>)
  have "merge p es ?xs = take (p + l) G" using merge_segment [OF xs es same] False by simp
  then show ?thesis using rtranclp_trans [OF s1 s2] by simp
qed

text \<open>An accepted request: a later term perhaps, the merge, and the acknowledgment.\<close>

lemma accept_path:
  assumes t: "p_term a k \<le> t" "p_hist a t = Some G" and xs: "agree p (p_log a k) G"
    and es: "es = take l (drop p G)" "p + l \<le> length G" and same: "same_entries p es (p_log a k)"
  shows "proto_steps ids a (a\<lparr>p_term := (p_term a)(k := t), p_log := (p_log a)(k := merge p es (p_log a k)),
    p_acks := p_acks a \<union> {(k, t, j) | j. j \<le> p + l}\<rparr>)"
proof -
  let ?b = "a\<lparr>p_term := (p_term a)(k := t)\<rparr>" and ?ys = "merge p es (p_log a k)"
  let ?c = "?b\<lparr>p_log := (p_log ?b)(k := merge p es (p_log ?b k))\<rparr>"
  have s1: "proto_steps ids a ?b" by (rule advance_path [OF t(1)])
  have s2: "proto_steps ids ?b ?c"
    by (rule merge_path [of _ _ t _ _ _ l]) (use assms in simp_all)
  have s3: "proto_step ids ?c (?c\<lparr>p_acks := p_acks ?c \<union> {(k, t, j) | j. j \<le> p + l}\<rparr>)"
    by (rule ack) (use t merge_has_segment [OF xs es same] in simp_all)
  from s1 s2 have "proto_steps ids a ?c" by (rule rtranclp_trans)
  from this s3 have "proto_steps ids a (?c\<lparr>p_acks := p_acks ?c \<union> {(k, t, j) | j. j \<le> p + l}\<rparr>)"
    by (rule rtranclp.rtrancl_into_rtrancl)
  then show ?thesis by simp
qed

end
