(* ===== verification/Replicas.thy ===== *)
theory Replicas
  imports Write_Phases Protocol_Follower Cluster
begin

text \<open>
  A cluster that replicates: nodes handle the requests that other nodes have sent, a candidate and a writing
  leader wait for answers that their peers have given, and a node may stop between two messages, or die inside
  a handler at any call to the file system, and start again from its disk. Messages may be lost, delayed, repeated
  and reordered. Disks have no faults while the process lives, counters have room, and no snapshot is taken.
\<close>

section \<open>State and steps\<close>

record replicas = cluster +
  c_sent :: "append_entries_request set"
  c_acked :: "(string \<times> append_entries_request \<times> append_entries_response) set"
  c_writing :: "string \<rightharpoonup> u64 \<times> (node_info \<times> append_entries_request) list"
  c_returned :: "log_entry set"

definition idle :: "replicas \<Rightarrow> string \<Rightarrow> bool" where
  "idle c i \<longleftrightarrow> c_waiting c i = None \<and> c_writing c i = None"

text \<open>Records for \<open>k\<close> operations, the entries among them with these data.\<close>

definition room_for :: "raft_log \<Rightarrow> nat \<Rightarrow> bytes list \<Rightarrow> bool" where
  "room_for l k ds \<longleftrightarrow> (\<exists>m. log_budget l k m \<and> (\<forall>d \<in> set ds. 17 + length d \<le> m))"

inductive replica_step :: "(bytes \<Rightarrow> u32) \<Rightarrow> replicas \<Rightarrow> replicas \<Rightarrow> bool" for crc where
  vote:
    "c_nodes c i = Some (n, s) \<Longrightarrow> idle c i \<Longrightarrow> req \<in> c_requests c \<Longrightarrow>
     handle_msg crc env net (MsgRequestVote req) (n, s) = (Ok (ReplyRequestVote resp), ns') \<Longrightarrow>
     replica_step crc c (c\<lparr>c_nodes := (c_nodes c)(i \<mapsto> ns'), c_answers := c_answers c \<union> {(i, req, resp)}\<rparr>)"
| entries:
    "c_nodes c i = Some (n, s) \<Longrightarrow> idle c i \<Longrightarrow> req \<in> c_sent c \<Longrightarrow>
     room_for (n_log n) (2 * length (ae_entries req)) (map le_data (ae_entries req)) \<Longrightarrow>
     handle_msg crc env net (MsgAppendEntries req) (n, s) = (Ok (ReplyAppendEntries resp), ns') \<Longrightarrow>
     replica_step crc c (c\<lparr>c_nodes := (c_nodes c)(i \<mapsto> ns'), c_acked := insert (i, req, resp) (c_acked c)\<rparr>)"
| beat:
    "c_nodes c i = Some (n, s) \<Longrightarrow> idle c i \<Longrightarrow> n_role n = Leader \<Longrightarrow>
     send_heartbeats env net (n, s) = (Ok (), ns') \<Longrightarrow>
     replica_step crc c (c\<lparr>c_nodes := (c_nodes c)(i \<mapsto> ns'), c_sent := insert (heartbeat n) (c_sent c)\<rparr>)"
| campaign:
    "c_nodes c i = Some (n, s) \<Longrightarrow> idle c i \<Longrightarrow> n_role n \<noteq> Leader \<Longrightarrow> n_term n < n_term n + 1 \<Longrightarrow>
     start_election_begin env (n, s) = (Ok req, ns') \<Longrightarrow>
     replica_step crc c (c\<lparr>c_nodes := (c_nodes c)(i \<mapsto> ns'), c_waiting := (c_waiting c)(i \<mapsto> req),
                           c_requests := insert req (c_requests c)\<rparr>)"
| elect:
    "c_nodes c i = Some (n, s) \<Longrightarrow> c_waiting c i = Some req \<Longrightarrow>
     list_all2 (\<lambda>p r. case r of None \<Rightarrow> True | Some resp \<Rightarrow> (ni_id p, req, resp) \<in> c_answers c) (n_peers n) rs \<Longrightarrow>
     start_election_finish env rs (n, s) = (Ok (), ns') \<Longrightarrow>
     replica_step crc c (c\<lparr>c_nodes := (c_nodes c)(i \<mapsto> ns'), c_waiting := (c_waiting c)(i := None)\<rparr>)"
| propose:
    "c_nodes c i = Some (n, s) \<Longrightarrow> idle c i \<Longrightarrow> room_for (n_log n) 1 [dat] \<Longrightarrow>
     client_write_begin crc dat (n, s) = (Ok (index, aes, snaps), ns') \<Longrightarrow>
     replica_step crc c (c\<lparr>c_nodes := (c_nodes c)(i \<mapsto> ns'), c_writing := (c_writing c)(i \<mapsto> (index, aes)),
                           c_sent := c_sent c \<union> snd ` set aes\<rparr>)"
| commit:
    "c_nodes c i = Some (n, s) \<Longrightarrow> c_writing c i = Some (index, aes) \<Longrightarrow>
     n_entries_since_snapshot n + 1 < n_snapshot_trigger n \<Longrightarrow>
     list_all2 (\<lambda>(p, req) r. case r of None \<Rightarrow> True | Some resp \<Rightarrow> (ni_id p, req, resp) \<in> c_acked c) aes rs \<Longrightarrow>
     client_write_finish crc env index (map2 (\<lambda>(p, req) r. (ni_id p, ae_answer r)) aes rs) [] (n, s) = (res, ns') \<Longrightarrow>
     replica_step crc c (c\<lparr>c_nodes := (c_nodes c)(i \<mapsto> ns'), c_writing := (c_writing c)(i := None),
                           c_returned := (if is_ok res then insert (rl_entries (n_log n) ! (unat index - 1)) (c_returned c)
                                          else c_returned c)\<rparr>)"
| restart:
    "c_nodes c i = Some (n, s) \<Longrightarrow> node_start crc env (n_config n) s = (Ok n', s') \<Longrightarrow>
     replica_step crc c (c\<lparr>c_nodes := (c_nodes c)(i \<mapsto> (n', s')), c_waiting := (c_waiting c)(i := None),
                           c_writing := (c_writing c)(i := None)\<rparr>)"

text \<open>At first the nodes hold no entries, as \<open>node_start\<close> leaves them in empty directories.\<close>

definition replicas_init :: "(bytes \<Rightarrow> u32) \<Rightarrow> replicas \<Rightarrow> bool" where
  "replicas_init crc c \<longleftrightarrow> c_waiting c = Map.empty \<and> c_requests c = {} \<and> c_answers c = {} \<and>
     c_sent c = {} \<and> c_acked c = {} \<and> c_writing c = Map.empty \<and> c_returned c = {} \<and>
     (\<forall>i n s. c_nodes c i = Some (n, s) \<longrightarrow>
        (\<exists>env cfg s0. healthy s0 \<and> member_ok (dom (c_nodes c)) i cfg \<and> node_start crc env cfg s0 = (Ok n, s)) \<and>
        node_rep crc n s \<and> rl_entries (n_log n) = [] \<and> rl_snapshot_index (n_log n) = 0 \<and> rl_snapshot_term (n_log n) = 0 \<and>
        n_snapshot n = None)"

section \<open>Deaths\<close>

text \<open>What a node may be doing when its process dies: handling a message, sending heartbeats, standing for
  election, counting votes, and the two halves of a write.\<close>

datatype stage =
    Voting request_vote_request
  | Merging append_entries_request
  | Beating
  | Standing
  | Counting "request_vote_response option list"
  | Writing bytes
  | Finishing u64 "(string \<times> append_entries_response) list"

fun attempt :: "(bytes \<Rightarrow> u32) \<Rightarrow> env \<Rightarrow> network \<Rightarrow> stage \<Rightarrow> (raft_node, unit, raft_error) meth" where
  "attempt crc env net (Voting req) ns = no_reply (on_request_vote env req ns)"
| "attempt crc env net (Merging req) ns = no_reply (on_append_entries crc env req ns)"
| "attempt crc env net Beating ns = send_heartbeats env net ns"
| "attempt crc env net Standing ns = no_reply (start_election_begin env ns)"
| "attempt crc env net (Counting rs) ns = start_election_finish env rs ns"
| "attempt crc env net (Writing dat) ns = no_reply (client_write_begin crc dat ns)"
| "attempt crc env net (Finishing index acks) ns = no_reply (client_write_finish crc env index acks [] ns)"

fun stage_ok :: "replicas \<Rightarrow> string \<Rightarrow> raft_node \<Rightarrow> stage \<Rightarrow> bool" where
  "stage_ok c i n (Voting req) \<longleftrightarrow> idle c i \<and> req \<in> c_requests c"
| "stage_ok c i n (Merging req) \<longleftrightarrow> idle c i \<and> req \<in> c_sent c \<and>
     room_for (n_log n) (2 * length (ae_entries req)) (map le_data (ae_entries req))"
| "stage_ok c i n Beating \<longleftrightarrow> idle c i \<and> n_role n = Leader"
| "stage_ok c i n Standing \<longleftrightarrow> idle c i \<and> n_role n \<noteq> Leader \<and> n_term n < n_term n + 1"
| "stage_ok c i n (Counting rs) \<longleftrightarrow> c_waiting c i \<noteq> None"
| "stage_ok c i n (Writing dat) \<longleftrightarrow> idle c i \<and> room_for (n_log n) 1 [dat]"
| "stage_ok c i n (Finishing index acks) \<longleftrightarrow> c_writing c i \<noteq> None \<and> n_entries_since_snapshot n + 1 < n_snapshot_trigger n"

text \<open>The process dies at some call: the calls before it do what they document, that call may write part of its
  bytes, and no later call has an effect. There are more refusals than calls, so that the disk at the end of the
  run is the disk at the moment of death.\<close>

definition dies :: "fault list \<Rightarrow> fs \<Rightarrow> bool" where
  "dies fl s \<longleftrightarrow> (\<exists>k f m. fl = replicate k Pass @ f # replicate m Refuse) \<and> faults s \<noteq> []"

text \<open>A node dies and starts again; messages it had not sent are never sent, a write it was doing is not answered. Where
  the start fails, because of a torn record, the node stays silent.\<close>

inductive crash_step :: "(bytes \<Rightarrow> u32) \<Rightarrow> replicas \<Rightarrow> replicas \<Rightarrow> bool" for crc where
  crash:
    "c_nodes c i = Some (n, s) \<Longrightarrow> stage_ok c i n st \<Longrightarrow>
     attempt crc env net st (n, s\<lparr>faults := fl\<rparr>) = (r, (n1, s1)) \<Longrightarrow> dies fl s1 \<Longrightarrow>
     node_start crc env' (n_config n) (s1\<lparr>faults := []\<rparr>) = (Ok n', s') \<Longrightarrow>
     crash_step crc c (c\<lparr>c_nodes := (c_nodes c)(i \<mapsto> (n', s')), c_waiting := (c_waiting c)(i := None),
                         c_writing := (c_writing c)(i := None)\<rparr>)"

section \<open>Runs\<close>

inductive replicas_reach :: "(bytes \<Rightarrow> u32) \<Rightarrow> replicas \<Rightarrow> replicas \<Rightarrow> bool" for crc where
  start: "replicas_reach crc c c"
| step: "replicas_reach crc c c' \<Longrightarrow> replica_step crc c' c'' \<Longrightarrow> replicas_reach crc c c''"
| crash: "replicas_reach crc c c' \<Longrightarrow> crash_step crc c' c'' \<Longrightarrow> replicas_reach crc c c''"

text \<open>Runs in which processes stop between two events only.\<close>

inductive orderly_reach :: "(bytes \<Rightarrow> u32) \<Rightarrow> replicas \<Rightarrow> replicas \<Rightarrow> bool" for crc where
  start: "orderly_reach crc c c"
| step: "orderly_reach crc c c' \<Longrightarrow> replica_step crc c' c'' \<Longrightarrow> orderly_reach crc c c''"

lemma orderly_replicas: "orderly_reach crc c c' \<Longrightarrow> replicas_reach crc c c'"
  by (induction rule: orderly_reach.induct) (auto intro: replicas_reach.intros)

section \<open>It is a cluster\<close>

lemma votes_of_truncate [simp]: "votes_of (cluster.truncate c) = votes_of c"
  by (simp add: votes_of_def cluster.truncate_def)

lemma truncate_simps [simp]:
  "c_nodes (cluster.truncate c) = c_nodes c" "c_waiting (cluster.truncate c) = c_waiting c"
  "c_requests (cluster.truncate c) = c_requests c" "c_answers (cluster.truncate c) = c_answers c"
  by (simp_all add: cluster.truncate_def)

lemma cluster_inv_truncate [simp]: "cluster_inv (cluster.truncate c) = cluster_inv c"
  by (simp add: cluster_inv_def node_at_def)

lemma inv_evolves:
  assumes inv: "cluster_inv c" and at: "c_nodes c i = Some (n, s)" and nodes: "c_nodes c' = (c_nodes c)(i \<mapsto> (n', s'))"
    and ev: "evolves n s (n', s')" and same: "c_requests c' = c_requests c" "c_answers c' = c_answers c"
    and wait: "c_waiting c' = (c_waiting c)(i := None)"
  shows "cluster_inv c'"
proof -
  have na: "node_at c i (n, s)" using inv at by (simp add: cluster_inv_def)
  then have sy: "synced n s" by (simp add: node_at_def)
  have vo: "votes_of c' = votes_of c" using same by (simp add: votes_of_def)
  show ?thesis
    by (rule inv_update [OF inv at nodes])
      (use same wait evolves_parts [OF ev sy] vo leader_stays [OF na ev, of c'] in auto)
qed

lemma idle_waiting: "idle c i \<Longrightarrow> (c_waiting c)(i := None) = c_waiting c"
  by (auto simp: idle_def)

lemma client_write_begin_evolves:
  "evolves n0 s0 ns \<Longrightarrow> evolving n0 s0 (client_write_begin crc dat ns)"
  by (cases ns)
    (auto simp: client_write_begin_def intro!: evolving_and_then on_log_evolves steps evolving_rules split: res.split)

lemma client_write_finish_evolves:
  "evolves n0 s0 ns \<Longrightarrow> evolving n0 s0 (client_write_finish crc env index rs ss ns)"
  by (cases ns)
    (auto simp: client_write_finish_def Let_def evolves_fields intro!: evolving_and_then outcome_ignore evolving_rules)


lemma request_candidate:
  assumes inv: "cluster_inv c" and req: "req \<in> c_requests c"
  shows "name_ok (rv_candidate_id req)"
proof -
  have "(rv_candidate_id req, rv_term req, rv_candidate_id req) \<in> votes_of c" using req by (auto simp: votes_of_def)
  then obtain n s where "c_nodes c (rv_candidate_id req) = Some (n, s)" using inv unfolding cluster_inv_def by fast
  then have "node_at c (rv_candidate_id req) (n, s)" using inv by (simp add: cluster_inv_def)
  then show ?thesis by (auto simp: node_at_def member_ok_def config_ok_def)
qed

lemma replica_cluster_step:
  assumes step: "cluster_step crc (cluster.truncate c) (cluster.truncate c')" and inv: "cluster_inv c"
  shows "cluster_inv c'"
  using Cluster.step_inv [OF step] inv by simp

lemma node_evolves_refl: "cluster_inv c \<Longrightarrow> c_nodes c i = Some (n, s) \<Longrightarrow> evolves n s (n, s)"
  by (auto simp: cluster_inv_def node_at_def intro: evolves_refl)

lemma replica_step_inv:
  assumes step: "replica_step crc c c'" and inv: "cluster_inv c" and rep: "\<And>i n s. c_nodes c i = Some (n, s) \<Longrightarrow> node_rep crc n s"
    and once: "\<And>i. c_writing c i \<noteq> None \<Longrightarrow> c_waiting c i = None"
  shows "cluster_inv c'"
  using step
proof cases
  case (vote i n s req env net resp ns')
  then have ok: "msg_ok (MsgRequestVote req)" using request_candidate [OF inv] by (simp add: msg_ok_def)
  show ?thesis
    by (rule replica_cluster_step [OF _ inv, of crc])
      (use message [where reply = "ReplyRequestVote resp", of "cluster.truncate c" i n s, OF _ _ ok] vote in \<open>simp add: idle_def cluster.truncate_def\<close>)
next
  case (entries i n s req env net resp ns')
  have ok: "msg_ok (MsgAppendEntries req)" by (simp add: msg_ok_def)
  show ?thesis
    by (rule replica_cluster_step [OF _ inv, of crc])
      (use message [where reply = "ReplyAppendEntries resp", of "cluster.truncate c" i n s, OF _ _ ok] entries in \<open>simp add: idle_def cluster.truncate_def\<close>)
next
  case (beat i n s env net ns')
  show ?thesis
    by (rule replica_cluster_step [OF _ inv, of crc])
      (use heartbeat [of "cluster.truncate c" i n s] beat in \<open>simp add: idle_def cluster.truncate_def\<close>)
next
  case (campaign i n s env req ns')
  show ?thesis
    by (rule replica_cluster_step [OF _ inv, of crc])
      (use cluster_step.campaign [of "cluster.truncate c" i n s] campaign in \<open>simp add: idle_def cluster.truncate_def\<close>)
next
  case (elect i n s req rs env ns')
  show ?thesis
    by (rule replica_cluster_step [OF _ inv, of crc])
      (use cluster_step.elect [of "cluster.truncate c" i n s] elect in \<open>simp add: cluster.truncate_def\<close>)
next
  case (propose i n s dat index aes snaps ns')
  then obtain n' s' where ns': "ns' = (n', s')" by fastforce
  show ?thesis
    by (rule inv_evolves [OF inv propose(2), of _ n' s'])
      (use propose ns' client_write_begin_evolves [OF node_evolves_refl [OF inv propose(2)], of crc dat] in
        \<open>auto simp: idle_waiting outcome_def\<close>)
next
  case (commit i n s index aes rs env res ns')
  then obtain n' s' where ns': "ns' = (n', s')" by fastforce
  have "(c_waiting c)(i := None) = c_waiting c" using once [of i] commit(3) by auto
  then show ?thesis
    by (intro inv_evolves [OF inv commit(2), of _ n' s'])
      (use commit ns' client_write_finish_evolves [OF node_evolves_refl [OF inv commit(2)],
          of crc env index "map2 (\<lambda>(p, req) r. (ni_id p, ae_answer r)) aes rs" "[]"] in
        \<open>auto simp: outcome_def\<close>)
next
  case (restart i n s env n' s')
  have "n' = restarted env n \<and> s' = s" using restart(3) node_start_rep [OF rep [OF restart(2)], of env] by simp
  moreover have "evolves n s (restarted env n, s)"
    by (rule evolves_cong [OF node_evolves_refl [OF inv restart(2)]]) (simp_all add: restarted_def same_node_def)
  ultimately show ?thesis
    by (intro inv_evolves [OF inv restart(2), of _ n' s']) (use restart in auto)
qed

section \<open>Deaths keep the invariant\<close>

lemma no_reply_evolves: "evolving n0 s0 m \<Longrightarrow> evolving n0 s0 (no_reply m)"
  unfolding no_reply_def by (rule evolving_and_then) simp_all

lemma attempt_evolves:
  assumes ni: "node_inv n s" and inv: "cluster_inv c" and ok: "stage_ok c i n st"
    and run: "attempt crc env net st (n, s) = (r, (n1, s1))"
  shows "same_node n n1 \<and> disk_ballot (n_data_dir n) s \<le> disk_ballot (n_data_dir n) s1"
proof -
  have ev: "evolves n s (n, s)" using ni by (rule evolves_refl)
  have done': "evolves n s (n1, s1) \<Longrightarrow> ?thesis"
    by (auto simp: evolves_def same_node_def)
  show ?thesis
  proof (cases st)
    case (Voting req)
    have "name_ok (rv_candidate_id req)" using request_candidate [OF inv] ok Voting by simp
    then have "evolving n s (attempt crc env net st (n, s))"
      using on_request_vote_evolves [OF ev, of req env] Voting by (simp add: no_reply_evolves)
    then show ?thesis using run done' by (simp add: outcome_def)
  next
    case (Merging req)
    have "evolving n s (attempt crc env net st (n, s))"
      using on_append_entries_evolves [OF ev, of crc env req] Merging by (simp add: no_reply_evolves)
    then show ?thesis using run done' by (simp add: outcome_def)
  next
    case Beating
    then show ?thesis using send_heartbeats_evolves [OF ev, of env net] run done' by (simp add: outcome_def)
  next
    case Standing
    then have "n_role n \<noteq> Leader" "n_term n < n_term n + 1" using ok by simp_all
    from start_election_begin_run [OF ev this, of env] obtain q n2 s2 where
      "start_election_begin env (n, s) = (Ok q, (n2, s2))" "evolves n s (n2, s2)" by blast
    then show ?thesis using run Standing done' by (simp add: no_reply_def)
  next
    case (Counting rs)
    then show ?thesis using start_election_finish_run [OF ev, of env rs r n1 s1] run done' by auto
  next
    case (Writing dat)
    have "evolving n s (attempt crc env net st (n, s))"
      using client_write_begin_evolves [OF ev, of crc dat] Writing by (simp add: no_reply_evolves)
    then show ?thesis using run done' by (simp add: outcome_def)
  next
    case (Finishing index acks)
    have "evolving n s (attempt crc env net st (n, s))"
      using client_write_finish_evolves [OF ev, of crc env index acks "[]"] Finishing by (simp add: no_reply_evolves)
    then show ?thesis using run done' by (simp add: outcome_def)
  qed
qed

lemma crash_step_inv:
  assumes step: "crash_step crc c c'" and inv: "cluster_inv c"
  shows "cluster_inv c'"
  using step
proof cases
  case (crash i n s st env net fl r n1 s1 env' n' s')
  have "node_at c i (n, s)" using inv crash by (simp add: cluster_inv_def)
  then have ni: "node_inv n (s\<lparr>faults := fl\<rparr>)" by (simp add: node_at_def node_inv_def)
  have "same_node n n1 \<and> disk_ballot (n_data_dir n) s \<le> disk_ballot (n_data_dir n) s1"
    using attempt_evolves [OF ni inv crash(3,4)] by simp
  then show ?thesis
    by (intro started_inv [OF inv crash(2) _ _ crash(6)]) (use crash in auto)
qed

end
