(* ===== verification/Replicas_Simulate.thy ===== *)
theory Replicas_Simulate
  imports Replicas
begin

text \<open>
  The cluster of \<open>Replicas\<close> simulates the abstract protocol: every step is matched by a run of the protocol,
  in which the logs and terms of the nodes are those in memory and on disk.
\<close>

section \<open>The relation\<close>

abbreviation members :: "'z cluster_scheme \<Rightarrow> string set" where
  "members c \<equiv> dom (c_nodes c)"

abbreviation n_entries :: "raft_node \<Rightarrow> log_entry list" where
  "n_entries n \<equiv> rl_entries (n_log n)"

text \<open>A request is a piece of the log of its term's leader, or one that no log matches: the leader's guess of
  the next index was past its own log.\<close>

definition piece :: "append_entries_request \<Rightarrow> log_entry list \<Rightarrow> bool" where
  "piece req G \<longleftrightarrow>
     (let p = unat (ae_prev_log_index req); es = ae_entries req in
      p + length es \<le> length G \<and> es = take (length es) (drop p G) \<and> numbered_from (ae_prev_log_index req) es \<and>
      (0 < p \<longrightarrow> ae_prev_log_term req = le_term (G ! (p - 1))) \<and> unat (ae_leader_commit req) \<le> p + length es)"

definition unmatched :: "append_entries_request \<Rightarrow> bool" where
  "unmatched req \<longleftrightarrow> 0 < ae_prev_log_index req \<and> ae_prev_log_term req = 0"

definition sent_ok :: "string set \<Rightarrow> proto \<Rightarrow> append_entries_request \<Rightarrow> bool" where
  "sent_ok ids a req \<longleftrightarrow>
     (\<exists>G. p_hist a (unat (ae_term req)) = Some G \<and> (piece req G \<or> unmatched req) \<and>
        prefix_ok ids a (unat (ae_term req)) (unat (ae_leader_commit req)) G)"

definition acked_ok :: "proto \<Rightarrow> string \<times> append_entries_request \<times> append_entries_response \<Rightarrow> bool" where
  "acked_ok a = (\<lambda>(k, req, resp). aer_success resp \<longrightarrow> \<not> unmatched req \<and>
     (k, unat (ae_term req), unat (ae_prev_log_index req) + length (ae_entries req)) \<in> p_acks a)"

definition answer_ok :: "proto \<Rightarrow> string \<times> request_vote_request \<times> request_vote_response \<Rightarrow> bool" where
  "answer_ok a = (\<lambda>(k, req, resp). rvr_vote_granted resp \<longrightarrow>
     (\<exists>V. (k, unat (rv_term req), rv_candidate_id req, V) \<in> p_votes a))"

definition request_ok :: "proto \<Rightarrow> request_vote_request \<Rightarrow> bool" where
  "request_ok a req \<longleftrightarrow>
     (\<exists>C V. p_cand a (rv_candidate_id req) (unat (rv_term req)) = Some C \<and>
        unat (rv_last_log_index req) = length C \<and> unat (rv_last_log_term req) = last_eterm C \<and>
        (rv_candidate_id req, unat (rv_term req), rv_candidate_id req, V) \<in> p_votes a)"

definition returned_ok :: "string set \<Rightarrow> proto \<Rightarrow> log_entry \<Rightarrow> bool" where
  "returned_ok ids a e \<longleftrightarrow>
     (\<exists>i G. chosen ids a (eterm e) i \<and> p_hist a (eterm e) = Some G \<and> i \<le> length G \<and> G ! (i - 1) = e \<and> unat (le_index e) = i)"

text \<open>The leader of a term won it, and does not wait for votes in it any more.\<close>

definition winner_ok :: "proto \<Rightarrow> 'z cluster_scheme \<Rightarrow> u64 \<Rightarrow> bool" where
  "winner_ok a c t \<longleftrightarrow>
     (\<exists>j. majorities.wins (members c) (votes_of c) t j \<and> p_cand a j (unat t) \<noteq> None \<and>
        (\<forall>req. c_waiting c j = Some req \<longrightarrow> rv_term req \<noteq> t))"

definition stands :: "proto \<Rightarrow> string \<Rightarrow> raft_node \<Rightarrow> request_vote_request option \<Rightarrow> bool" where
  "stands a i n w \<longleftrightarrow>
     (case w of None \<Rightarrow> True
      | Some req \<Rightarrow> n_role n \<noteq> Leader \<and> p_cand a i (unat (rv_term req)) = Some (n_entries n))"

definition writes :: "proto \<Rightarrow> append_entries_request set \<Rightarrow> string \<Rightarrow> raft_node \<Rightarrow>
    (u64 \<times> (node_info \<times> append_entries_request) list) option \<Rightarrow> bool" where
  "writes a sent i n w \<longleftrightarrow>
     (case w of None \<Rightarrow> True
      | Some (index, aes) \<Rightarrow>
          n_role n = Leader \<and> unat index = length (n_entries n) \<and> own a (unat (n_term n)) (unat index) \<and>
          (i, unat (n_term n), unat index) \<in> p_acks a \<and> map fst aes = n_peers n \<and>
          (\<forall>(p, req) \<in> set aes. ae_term req = n_term n \<and>
             (unmatched req \<or> unat (ae_prev_log_index req) + length (ae_entries req) = unat index)))"

definition log_sim :: "(bytes \<Rightarrow> u32) \<Rightarrow> string set \<Rightarrow> proto \<Rightarrow> string \<Rightarrow> raft_node \<Rightarrow> fs \<Rightarrow> bool" where
  "log_sim crc ids a i n s \<longleftrightarrow>
     node_rep crc n s \<and> rl_snapshot_index (n_log n) = 0 \<and> rl_snapshot_term (n_log n) = 0 \<and> n_snapshot n = None \<and>
     p_term a i = unat (n_term n) \<and> p_log a i = n_entries n \<and>
     prefix_ok ids a (unat (n_term n)) (unat (n_commit_index n)) (n_entries n)"

definition node_sim :: "(bytes \<Rightarrow> u32) \<Rightarrow> proto \<Rightarrow> replicas \<Rightarrow> string \<Rightarrow> raft_node \<times> fs \<Rightarrow> bool" where
  "node_sim crc a c i = (\<lambda>(n, s). log_sim crc (members c) a i n s \<and>
     (n_role n = Leader \<longrightarrow> p_hist a (unat (n_term n)) = Some (n_entries n)) \<and>
     stands a i n (c_waiting c i) \<and> writes a (c_sent c) i n (c_writing c i) \<and>
     (c_writing c i \<noteq> None \<longrightarrow> c_waiting c i = None))"

definition sim :: "(bytes \<Rightarrow> u32) \<Rightarrow> proto \<Rightarrow> replicas \<Rightarrow> bool" where
  "sim crc a c \<longleftrightarrow> proto_inv (members c) a \<and> cluster_inv c \<and>
     (\<forall>i. if i \<in> members c then node_sim crc a c i (the (c_nodes c i)) else c_waiting c i = None \<and> c_writing c i = None) \<and>
     (\<forall>t. p_hist a (unat t) \<noteq> None \<longrightarrow> winner_ok a c t) \<and>
     (\<forall>x \<in> c_requests c. request_ok a x) \<and> (\<forall>x \<in> c_answers c. answer_ok a x) \<and>
     (\<forall>x \<in> c_sent c. sent_ok (members c) a x) \<and> (\<forall>x \<in> c_acked c. acked_ok a x) \<and>
     (\<forall>x \<in> c_returned c. returned_ok (members c) a x)"

lemma simD:
  assumes "sim crc a c"
  shows "proto_inv (members c) a" and "cluster_inv c" and "c_nodes c i = Some ns \<Longrightarrow> node_sim crc a c i ns"
    and "p_hist a (unat t) \<noteq> None \<Longrightarrow> winner_ok a c t" and "x \<in> c_requests c \<Longrightarrow> request_ok a x"
    and "y \<in> c_answers c \<Longrightarrow> answer_ok a y" and "r \<in> c_sent c \<Longrightarrow> sent_ok (members c) a r"
    and "z \<in> c_acked c \<Longrightarrow> acked_ok a z" and "e \<in> c_returned c \<Longrightarrow> returned_ok (members c) a e"
    and "c_writing c i \<noteq> None \<Longrightarrow> c_waiting c i = None"
proof -
  have all: "if i \<in> members c then node_sim crc a c i (the (c_nodes c i)) else c_waiting c i = None \<and> c_writing c i = None" for i
    using assms by (simp add: sim_def)
  show "c_nodes c i = Some ns \<Longrightarrow> node_sim crc a c i ns" using all [of i] by (simp add: domIff)
  show "c_writing c i \<noteq> None \<Longrightarrow> c_waiting c i = None"
    using all [of i] by (auto simp: node_sim_def split: if_splits)
qed (use assms in \<open>auto simp: sim_def\<close>)

section \<open>What stays true as the protocol goes on\<close>

lemma piece_append: "piece req G \<Longrightarrow> piece req (G @ zs)"
  by (auto simp: piece_def Let_def nth_append)

lemma sent_ok_grows:
  assumes g: "grows a a'" and ok: "sent_ok ids a req"
  shows "sent_ok ids a' req"
proof -
  obtain G where G: "p_hist a (unat (ae_term req)) = Some G" "piece req G \<or> unmatched req"
    "prefix_ok ids a (unat (ae_term req)) (unat (ae_leader_commit req)) G"
    using ok by (auto simp: sent_ok_def)
  obtain zs where zs: "p_hist a' (unat (ae_term req)) = Some (G @ zs)" using grows_hist [OF g G(1)] by blast
  have "prefix_ok ids a' (unat (ae_term req)) (unat (ae_leader_commit req)) G" by (rule prefix_ok_grows [OF g G(3)]) simp
  then have "prefix_ok ids a' (unat (ae_term req)) (unat (ae_leader_commit req)) (G @ zs)"
    by (auto simp: prefix_ok_def holds_up_to_def intro: agree_append)
  then show ?thesis using zs G(2) piece_append by (auto simp: sent_ok_def)
qed

lemma sets_grow:
  assumes "grows a a'"
  shows "acked_ok a y \<Longrightarrow> acked_ok a' y" and "answer_ok a z \<Longrightarrow> answer_ok a' z" and "request_ok a x \<Longrightarrow> request_ok a' x"
    and "writes a sent i n w \<Longrightarrow> writes a' sent' i n w" and "stands a i n u \<Longrightarrow> stands a' i n u"
proof -
  show "acked_ok a y \<Longrightarrow> acked_ok a' y" using grows_mono(2) [OF assms] by (auto simp: acked_ok_def)
  show "answer_ok a z \<Longrightarrow> answer_ok a' z" using grows_mono(3) [OF assms] by (fastforce simp: answer_ok_def)
  show "request_ok a x \<Longrightarrow> request_ok a' x" using grows_mono(3,4) [OF assms] by (auto simp: request_ok_def) blast
  show "writes a sent i n w \<Longrightarrow> writes a' sent' i n w"
    using grows_mono(2) [OF assms] grows_own [OF assms] by (auto simp: writes_def split: option.splits)
  show "stands a i n u \<Longrightarrow> stands a' i n u" using grows_mono(4) [OF assms] by (auto simp: stands_def split: option.splits)
qed

lemma returned_ok_grows:
  assumes g: "grows a a'" and ok: "returned_ok ids a e"
  shows "returned_ok ids a' e"
proof -
  obtain i G where G: "chosen ids a (eterm e) i" "p_hist a (eterm e) = Some G" "i \<le> length G" "G ! (i - 1) = e" "unat (le_index e) = i"
    using ok by (auto simp: returned_ok_def)
  then have "0 < i" by (auto simp: chosen_def own_def)
  obtain zs where "p_hist a' (eterm e) = Some (G @ zs)" using grows_hist [OF g G(2)] by blast
  then show ?thesis
    using G chosen_grows [OF g G(1)] \<open>0 < i\<close> by (auto simp: returned_ok_def nth_append)
qed


lemma log_sim_grows:
  assumes "grows a a'" and "p_term a' i = p_term a i" and "p_log a' i = p_log a i" and "log_sim crc ids a i n s"
  shows "log_sim crc ids a' i n s"
  using assms prefix_ok_grows [OF assms(1), of ids "unat (n_term n)"] by (simp add: log_sim_def)

lemma leaders_differ:
  assumes inv: "cluster_inv c" and i: "c_nodes c i = Some (n, s)" "n_role n = Leader"
    and j: "c_nodes c j = Some (m, u)" "n_role m = Leader" and ne: "i \<noteq> j"
  shows "n_term n \<noteq> n_term m"
proof
  assume t: "n_term n = n_term m"
  have "majorities.wins (members c) (votes_of c) (n_term n) i" "majorities.wins (members c) (votes_of c) (n_term m) j"
    using inv i j by (auto simp: cluster_inv_def node_at_def)
  moreover have "majorities.one_vote (votes_of c)" using inv by (simp add: cluster_inv_def)
  ultimately show False using t ne majorities.one_winner by metis
qed

section \<open>One node moves\<close>

lemma sim_update:
  assumes S: "sim crc a c" and at: "c_nodes c i = Some (n, s)" and nodes: "c_nodes c' = (c_nodes c)(i \<mapsto> (n', s'))"
    and inv': "cluster_inv c'" and run: "proto_steps (members c) a a'"
    and others: "\<And>j. j \<noteq> i \<Longrightarrow> p_term a' j = p_term a j \<and> p_log a' j = p_log a j"
    and hist: "\<And>t G. p_hist a t = Some G \<Longrightarrow> p_hist a' t = Some G \<or> t = unat (n_term n) \<and> n_role n = Leader"
    and busy: "c_waiting c' = (c_waiting c)(i := w)" "c_writing c' = (c_writing c)(i := v)" "w = None \<or> v = None"
    and fresh: "\<And>req. w = Some req \<Longrightarrow> p_cand a i (unat (rv_term req)) = None"
    and log: "log_sim crc (members c) a' i n' s'"
    and lead: "n_role n' = Leader \<Longrightarrow> p_hist a' (unat (n_term n')) = Some (n_entries n')"
    and new: "stands a' i n' w" "writes a' (c_sent c') i n' v"
    and won: "\<And>t. p_hist a' (unat t) \<noteq> None \<Longrightarrow> p_hist a (unat t) = None \<Longrightarrow> winner_ok a' c' t"
    and sets: "\<And>x. x \<in> c_requests c' \<Longrightarrow> x \<in> c_requests c \<or> request_ok a' x"
      "\<And>x. x \<in> c_answers c' \<Longrightarrow> x \<in> c_answers c \<or> answer_ok a' x"
      "\<And>x. x \<in> c_sent c' \<Longrightarrow> x \<in> c_sent c \<or> sent_ok (members c) a' x"
      "\<And>x. x \<in> c_acked c' \<Longrightarrow> x \<in> c_acked c \<or> acked_ok a' x"
      "\<And>x. x \<in> c_returned c' \<Longrightarrow> x \<in> c_returned c \<or> returned_ok (members c) a' x"
    and mono: "votes_of c \<subseteq> votes_of c'"
  shows "sim crc a' c'"
proof -
  have g: "grows a a'" and inv: "proto_inv (members c) a'"
    using steps_grow [OF run simD(1) [OF S]] by simp_all
  have dom: "members c' = members c" using nodes at by auto
  have one: "c_writing c' j \<noteq> None \<Longrightarrow> c_waiting c' j = None" for j
    using busy simD(10) [OF S, of j] by (auto split: if_splits)
  have "node_sim crc a' c' j (m, u)" if j: "c_nodes c' j = Some (m, u)" for j m u
  proof (cases "j = i")
    case True
    then have "m = n'" "u = s'" using j nodes by simp_all
    then show ?thesis using True log lead new busy one [of i] dom by (simp add: node_sim_def)
  next
    case False
    then have cj: "c_nodes c j = Some (m, u)" using j nodes by simp
    have ns: "node_sim crc a c j (m, u)" using simD(3) [OF S cj] .
    have "p_hist a' (unat (n_term m)) = Some (n_entries m)" if l: "n_role m = Leader"
    proof -
      have "p_hist a (unat (n_term m)) = Some (n_entries m)" using ns l by (simp add: node_sim_def)
      moreover have "\<not> (unat (n_term m) = unat (n_term n) \<and> n_role n = Leader)"
        using leaders_differ [OF simD(2) [OF S] at _ cj l] False by (auto simp: u64_eq_iff)
      ultimately show ?thesis using hist by blast
    qed
    then show ?thesis
      using ns log_sim_grows [OF g] others [OF False] sets_grow(4,5) [OF g] busy False dom
      by (auto simp: node_sim_def)
  qed
  then have nodes': "if j \<in> members c' then node_sim crc a' c' j (the (c_nodes c' j)) else c_waiting c' j = None \<and> c_writing c' j = None" for j
  proof (cases "c_nodes c' j")
    case None
    then have "j \<noteq> i" "c_nodes c j = None" using nodes by (auto split: if_splits)
    moreover have "if j \<in> members c then node_sim crc a c j (the (c_nodes c j)) else c_waiting c j = None \<and> c_writing c j = None"
      using S by (simp add: sim_def)
    ultimately show ?thesis using None busy by (simp add: domIff)
  qed (auto simp: domIff)
  moreover have "winner_ok a' c' t" if h: "p_hist a' (unat t) \<noteq> None" for t
  proof (cases "p_hist a (unat t)")
    case None
    then show ?thesis using won h by blast
  next
    case (Some G)
    then obtain j where j: "majorities.wins (members c) (votes_of c) t j" "p_cand a j (unat t) \<noteq> None"
      "\<forall>req. c_waiting c j = Some req \<longrightarrow> rv_term req \<noteq> t"
      using simD(4) [OF S, of t] by (auto simp: winner_ok_def)
    have "majorities.wins (members c') (votes_of c') t j" using majorities.wins_mono [OF j(1) mono] dom by simp
    moreover have "p_cand a' j (unat t) \<noteq> None" using j(2) grows_mono(4) [OF g] by fastforce
    moreover have "\<forall>req. c_waiting c' j = Some req \<longrightarrow> rv_term req \<noteq> t"
      using j(2,3) busy(1) fresh by (auto split: if_splits)
    ultimately show ?thesis by (auto simp: winner_ok_def)
  qed
  moreover have "\<forall>x \<in> c_requests c'. request_ok a' x" "\<forall>x \<in> c_answers c'. answer_ok a' x"
    "\<forall>x \<in> c_sent c'. sent_ok (members c') a' x" "\<forall>x \<in> c_acked c'. acked_ok a' x"
    "\<forall>x \<in> c_returned c'. returned_ok (members c') a' x"
    using sets simD(5-9) [OF S] sets_grow(1-3) [OF g] sent_ok_grows [OF g] returned_ok_grows [OF g] unfolding dom by blast+
  ultimately show ?thesis using inv inv' unfolding sim_def dom by blast
qed


section \<open>Listening, voting, standing, winning\<close>

lemma log_sim_facts:
  assumes "log_sim crc ids a i n s"
  shows "node_rep crc n s" and "log_wf (n_log n)" and "unat (last_index (n_log n)) = length (n_entries n)"
    and "unat (last_term (n_log n)) = last_eterm (n_entries n)"
  using assms node_rep_log [of crc n s] log_wf_last_index [of "n_log n"]
  by (auto simp: log_sim_def last_term_def last_eterm_def)

lemma log_sim_calm:
  assumes "log_sim crc ids a i n s" and "calm crc n (n', s')"
  defines "a' \<equiv> a\<lparr>p_term := (p_term a)(i := unat (n_term n'))\<rparr>"
  shows "proto_steps ids a a' \<and> log_sim crc ids a' i n' s'"
proof -
  have t: "p_term a i \<le> unat (n_term n')" using assms(1,2) by (simp add: log_sim_def calm_def u64_order)
  have "prefix_ok ids a (unat (n_term n)) (unat (n_commit_index n)) (n_entries n)"
    using assms(1) by (simp add: log_sim_def)
  then have "prefix_ok ids a' (unat (n_term n')) (unat (n_commit_index n)) (n_entries n)"
    by (rule prefix_ok_grows [rotated]) (use t assms in \<open>auto simp: grows_def log_sim_def\<close>)
  then show ?thesis
    using assms advance_path [OF t, of ids] by (simp add: log_sim_def calm_def)
qed

text \<open>A node that at most steps down; the requests it may have sent before are pieces of its log.\<close>

lemma sim_calm:
  assumes S: "sim crc a c" and at: "c_nodes c i = Some (n, s)" and nodes: "c_nodes c' = (c_nodes c)(i \<mapsto> (n', s'))"
    and inv': "cluster_inv c'" and calm: "calm crc n (n', s')"
    and busy: "c_waiting c' = (c_waiting c)(i := None)" "c_writing c' = (c_writing c)(i := None)"
    and sets: "c_requests c' = c_requests c" "c_answers c' = c_answers c" "c_acked c' = c_acked c" "c_returned c' = c_returned c"
    and sent: "\<And>x. x \<in> c_sent c' \<Longrightarrow> x \<in> c_sent c \<or> sent_ok (members c) a x"
  shows "\<exists>a'. proto_steps (members c) a a' \<and> sim crc a' c'"
proof -
  let ?a = "a\<lparr>p_term := (p_term a)(i := unat (n_term n'))\<rparr>"
  have ns: "node_sim crc a c i (n, s)" using simD(3) [OF S at] .
  then have "log_sim crc (members c) a i n s" by (simp add: node_sim_def)
  from log_sim_calm [OF this calm] have l: "proto_steps (members c) a ?a" "log_sim crc (members c) ?a i n' s'"
    by blast+
  have g: "grows a ?a" using steps_grow [OF l(1) simD(1) [OF S]] by simp
  have "sim crc ?a c'"
  proof (rule sim_update [OF S at nodes inv' l(1) _ _ busy])
    show "p_hist ?a (unat (n_term n')) = Some (n_entries n')" if "n_role n' = Leader"
      using that calm ns by (simp add: calm_def node_sim_def)
    show "votes_of c \<subseteq> votes_of c'" using sets by (simp add: votes_of_def)
    show "x \<in> c_sent c \<or> sent_ok (members c) ?a x" if "x \<in> c_sent c'" for x
      using sent [OF that] sent_ok_grows [OF g] by blast
  qed (use l(2) sets in \<open>simp_all add: stands_def writes_def\<close>)
  with l(1) show ?thesis by blast
qed

lemma hist_of_leader: "sim crc a c \<Longrightarrow> c_nodes c i = Some (n, s) \<Longrightarrow> n_role n = Leader \<Longrightarrow> p_hist a (unat (n_term n)) = Some (n_entries n)"
  using simD(3) by (fastforce simp: node_sim_def)

lemma prefix_ok_length: "prefix_ok ids a t cm xs \<Longrightarrow> cm \<le> length xs"
  by (auto simp: prefix_ok_def holds_up_to_def agree_def)

lemma heartbeat_sent_ok:
  assumes S: "sim crc a c" and at: "c_nodes c i = Some (n, s)" and lead: "n_role n = Leader"
  shows "sent_ok (members c) a (heartbeat n)"
proof -
  have l: "log_sim crc (members c) a i n s" using simD(3) [OF S at] by (simp add: node_sim_def)
  note f = log_sim_facts [OF l]
  have pre: "prefix_ok (members c) a (unat (n_term n)) (unat (n_commit_index n)) (n_entries n)"
    using l by (simp add: log_sim_def)
  have "piece (heartbeat n) (n_entries n)"
    using f(3) prefix_ok_length [OF pre]
    by (auto simp: piece_def heartbeat_def numbered_from_def last_term_def last_conv_nth)
  then show ?thesis
    using hist_of_leader [OF S at lead] pre by (auto simp: sent_ok_def heartbeat_def)
qed

lemma waiting_cleared: "idle c i \<Longrightarrow> (c_waiting c)(i := None) = c_waiting c" "idle c i \<Longrightarrow> (c_writing c)(i := None) = c_writing c"
  by (auto simp: idle_def)

lemma sim_beat:
  assumes S: "sim crc a c" and at: "c_nodes c i = Some (n, s)" and idle: "idle c i" and lead: "n_role n = Leader"
    and run: "send_heartbeats env net (n, s) = (Ok (), (n', s'))"
    and c': "c' = c\<lparr>c_nodes := (c_nodes c)(i \<mapsto> (n', s')), c_sent := insert (heartbeat n) (c_sent c)\<rparr>"
    and inv': "cluster_inv c'"
  shows "\<exists>a'. proto_steps (members c) a a' \<and> sim crc a' c'"
proof (rule sim_calm [OF S at])
  have "node_rep crc n s" using simD(3) [OF S at] by (simp add: node_sim_def log_sim_def)
  then show "calm crc n (n', s')"
    using send_heartbeats_calm [of crc n s env net] run by (simp add: outcome_def)
  show "x \<in> c_sent c \<or> sent_ok (members c) a x" if "x \<in> c_sent c'" for x
    using that c' heartbeat_sent_ok [OF S at lead] by auto
qed (use c' inv' waiting_cleared [OF idle] in simp_all)

end
