(* ===== verification/Replicas_Steps.thy ===== *)
theory Replicas_Steps
  imports Replicas_Simulate
begin

text \<open>
  The steps of \<open>Replicas\<close>, one by one, are runs of the abstract protocol.
\<close>

section \<open>Elections\<close>

lemma node_at_id:
  assumes "cluster_inv c" and "c_nodes c i = Some (n, s)"
  shows "n_id n = i \<and> name_ok i"
proof -
  have "node_at c i (n, s)" using assms by (simp add: cluster_inv_def)
  then show ?thesis by (auto simp: node_at_def member_ok_def of_config_def config_ok_def)
qed

lemma cand_fresh:
  assumes "sim crc a c" and "p_term a i < t"
  shows "p_cand a i t = None"
  using terms_ok_simps(5) [of a i t] simD(1) [OF assms(1)] assms(2)
  by (cases "p_cand a i t") (fastforce simp: proto_inv_def)+

lemma sim_campaign:
  assumes S: "sim crc a c" and at: "c_nodes c i = Some (n, s)" and idle: "idle c i" and t: "n_term n < n_term n + 1"
    and run: "start_election_begin env (n, s) = (Ok req, (n', s'))"
    and c': "c' = c\<lparr>c_nodes := (c_nodes c)(i \<mapsto> (n', s')), c_waiting := (c_waiting c)(i \<mapsto> req),
      c_requests := insert req (c_requests c)\<rparr>"
    and inv': "cluster_inv c'"
  shows "\<exists>a'. proto_steps (members c) a a' \<and> sim crc a' c'"
proof -
  have ns: "node_sim crc a c i (n, s)" using simD(3) [OF S at] .
  then have l: "log_sim crc (members c) a i n s" by (simp add: node_sim_def)
  note f = log_sim_facts [OF l]
  have id: "n_id n = i" "name_ok (n_id n)" using node_at_id [OF simD(2) [OF S] at] by simp_all
  obtain b: "req = \<lparr>rv_term = n_term n + 1, rv_candidate_id = n_id n, rv_last_log_index = last_index (n_log n),
      rv_last_log_term = last_term (n_log n)\<rparr>" and n': "node_rep crc n' s'" "n_term n' = n_term n + 1" "n_role n' = Candidate"
      "n_log n' = n_log n" "n_commit_index n' = n_commit_index n" "n_snapshot n' = n_snapshot n"
    using start_election_begin_rep [OF f(1) id(2), of env] run by auto
  have lt: "p_term a i < unat (n_term n + 1)" using t l by (simp add: log_sim_def u64_less_iff)
  let ?t = "unat (n_term n + 1)"
  let ?a = "a\<lparr>p_term := (p_term a)(i := ?t), p_cand := (p_cand a)(i := (p_cand a i)(?t \<mapsto> p_log a i)),
    p_votes := insert (i, ?t, i, p_log a i) (p_votes a)\<rparr>"
  have st: "proto_steps (members c) a ?a" by (rule r_into_rtranclp) (rule stand [OF lt])
  have g: "grows a ?a" using steps_grow [OF st simD(1) [OF S]] by simp
  have "prefix_ok (members c) ?a ?t (unat (n_commit_index n)) (n_entries n)"
    using prefix_ok_grows [OF g, of "members c" "unat (n_term n)"] l lt by (simp add: log_sim_def)
  then have l': "log_sim crc (members c) ?a i n' s'" using l n' by (simp add: log_sim_def)
  have "sim crc ?a c'"
  proof (rule sim_update [OF S at _ inv' st, where w = "Some req" and v = None])
    show "c_writing c' = (c_writing c)(i := None)" using c' waiting_cleared [OF idle] by simp
    show "p_cand a i (unat (rv_term r)) = None" if "Some req = Some r" for r
      using cand_fresh [OF S lt] that b by auto
    show "x \<in> c_requests c \<or> request_ok ?a x" if "x \<in> c_requests c'" for x
    proof (cases "x = req")
      case True
      then show ?thesis using b id(1) f(3,4) l by (auto simp: request_ok_def log_sim_def)
    qed (use that c' in simp)
    show "votes_of c \<subseteq> votes_of c'" using c' by (auto simp: votes_of_def)
    show "stands ?a i n' (Some req)" using b n' l by (simp add: stands_def log_sim_def)
  qed (use c' l' n' b id in \<open>simp_all add: writes_def\<close>)
  with st show ?thesis by blast
qed

lemma vote_in_protocol:
  assumes S: "sim crc a c" and vote: "(k, t, v) \<in> votes_of c"
  shows "\<exists>V. (k, unat t, v, V) \<in> p_votes a"
proof -
  consider req resp where "(k, req, resp) \<in> c_answers c" "rvr_vote_granted resp" "t = rv_term req" "v = rv_candidate_id req"
    | req where "req \<in> c_requests c" "k = rv_candidate_id req" "t = rv_term req" "v = rv_candidate_id req"
    using vote by (auto simp: votes_of_def)
  then show ?thesis
  proof cases
    case 1
    then show ?thesis using simD(6) [OF S 1(1)] by (simp add: answer_ok_def)
  next
    case 2
    then show ?thesis using simD(5) [OF S 2(1)] by (auto simp: request_ok_def)
  qed
qed

lemma no_leader_yet:
  assumes S: "sim crc a c" and wait: "c_waiting c i = Some req" and wins: "majorities.wins (members c) (votes_of c) (rv_term req) i"
  shows "p_hist a (unat (rv_term req)) = None"
proof (rule ccontr)
  assume "p_hist a (unat (rv_term req)) \<noteq> None"
  then obtain j where j: "majorities.wins (members c) (votes_of c) (rv_term req) j"
    "\<forall>r. c_waiting c j = Some r \<longrightarrow> rv_term r \<noteq> rv_term req"
    using simD(4) [OF S] by (auto simp: winner_ok_def)
  have "majorities.one_vote (votes_of c)" using simD(2) [OF S] by (simp add: cluster_inv_def)
  then have "i = j" using majorities.one_winner wins j(1) by metis
  then show False using j(2) wait by simp
qed

lemma sim_elect:
  assumes S: "sim crc a c" and at: "c_nodes c i = Some (n, s)" and wait: "c_waiting c i = Some req"
    and run: "start_election_finish env rs (n, s) = (Ok (), (n', s'))"
    and c': "c' = c\<lparr>c_nodes := (c_nodes c)(i \<mapsto> (n', s')), c_waiting := (c_waiting c)(i := None)\<rparr>"
    and inv': "cluster_inv c'"
  shows "\<exists>a'. proto_steps (members c) a a' \<and> sim crc a' c'"
proof -
  have ns: "node_sim crc a c i (n, s)" using simD(3) [OF S at] .
  have l: "log_sim crc (members c) a i n s" using ns by (simp add: node_sim_def)
  have st: "n_role n \<noteq> Leader" "p_cand a i (unat (rv_term req)) = Some (n_entries n)"
    using ns wait by (simp_all add: node_sim_def stands_def)
  have wr: "c_writing c i = None" using simD(10) [OF S, of i] wait by fastforce
  then have wr': "(c_writing c)(i := None) = c_writing c" by auto
  have "node_at c i (n, s)" using simD(2) [OF S] at by (simp add: cluster_inv_def)
  then have t: "n_term n = rv_term req" using wait by (simp add: node_at_def)
  from start_election_finish_calm [OF log_sim_facts(1) [OF l] st(1) run] show ?thesis
  proof
    assume calm: "calm crc n (n', s')"
    show ?thesis
      by (rule sim_calm [OF S at _ inv' calm]) (use c' wr' in simp_all)
  next
    assume won: "n' = become_leader n \<and> s' = s \<and> quorum (n_config n) \<le> 1 + granted_count rs"
    have vo: "votes_of c' = votes_of c" and dom: "members c' = members c" using c' at by (auto simp: votes_of_def)
    have "node_at c' i (become_leader n, s)" using inv' c' won by (simp add: cluster_inv_def)
    then have wins: "majorities.wins (members c) (votes_of c) (rv_term req) i"
      using vo dom t by (simp add: node_at_def)
    obtain Q where Q: "majority (members c) Q" "\<forall>k \<in> Q. \<exists>V. (k, unat (rv_term req), i, V) \<in> p_votes a"
      using wins vote_in_protocol [OF S] unfolding majorities.wins_def by blast
    note none = no_leader_yet [OF S wait wins]
    let ?a = "a\<lparr>p_hist := (p_hist a)(unat (rv_term req) \<mapsto> n_entries n)\<rparr>"
    have st1: "proto_steps (members c) a ?a" by (rule r_into_rtranclp) (rule win [OF st(2) none Q])
    have g: "grows a ?a" using steps_grow [OF st1 simD(1) [OF S]] by simp
    have "log_sim crc (members c) ?a i n s" by (rule log_sim_grows [OF g _ _ l]) simp_all
    then have l': "log_sim crc (members c) ?a i n' s'"
      using won by (simp add: log_sim_def become_leader_rep) (simp add: become_leader_def Let_def)
    have "sim crc ?a c'"
    proof (rule sim_update [OF S at _ inv' st1, where w = None and v = None])
      show "p_hist ?a t' = Some G \<or> t' = unat (n_term n) \<and> n_role n = Leader" if "p_hist a t' = Some G" for t' G
        using that none by auto
      show "winner_ok ?a c' t'" if "p_hist ?a (unat t') \<noteq> None" "p_hist a (unat t') = None" for t'
      proof -
        have "t' = rv_term req" using that by (auto simp: u64_eq_iff split: if_splits)
        then show ?thesis using wins vo dom st(2) c' by (auto simp: winner_ok_def)
      qed
      show "p_hist ?a (unat (n_term n')) = Some (n_entries n')" using won t by simp
    qed (use c' l' wr' vo in \<open>simp_all add: stands_def writes_def\<close>)
    with st1 show ?thesis by blast
  qed
qed


section \<open>Votes\<close>

lemma grants_up_to_date:
  assumes l: "log_sim crc ids a i n s" and ok: "log_ok req (n_log n)"
    and C: "unat (rv_last_log_index req) = length C" "unat (rv_last_log_term req) = last_eterm C"
  shows "up_to_date C (n_entries n)"
  using ok log_sim_facts(3,4) [OF l] C by (auto simp: log_ok_def up_to_date_def u64_order)

lemma after_vote_calm:
  assumes "node_rep crc (after_vote env req n) s'"
  shows "calm crc n (after_vote env req n, s')"
  using assms by (auto simp: calm_def after_vote_def in_term_def Let_def)

lemma sim_vote:
  assumes S: "sim crc a c" and at: "c_nodes c i = Some (n, s)" and idle: "idle c i" and req: "req \<in> c_requests c"
    and run: "on_request_vote env req (n, s) = (Ok resp, (n', s'))"
    and c': "c' = c\<lparr>c_nodes := (c_nodes c)(i \<mapsto> (n', s')), c_answers := c_answers c \<union> {(i, req, resp)}\<rparr>"
    and inv': "cluster_inv c'"
  shows "\<exists>a'. proto_steps (members c) a a' \<and> sim crc a' c'"
proof -
  have ns: "node_sim crc a c i (n, s)" using simD(3) [OF S at] .
  have l: "log_sim crc (members c) a i n s" using ns by (simp add: node_sim_def)
  have cand: "name_ok (rv_candidate_id req)" using request_candidate [OF simD(2) [OF S] req] .
  have r: "resp = rv_answer (after_vote env req n) (grants req n)" "n' = after_vote env req n" "node_rep crc n' s'"
    using on_request_vote_rep [OF log_sim_facts(1) [OF l] cand, of env] run by auto
  have calm: "calm crc n (n', s')" using after_vote_calm r(2,3) by simp
  let ?b = "a\<lparr>p_term := (p_term a)(i := unat (n_term n'))\<rparr>"
  have b: "proto_steps (members c) a ?b" "log_sim crc (members c) ?b i n' s'" using log_sim_calm [OF l calm] by blast+
  obtain a' where a': "proto_steps (members c) a a'" "log_sim crc (members c) a' i n' s'" "answer_ok a' (i, req, resp)"
    "p_hist a' = p_hist a" "p_log a' = p_log a" "p_term a' = p_term ?b"
  proof (cases "grants req n")
    case False
    then have "answer_ok ?b (i, req, resp)" using r(1) by (simp add: answer_ok_def rv_answer_def)
    with b show ?thesis by (intro that [of ?b]) simp_all
  next
    case True
    then have g: "n_term n \<le> rv_term req" "log_ok req (n_log n)" by (simp_all add: grants_def)
    have t: "n_term n' = rv_term req" using True g(1) r(2) by (auto simp: after_vote_def in_term_def Let_def)
    obtain C where C: "p_cand a (rv_candidate_id req) (unat (rv_term req)) = Some C"
      "unat (rv_last_log_index req) = length C" "unat (rv_last_log_term req) = last_eterm C"
      using simD(5) [OF S req] by (auto simp: request_ok_def)
    have up: "up_to_date C (p_log ?b i)" using grants_up_to_date [OF l g(2) C(2,3)] l by (simp add: log_sim_def)
    let ?a = "?b\<lparr>p_votes := insert (i, unat (rv_term req), rv_candidate_id req, p_log ?b i) (p_votes ?b)\<rparr>"
    have st: "proto_step (members c) ?b ?a"
      by (rule grant [OF _ _ up]) (use C t in simp_all)
    then have g': "grows ?b ?a" using step_grows steps_grow [OF b(1) simD(1) [OF S]] by blast
    have "log_sim crc (members c) ?a i n' s'" by (rule log_sim_grows [OF g' _ _ b(2)]) simp_all
    moreover have "answer_ok ?a (i, req, resp)" by (auto simp: answer_ok_def)
    moreover have "proto_steps (members c) a ?a" using b(1) st by (rule rtranclp.rtrancl_into_rtrancl)
    ultimately show ?thesis by (intro that [of ?a]) simp_all
  qed
  have "sim crc a' c'"
  proof (rule sim_update [OF S at _ inv' a'(1), where w = None and v = None])
    show "p_hist a' (unat (n_term n')) = Some (n_entries n')" if "n_role n' = Leader"
      using that calm ns a'(4) by (simp add: calm_def node_sim_def)
    show "votes_of c \<subseteq> votes_of c'" using c' by (auto simp: votes_of_def)
  qed (use c' a' waiting_cleared [OF idle] in \<open>auto simp: stands_def writes_def\<close>)
  with a'(1) show ?thesis by blast
qed

section \<open>Restarts\<close>

lemma sim_restart:
  assumes S: "sim crc a c" and at: "c_nodes c i = Some (n, s)" and run: "node_start crc env (n_config n) s = (Ok n', s')"
    and c': "c' = c\<lparr>c_nodes := (c_nodes c)(i \<mapsto> (n', s')), c_waiting := (c_waiting c)(i := None),
      c_writing := (c_writing c)(i := None)\<rparr>"
    and inv': "cluster_inv c'"
  shows "\<exists>a'. proto_steps (members c) a a' \<and> sim crc a' c'"
proof -
  have l: "log_sim crc (members c) a i n s" using simD(3) [OF S at] by (simp add: node_sim_def)
  have n': "n' = restarted env n" "s' = s" using run node_start_rep [OF log_sim_facts(1) [OF l], of env] by simp_all
  have "log_sim crc (members c) a i n' s'"
    using l n' node_rep_restarted [of crc n s env] by (simp add: log_sim_def prefix_ok_def) (simp add: restarted_def)
  then have "sim crc a c'"
    by (intro sim_update [OF S at _ inv' rtranclp.rtrancl_refl, where w = None and v = None])
      (use c' n' in \<open>auto simp: stands_def writes_def restarted_def votes_of_def\<close>)
  then show ?thesis by blast
qed


section \<open>AppendEntries\<close>

lemma ae_consistency_fails: "ae_consistency req n = Some resp \<Longrightarrow> \<not> aer_success resp"
  by (auto simp: ae_consistency_def ae_reject_def split: if_splits option.splits)

lemma followed_calm: "node_rep crc (followed env t ld n) s \<Longrightarrow> calm crc n (followed env t ld n, s)"
  by (auto simp: calm_def followed_def become_follower_with_leader_def in_term_def)

lemma on_append_entries_result:
  assumes rep: "node_rep crc n s" and snap: "rl_snapshot_index (n_log n) = 0"
    and num: "ae_consistency req n = None \<longrightarrow> numbered_from (ae_prev_log_index req) (ae_entries req)"
    and room: "room_for (n_log n) (2 * length (ae_entries req)) (map le_data (ae_entries req))"
    and run: "on_append_entries crc env req (n, s) = (Ok resp, (n', s'))"
  shows "\<not> aer_success resp \<and> calm crc n (n', s') \<or>
    aer_success resp \<and> n_term n \<le> ae_term req \<and> ae_consistency req n = None \<and> node_rep crc n' s' \<and>
    n_entries n' = merge (unat (ae_prev_log_index req)) (ae_entries req) (n_entries n) \<and>
    rl_snapshot_index (n_log n') = 0 \<and> rl_snapshot_term (n_log n') = rl_snapshot_term (n_log n) \<and>
    n_snapshot n' = n_snapshot n \<and> n_term n' = ae_term req \<and> n_role n' = Follower \<and>
    n_commit_index n' = (if n_commit_index n < ae_leader_commit req then min (ae_leader_commit req) (last_index (n_log n'))
      else n_commit_index n)"
proof (cases "ae_term req < n_term n")
  case True
  then have "resp = ae_reject n 0 0 \<and> n' = n \<and> s' = s" using run by (auto simp: on_append_entries_def)
  then show ?thesis using calm_refl [OF rep] by (simp add: ae_reject_def)
next
  case False
  then have t: "n_term n \<le> ae_term req" by simp
  let ?f = "followed env (ae_term req) (ae_leader_id req) n"
  show ?thesis
  proof (cases "ae_consistency req n")
    case None
    obtain m where m: "log_budget (n_log n) (2 * length (ae_entries req)) m" "\<forall>e \<in> set (ae_entries req). 17 + length (le_data e) \<le> m"
      using room by (auto simp: room_for_def)
    have pre: "rl_snapshot_index (n_log n) \<le> ae_prev_log_index req" using snap by simp
    obtain l' s1 where l': "on_append_entries crc env req (n, s) =
        (Ok \<lparr>aer_term = ae_term req, aer_success = True, aer_conflict_index = 0, aer_conflict_term = 0\<rparr>,
          (committed (ae_leader_commit req) (?f\<lparr>n_log := l'\<rparr>), s1))"
      "node_rep crc (committed (ae_leader_commit req) (?f\<lparr>n_log := l'\<rparr>)) s1"
      "rl_entries l' = merge (unat (ae_prev_log_index req)) (ae_entries req) (n_entries n)"
      "rl_snapshot_index l' = 0" "rl_snapshot_term l' = rl_snapshot_term (n_log n)"
      using on_append_entries_rep [OF rep t None pre num [rule_format, OF None] m, of env] snap by auto
    then have "resp = \<lparr>aer_term = ae_term req, aer_success = True, aer_conflict_index = 0, aer_conflict_term = 0\<rparr>"
      "n' = committed (ae_leader_commit req) (?f\<lparr>n_log := l'\<rparr>)" "s' = s1"
      using run by simp_all
    then show ?thesis using l' None t by (auto simp: committed_def max_absorb2)
  next
    case (Some r)
    have "ae_consistency req ?f \<noteq> None" using Some ae_consistency_cong [of ?f n req] by simp
    then obtain r' where r': "ae_consistency req ?f = Some r'" by blast
    from on_append_entries_mismatch [OF rep t this] run
    have "resp = r'" "n' = ?f" "node_rep crc ?f s'" by auto
    then show ?thesis using ae_consistency_fails [OF r'] followed_calm by blast
  qed
qed

text \<open>Where the previous entry matches, the follower's log and the leader's agree up to it.\<close>

lemma log_term_pos:
  assumes inv: "proto_inv ids a" and j: "j < length (p_log a i)"
  shows "0 < eterm (p_log a i ! j)"
proof -
  have "matching a (p_log a i)" using inv by (simp add: proto_inv_def)
  then obtain G where "p_hist a (eterm (p_log a i ! j)) = Some G" using j unfolding matching_def by blast
  then show ?thesis using inv terms_ok_simps(1) unfolding proto_inv_def by blast
qed

lemma consistent_agree:
  assumes inv: "proto_inv ids a" and l: "log_sim crc ids a i n s" and cons: "ae_consistency req n = None"
    and G: "p_hist a t = Some G" "piece req G \<or> unmatched req"
  shows "piece req G \<and> \<not> unmatched req \<and> agree (unat (ae_prev_log_index req)) (n_entries n) G"
proof (cases "ae_prev_log_index req = 0")
  case True
  then show ?thesis using G(2) by (simp add: unmatched_def agree_def)
next
  case False
  let ?p = "unat (ae_prev_log_index req)"
  have xs: "p_log a i = n_entries n" "rl_snapshot_index (n_log n) = 0" using l by (simp_all add: log_sim_def)
  have p: "0 < ae_prev_log_index req" "0 < ?p" using False by (simp_all add: word_gt_0 unat_gt_0)
  have "term_at (n_log n) (ae_prev_log_index req) = Some (ae_prev_log_term req)"
    using cons p by (auto simp: ae_consistency_def split: option.splits if_splits)
  then have at: "?p - 1 < length (n_entries n)" "le_term (n_entries n ! (?p - 1)) = ae_prev_log_term req"
    using term_at_offset [OF log_sim_facts(2) [OF l], of "ae_prev_log_index req" "?p - 1"] xs(2) p(2) by (auto split: if_splits)
  have "ae_prev_log_term req \<noteq> 0" using log_term_pos [OF inv, of "?p - 1" i] at xs(1) by auto
  then have un: "\<not> unmatched req" by (simp add: unmatched_def)
  then have pc: "piece req G" using G(2) by simp
  then have "?p - 1 < length G" "le_term (G ! (?p - 1)) = ae_prev_log_term req"
    using p(2) by (auto simp: piece_def Let_def)
  then have "agree (Suc (?p - 1)) (p_log a i) G"
    using known_match [OF inv log_known [of a i] _ hist_known [OF G(1)], of "?p - 1"] at xs(1) by simp
  with pc un xs(1) p(2) show ?thesis by simp
qed

lemma sim_entries:
  assumes S: "sim crc a c" and at: "c_nodes c i = Some (n, s)" and idle: "idle c i" and req: "req \<in> c_sent c"
    and room: "room_for (n_log n) (2 * length (ae_entries req)) (map le_data (ae_entries req))"
    and run: "on_append_entries crc env req (n, s) = (Ok resp, (n', s'))"
    and c': "c' = c\<lparr>c_nodes := (c_nodes c)(i \<mapsto> (n', s')), c_acked := insert (i, req, resp) (c_acked c)\<rparr>"
    and inv': "cluster_inv c'"
  shows "\<exists>a'. proto_steps (members c) a a' \<and> sim crc a' c'"
proof -
  have ns: "node_sim crc a c i (n, s)" using simD(3) [OF S at] .
  have l: "log_sim crc (members c) a i n s" using ns by (simp add: node_sim_def)
  have inv: "proto_inv (members c) a" using simD(1) [OF S] .
  let ?t = "unat (ae_term req)" and ?p = "unat (ae_prev_log_index req)" and ?es = "ae_entries req"
  obtain G where G: "p_hist a ?t = Some G" "piece req G \<or> unmatched req"
    "prefix_ok (members c) a ?t (unat (ae_leader_commit req)) G"
    using simD(7) [OF S req] by (auto simp: sent_ok_def)
  have snap: "rl_snapshot_index (n_log n) = 0" using l by (simp add: log_sim_def)
  have num: "ae_consistency req n = None \<longrightarrow> numbered_from (ae_prev_log_index req) ?es"
    using consistent_agree [OF inv l _ G(1,2)] by (simp add: piece_def Let_def)
  from on_append_entries_result [OF log_sim_facts(1) [OF l] snap num room run] show ?thesis
  proof (elim disjE conjE)
    assume no: "\<not> aer_success resp" and calm: "calm crc n (n', s')"
    let ?b = "a\<lparr>p_term := (p_term a)(i := unat (n_term n'))\<rparr>"
    have b: "proto_steps (members c) a ?b" "log_sim crc (members c) ?b i n' s'" using log_sim_calm [OF l calm] by blast+
    have "sim crc ?b c'"
    proof (rule sim_update [OF S at _ inv' b(1), where w = None and v = None])
      show "p_hist ?b (unat (n_term n')) = Some (n_entries n')" if "n_role n' = Leader"
        using that calm ns by (simp add: calm_def node_sim_def)
    qed (use c' b(2) no waiting_cleared [OF idle] in \<open>auto simp: stands_def writes_def acked_ok_def votes_of_def\<close>)
    with b(1) show ?thesis by blast
  next
    assume ok: "aer_success resp" "n_term n \<le> ae_term req" "ae_consistency req n = None" "node_rep crc n' s'"
      and log': "n_entries n' = merge ?p ?es (n_entries n)" "rl_snapshot_index (n_log n') = 0"
        "rl_snapshot_term (n_log n') = rl_snapshot_term (n_log n)" "n_snapshot n' = n_snapshot n"
      and st: "n_term n' = ae_term req" "n_role n' = Follower"
      and cm: "n_commit_index n' = (if n_commit_index n < ae_leader_commit req
        then min (ae_leader_commit req) (last_index (n_log n')) else n_commit_index n)"
    have xs: "p_log a i = n_entries n" "p_term a i = unat (n_term n)" using l by (simp_all add: log_sim_def)
    have ag: "piece req G" "\<not> unmatched req" "agree ?p (p_log a i) G"
      using consistent_agree [OF inv l ok(3) G(1,2)] xs(1) by simp_all
    have es: "?es = take (length ?es) (drop ?p G)" "?p + length ?es \<le> length G" "unat (ae_leader_commit req) \<le> ?p + length ?es"
      using ag(1) by (simp_all add: piece_def Let_def)
    have same: "same_entries ?p ?es (p_log a i)"
      by (rule matching_same_entries [OF inv log_known hist_known [OF G(1)] es(1,2)])
    have tle: "p_term a i \<le> ?t" using ok(2) xs(2) by (simp add: u64_le_iff)
    let ?a = "a\<lparr>p_term := (p_term a)(i := ?t), p_log := (p_log a)(i := merge ?p ?es (p_log a i)),
      p_acks := p_acks a \<union> {(i, ?t, j) | j. j \<le> ?p + length ?es}\<rparr>"
    have st1: "proto_steps (members c) a ?a" by (rule accept_path [OF tle G(1) ag(3) es(1,2) same])
    have g: "grows a ?a" using steps_grow [OF st1 inv] by simp
    have keep: "prefix_ok (members c) a ?t cm ys" if "prefix_ok (members c) a ?t cm G" "agree cm ys G" for cm ys
      using prefix_ok_agree that by blast
    have has: "agree (?p + length ?es) (n_entries n') G"
      using merge_has_segment [OF ag(3) es(1,2) same] log'(1) xs(1) by simp
    have "prefix_ok (members c) a ?t (unat (n_commit_index n')) (n_entries n')"
    proof (cases "n_commit_index n < ae_leader_commit req")
      case True
      have "?p + length ?es \<le> unat (last_index (n_log n'))"
        using has node_rep_log [OF ok(4)] log'(2) by (simp add: agree_def log_wf_last_index)
      then have "unat (n_commit_index n') = unat (ae_leader_commit req)"
        using cm True es(3) by (simp add: min_def u64_le_iff)
      then show ?thesis using keep [OF G(3) agree_le [OF has es(3)]] by simp
    next
      case False
      have "prefix_ok (members c) a (unat (n_term n)) (unat (n_commit_index n)) (n_entries n)"
        using l by (simp add: log_sim_def)
      then have "prefix_ok (members c) a ?t (unat (n_commit_index n)) (n_entries n)"
        using prefix_ok_grows [OF grows_refl] tle xs(2) by simp
      note old = prefix_ok_leader [OF inv this G(1)]
      have "agree (unat (n_commit_index n)) (n_entries n') G"
        using merge_keeps_agree [OF ag(3) es(1,2) same] old log'(1) xs(1) by simp
      then show ?thesis using keep old cm False by simp
    qed
    then have "prefix_ok (members c) ?a ?t (unat (n_commit_index n')) (n_entries n')"
      using prefix_ok_grows [OF g] by blast
    then have l': "log_sim crc (members c) ?a i n' s'"
      using l ok(4) log' st xs by (simp add: log_sim_def)
    have "sim crc ?a c'"
      by (rule sim_update [OF S at _ inv' st1, where w = None and v = None])
        (use c' l' st ok(1) ag(2) waiting_cleared [OF idle] in \<open>auto simp: stands_def writes_def acked_ok_def votes_of_def\<close>)
    with st1 show ?thesis by blast
  qed
qed


section \<open>Writes\<close>

text \<open>The request that a leader builds ends with the new entry, or it starts past the log and matches none.\<close>

lemma built_request:
  assumes wf: "log_wf (n_log n)" and snap: "rl_snapshot_index (n_log n) = 0" and up: "unat up = length (n_entries n)"
    and cm: "unat (n_commit_index n) \<le> length (n_entries n)" and req: "build_append_entries_for n p up = Ok req"
  shows "ae_term req = n_term n \<and> ae_leader_commit req = n_commit_index n \<and>
    (unmatched req \<or> piece req (n_entries n) \<and> unat (ae_prev_log_index req) + length (ae_entries req) = unat up)"
proof -
  let ?xs = "n_entries n" and ?next = "next_for n p up"
  have idx: "unat (le_index (?xs ! j)) = 1 + j" if "j < length ?xs" for j
    using wf snap that by (simp add: log_wf_def)
  have idx_le: "unat (le_index e) \<le> unat up" if "e \<in> set ?xs" for e
  proof -
    obtain j where "j < length ?xs" "e = ?xs ! j" using \<open>e \<in> set ?xs\<close> by (auto simp: in_set_conv_nth)
    then show ?thesis using idx [of j] up by simp
  qed
  show ?thesis
  proof (cases "?next = 0")
    case True
    have all: "filter (\<lambda>e. le_index e \<le> up) ?xs = ?xs" using idx_le by (simp add: filter_id_conv u64_le_iff)
    have "req = \<lparr>ae_term = n_term n, ae_leader_id = n_id n, ae_prev_log_index = 0,
        ae_prev_log_term = (case term_at (n_log n) 0 of Some t \<Rightarrow> t | None \<Rightarrow> 0), ae_entries = ?xs, ae_leader_commit = n_commit_index n\<rparr>"
      using req True all by (simp add: build_append_entries_for_def Let_def entries_from_spec [OF wf] saturating_sub_def)
    then show ?thesis using up cm idx by (simp add: piece_def numbered_from_def)
  next
    case False
    then have nx: "rl_snapshot_index (n_log n) < ?next" using snap by (simp add: word_gt_0)
    have un: "0 < unat ?next" using False by (simp add: unat_gt_0)
    obtain r: "ae_term req = n_term n" "ae_leader_commit req = n_commit_index n" "unat (ae_prev_log_index req) = unat ?next - 1"
      "ae_prev_log_term req = (case term_at (n_log n) (ae_prev_log_index req) of Some t \<Rightarrow> t | None \<Rightarrow> 0)"
      "ae_entries req = filter (\<lambda>e. ?next \<le> le_index e \<and> le_index e \<le> up) ?xs"
      using build_request [OF wf nx] req by auto
    let ?p = "unat (ae_prev_log_index req)"
    have es: "ae_entries req = take (unat up + 1 - unat ?next) (drop ?p ?xs)"
      using r(3,5) filter_range [OF wf nx, of up] snap by simp
    have num: "numbered_from (ae_prev_log_index req) (ae_entries req)"
      unfolding r(5) by (rule request_numbered [OF wf nx r(3)])
    have ta: "term_at (n_log n) (ae_prev_log_index req) = (if ?p - 1 < length ?xs then Some (le_term (?xs ! (?p - 1))) else None)"
      if "0 < ?p" using term_at_offset [OF wf, of "ae_prev_log_index req" "?p - 1"] that snap by simp
    show ?thesis
    proof (cases "?p \<le> length ?xs")
      case True
      then have ln: "length (ae_entries req) = length ?xs - ?p" using es up r(3) un by simp
      then have "ae_entries req = take (length (ae_entries req)) (drop ?p ?xs)" using es by simp
      moreover have "0 < ?p \<longrightarrow> ae_prev_log_term req = le_term (?xs ! (?p - 1))" using r(4) ta True by auto
      ultimately have "piece req ?xs" using True ln num cm r(2) by (simp add: piece_def Let_def)
      then show ?thesis using r(1,2) True ln up by simp
    next
      case False
      then have "0 < ?p" "\<not> ?p - 1 < length ?xs" by linarith+
      then have "unmatched req" using r(4) ta by (simp add: unmatched_def word_gt_0 unat_gt_0)
      then show ?thesis using r(1,2) by simp
    qed
  qed
qed

lemma prefix_ok_append: "prefix_ok ids a t cm xs \<Longrightarrow> prefix_ok ids a t cm (xs @ ys)"
  by (auto simp: prefix_ok_def holds_up_to_def intro: agree_append)

lemma sim_propose:
  assumes S: "sim crc a c" and at: "c_nodes c i = Some (n, s)" and idle: "idle c i" and room: "room_for (n_log n) 1 [dat]"
    and run: "client_write_begin crc dat (n, s) = (Ok (index, aes, snaps), (n', s'))"
    and c': "c' = c\<lparr>c_nodes := (c_nodes c)(i \<mapsto> (n', s')), c_writing := (c_writing c)(i \<mapsto> (index, aes)),
      c_sent := c_sent c \<union> snd ` set aes\<rparr>"
    and inv': "cluster_inv c'"
  shows "\<exists>a'. proto_steps (members c) a a' \<and> sim crc a' c'"
proof -
  have ns: "node_sim crc a c i (n, s)" using simD(3) [OF S at] .
  have l: "log_sim crc (members c) a i n s" using ns by (simp add: node_sim_def)
  have inv: "proto_inv (members c) a" using simD(1) [OF S] .
  obtain m where m: "log_budget (n_log n) 1 m" "17 + length dat \<le> m" using room by (auto simp: room_for_def)
  let ?e = "\<lparr>le_term = n_term n, le_index = index, le_data = dat\<rparr>" and ?t = "unat (n_term n)"
  have b: "n_role n = Leader" "node_rep crc n' s'" "\<exists>l. n' = n\<lparr>n_log := l\<rparr>" "n_entries n' = n_entries n @ [?e]"
    "rl_snapshot_index (n_log n') = 0" "rl_snapshot_term (n_log n') = 0" "peer_requests n' index (n_peers n) = Ok (aes, snaps)"
    "index = last_index (n_log n) + 1"
    using client_write_begin_run [OF log_sim_facts(1) [OF l] m run] l by (auto simp: log_sim_def)
  then have same: "n_role n' = Leader" "n_term n' = n_term n" "n_peers n' = n_peers n" "n_snapshot n' = None" "n_commit_index n' = n_commit_index n"
    using l by (auto simp: log_sim_def)
  have wf': "log_wf (n_log n')" using node_rep_log [OF b(2)] by simp
  have ix: "unat index = length (n_entries n')"
  proof -
    have "le_index (n_entries n' ! length (n_entries n)) = index" using b(4) by (simp add: nth_append)
    then show ?thesis using wf' b(4,5) by (auto simp: log_wf_def dest: spec [of _ "length (n_entries n)"])
  qed
  have pre: "prefix_ok (members c) a ?t (unat (n_commit_index n)) (n_entries n')"
    using l prefix_ok_append unfolding b(4) log_sim_def by blast
  have built: "ae_term req = n_term n \<and> ae_leader_commit req = n_commit_index n \<and>
      (unmatched req \<or> piece req (n_entries n') \<and> unat (ae_prev_log_index req) + length (ae_entries req) = unat index)"
    if "(p, req) \<in> set aes" for p req
    using peer_requests_members [OF b(7) same(4)] that built_request [OF wf' b(5) ix, of "ni_id p" req] prefix_ok_length [OF pre] same
    by auto
  let ?b = "a\<lparr>p_hist := (p_hist a)(?t \<mapsto> p_log a i @ [?e]), p_log := (p_log a)(i := p_log a i @ [?e])\<rparr>"
  let ?a = "?b\<lparr>p_acks := p_acks ?b \<union> {(i, ?t, j) | j. j \<le> length (n_entries n')}\<rparr>"
  have xs: "p_log a i = n_entries n" "p_term a i = ?t" using l by (simp_all add: log_sim_def)
  have h: "p_hist a ?t = Some (p_log a i)" using hist_of_leader [OF S at b(1)] xs by simp
  have "proto_steps (members c) a ?b" by (rule r_into_rtranclp, rule proto_step.propose [OF xs(2) h]) simp
  moreover have "proto_step (members c) ?b ?a"
    by (rule ack [of _ _ _ "p_log a i @ [?e]"]) (use xs b(4) agree_refl [of _ "p_log a i @ [?e]"] in simp_all)
  ultimately have st: "proto_steps (members c) a ?a" by (rule rtranclp.rtrancl_into_rtrancl)
  have g: "grows a ?a" using steps_grow [OF st inv] by simp
  have pre': "prefix_ok (members c) ?a ?t (unat (n_commit_index n)) (n_entries n')" by (rule prefix_ok_grows [OF g pre]) simp
  have l': "log_sim crc (members c) ?a i n' s'" using b same xs pre' by (simp add: log_sim_def)
  have "own ?a ?t (unat index)" using xs ix b(4) by (auto simp: own_def nth_append)
  then have w: "writes ?a (c_sent c') i n' (Some (index, aes))"
    using same ix peer_requests_members [OF b(7) same(4)] built by (auto simp: writes_def)
  have "sim crc ?a c'"
  proof (rule sim_update [OF S at _ inv' st, where w = None and v = "Some (index, aes)"])
    show "x \<in> c_sent c \<or> sent_ok (members c) ?a x" if x: "x \<in> c_sent c'" for x
    proof (cases "x \<in> c_sent c")
      case False
      then obtain p where "(p, x) \<in> set aes" using x c' by auto
      from built [OF this] have "ae_term x = n_term n" "ae_leader_commit x = n_commit_index n" "unmatched x \<or> piece x (n_entries n')"
        by blast+
      then show ?thesis using pre' xs b(4) by (auto simp: sent_ok_def)
    qed simp
    show "p_hist ?a t' = Some G \<or> t' = ?t \<and> n_role n = Leader" if "p_hist a t' = Some G" for t' G
      using that b(1) by auto
    show "winner_ok ?a c' t'" if "p_hist ?a (unat t') \<noteq> None" "p_hist a (unat t') = None" for t'
      using that h by (auto split: if_splits)
  qed (use c' l' w same b(4) xs waiting_cleared [OF idle] in \<open>auto simp: stands_def votes_of_def\<close>)
  with st show ?thesis by blast
qed


lemma acked_quorum:
  assumes "list_all2 (\<lambda>(p, req) r. case r of None \<Rightarrow> True | Some resp \<Rightarrow> (ni_id p, req, resp) \<in> A) aes rs"
    and "distinct (map (ni_id \<circ> fst) aes)"
  shows "\<exists>Q. Q \<subseteq> (ni_id \<circ> fst) ` set aes \<and> card Q = successes (map2 (\<lambda>(p, req) r. (ni_id p, ae_answer r)) aes rs) \<and>
    (\<forall>k \<in> Q. \<exists>p req resp. (p, req) \<in> set aes \<and> (k, req, resp) \<in> A \<and> aer_success resp)"
  using assms
proof (induction aes rs rule: list_all2_induct)
  case Nil
  then show ?case by simp
next
  case (Cons x aes r rs)
  obtain p req where x: "x = (p, req)" by force
  obtain Q where Q: "Q \<subseteq> (ni_id \<circ> fst) ` set aes" "card Q = successes (map2 (\<lambda>(p, req) r. (ni_id p, ae_answer r)) aes rs)"
    "\<forall>k \<in> Q. \<exists>p req resp. (p, req) \<in> set aes \<and> (k, req, resp) \<in> A \<and> aer_success resp"
    using Cons by auto
  show ?case
  proof (cases "\<exists>resp. r = Some resp \<and> aer_success resp")
    case True
    then obtain resp where r: "r = Some resp" "aer_success resp" by blast
    have "finite Q" "ni_id p \<notin> Q" using Q(1) Cons.prems finite_subset x by auto
    then have "card (insert (ni_id p) Q) = Suc (card Q)" by simp
    moreover have "\<forall>k \<in> insert (ni_id p) Q. \<exists>q req resp. (q, req) \<in> set (x # aes) \<and> (k, req, resp) \<in> A \<and> aer_success resp"
    proof
      fix k
      assume "k \<in> insert (ni_id p) Q"
      then consider "k = ni_id p" | "k \<in> Q" by blast
      then show "\<exists>q req resp. (q, req) \<in> set (x # aes) \<and> (k, req, resp) \<in> A \<and> aer_success resp"
      proof cases
        case 1
        then have "(p, req) \<in> set (x # aes) \<and> (k, req, resp) \<in> A \<and> aer_success resp"
          using r Cons.hyps(1) x by simp
        then show ?thesis by blast
      next
        case 2
        then show ?thesis using Q(3) by (meson list.set_intros(2))
      qed
    qed
    moreover have "insert (ni_id p) Q \<subseteq> (ni_id \<circ> fst) ` set (x # aes)" using Q(1) x by auto
    moreover have "successes (map2 (\<lambda>(p, req) r. (ni_id p, ae_answer r)) (x # aes) (r # rs)) = Suc (card Q)"
      using Q(2) r x by (simp add: ae_answer_def)
    ultimately show ?thesis by metis
  next
    case False
    then have "\<not> aer_success (ae_answer r)" by (auto simp: ae_answer_def ae_failed_def split: option.split)
    then have "successes (map2 (\<lambda>(p, req) r. (ni_id p, ae_answer r)) (x # aes) (r # rs)) = card Q"
      using Q(2) x by simp
    moreover have "Q \<subseteq> (ni_id \<circ> fst) ` set (x # aes)" using Q(1) by auto
    moreover have "\<forall>k \<in> Q. \<exists>q req resp. (q, req) \<in> set (x # aes) \<and> (k, req, resp) \<in> A \<and> aer_success resp"
      using Q(3) by (meson list.set_intros(2))
    ultimately show ?thesis by metis
  qed
qed

text \<open>The acknowledgments that a writing leader counts choose its entry.\<close>

lemma write_chosen:
  assumes S: "sim crc a c" and at: "c_nodes c i = Some (n, s)" and wr: "c_writing c i = Some (index, aes)"
    and rs: "list_all2 (\<lambda>(p, req) r. case r of None \<Rightarrow> True | Some resp \<Rightarrow> (ni_id p, req, resp) \<in> c_acked c) aes rs"
    and quor: "quorum (n_config n) \<le> 1 + successes (map2 (\<lambda>(p, req) r. (ni_id p, ae_answer r)) aes rs)"
  shows "chosen (members c) a (unat (n_term n)) (unat index)"
proof -
  let ?t = "unat (n_term n)"
  have "writes a (c_sent c) i n (Some (index, aes))" using simD(3) [OF S at] wr by (simp add: node_sim_def)
  then have w: "own a ?t (unat index)" "(i, ?t, unat index) \<in> p_acks a" "map fst aes = n_peers n"
    "\<forall>(p, req) \<in> set aes. ae_term req = n_term n \<and> (unmatched req \<or> unat (ae_prev_log_index req) + length (ae_entries req) = unat index)"
    unfolding writes_def option.case prod.case by blast+
  have na: "node_at c i (n, s)" using simD(2) [OF S] at by (simp add: cluster_inv_def)
  then have mem: "member_ok (members c) i (n_config n)" and pe: "cc_peers (n_config n) = n_peers n"
    by (auto simp: node_at_def of_config_def)
  have ids: "map (ni_id \<circ> fst) aes = map ni_id (n_peers n)" unfolding w(3) [symmetric] by simp
  then have dist: "distinct (map (ni_id \<circ> fst) aes)" using mem pe by (simp add: member_ok_def)
  obtain Q where Q: "Q \<subseteq> (ni_id \<circ> fst) ` set aes" "card Q = successes (map2 (\<lambda>(p, req) r. (ni_id p, ae_answer r)) aes rs)"
    "\<forall>k \<in> Q. \<exists>p req resp. (p, req) \<in> set aes \<and> (k, req, resp) \<in> c_acked c \<and> aer_success resp"
    using acked_quorum [OF rs dist] by blast
  have "(ni_id \<circ> fst) ` set aes = ni_id ` set (n_peers n)" using ids by (metis list.set_map)
  then have maj: "majority (members c) (insert i Q)"
    by (intro quorum_majority [OF mem]) (use Q quor pe in simp_all)
  have "(k, ?t, unat index) \<in> p_acks a" if k: "k \<in> Q" for k
  proof -
    obtain p req resp where r: "(p, req) \<in> set aes" "(k, req, resp) \<in> c_acked c" "aer_success resp" using Q(3) k by blast
    then have "\<not> unmatched req" "(k, unat (ae_term req), unat (ae_prev_log_index req) + length (ae_entries req)) \<in> p_acks a"
      using simD(8) [OF S r(2)] by (simp_all add: acked_ok_def)
    then show ?thesis using w(4) r(1) by auto
  qed
  then show ?thesis using w(1,2) maj unfolding chosen_def by blast
qed

lemma sim_commit:
  assumes S: "sim crc a c" and at: "c_nodes c i = Some (n, s)" and wr: "c_writing c i = Some (index, aes)"
    and trig: "n_entries_since_snapshot n + 1 < n_snapshot_trigger n"
    and rs: "list_all2 (\<lambda>(p, req) r. case r of None \<Rightarrow> True | Some resp \<Rightarrow> (ni_id p, req, resp) \<in> c_acked c) aes rs"
    and run: "client_write_finish crc env index (map2 (\<lambda>(p, req) r. (ni_id p, ae_answer r)) aes rs) [] (n, s) = (res, (n', s'))"
    and c': "c' = c\<lparr>c_nodes := (c_nodes c)(i \<mapsto> (n', s')), c_writing := (c_writing c)(i := None),
      c_returned := (if is_ok res then insert (n_entries n ! (unat index - 1)) (c_returned c) else c_returned c)\<rparr>"
    and inv': "cluster_inv c'"
  shows "\<exists>a'. proto_steps (members c) a a' \<and> sim crc a' c'"
proof -
  have ns: "node_sim crc a c i (n, s)" using simD(3) [OF S at] .
  have l: "log_sim crc (members c) a i n s" using ns by (simp add: node_sim_def)
  have wait: "(c_waiting c)(i := None) = c_waiting c" using simD(10) [OF S, of i] wr by auto
  from client_write_finish_run [OF log_sim_facts(1) [OF l] trig run] show ?thesis
  proof (elim disjE conjE)
    assume "calm crc n (n', s')" "\<not> is_ok res"
    then show ?thesis by (intro sim_calm [OF S at _ inv']) (use c' wait in simp_all)
  next
    let ?m = "n'\<lparr>n_commit_index := n_commit_index n, n_entries_since_snapshot := n_entries_since_snapshot n\<rparr>"
    assume ok: "res = Ok index" "n_commit_index n' = index" and calm: "calm crc n (?m, s')"
      and quor: "quorum (n_config n) \<le> 1 + successes (map2 (\<lambda>(p, req) r. (ni_id p, ae_answer r)) aes rs)"
    let ?t = "unat (n_term n)" and ?i = "unat index"
    have ch: "chosen (members c) a ?t ?i" by (rule write_chosen [OF S at wr rs quor])
    have "writes a (c_sent c) i n (Some (index, aes))" using ns wr by (simp add: node_sim_def)
    then have w: "n_role n = Leader" "?i = length (n_entries n)" "own a ?t ?i"
      unfolding writes_def option.case prod.case by blast+
    have h: "p_hist a ?t = Some (n_entries n)" by (rule hist_of_leader [OF S at w(1)])
    let ?a = "a\<lparr>p_term := (p_term a)(i := unat (n_term ?m))\<rparr>"
    have b: "proto_steps (members c) a ?a" "log_sim crc (members c) ?a i ?m s'" using log_sim_calm [OF l calm] by blast+
    have g: "grows a ?a" using steps_grow [OF b(1) simD(1) [OF S]] by simp
    have same: "n_log n' = n_log n" "n_term n \<le> n_term n'" "n_role n' = Leader \<longrightarrow> n_role n = Leader \<and> n_term n' = n_term n"
      using calm by (simp_all add: calm_def)
    have rep: "node_rep crc n' s'" by (rule node_rep_cong [of crc ?m s']) (use b(2) in \<open>simp_all add: log_sim_def\<close>)
    have "holds_up_to a ?t ?i (n_entries n)"
      unfolding holds_up_to_def using h w(2) by (intro exI [of _ "n_entries n"]) (simp add: agree_def)
    then have "prefix_ok (members c) a ?t ?i (n_entries n)" unfolding prefix_ok_def using ch by blast
    then have "prefix_ok (members c) ?a (unat (n_term n')) ?i (n_entries n)"
      by (rule prefix_ok_grows [OF g]) (use same in \<open>simp add: u64_le_iff\<close>)
    then have l': "log_sim crc (members c) ?a i n' s'" using b(2) rep ok same by (simp add: log_sim_def)
    let ?e = "n_entries n ! (?i - 1)"
    have "returned_ok (members c) a ?e"
    proof -
      have i: "0 < ?i" "eterm ?e = ?t" using w(3) h by (auto simp: own_def)
      have "log_wf (n_log n)" "rl_snapshot_index (n_log n) = 0" using log_sim_facts(2) [OF l] l by (simp_all add: log_sim_def)
      then have "unat (le_index ?e) = ?i" using i(1) w(2) by (simp add: log_wf_def)
      with i ch h w(2) show ?thesis by (auto simp: returned_ok_def)
    qed
    then have ret: "returned_ok (members c) ?a ?e" by (rule returned_ok_grows [OF g])
    have "sim crc ?a c'"
    proof (rule sim_update [OF S at _ inv' b(1), where w = None and v = None])
      show "p_hist ?a (unat (n_term n')) = Some (n_entries n')" if "n_role n' = Leader" using that same h by simp
      show "x \<in> c_returned c \<or> returned_ok (members c) ?a x" if "x \<in> c_returned c'" for x
        using that c' ok(1) ret by auto
    qed (use c' l' wait in \<open>auto simp: stands_def writes_def votes_of_def\<close>)
    with b(1) show ?thesis by blast
  qed
qed

section \<open>The simulation\<close>

lemma handle_vote:
  "handle_msg crc env net (MsgRequestVote req) (n, s) = (Ok (ReplyRequestVote resp), ns') \<Longrightarrow>
   on_request_vote env req (n, s) = (Ok resp, ns')"
  by (auto simp: handle_msg_def reply_with_def and_then_Ok_iff)

lemma handle_entries:
  "handle_msg crc env net (MsgAppendEntries req) (n, s) = (Ok (ReplyAppendEntries resp), ns') \<Longrightarrow>
   on_append_entries crc env req (n, s) = (Ok resp, ns')"
  by (auto simp: handle_msg_def reply_with_def and_then_Ok_iff)

lemma sim_step:
  assumes S: "sim crc a c" and step: "replica_step crc c c'"
  shows "\<exists>a'. proto_steps (members c) a a' \<and> sim crc a' c'"
proof -
  have inv': "cluster_inv c'"
  proof (rule replica_step_inv [OF step simD(2) [OF S]])
    show "node_rep crc n s" if "c_nodes c i = Some (n, s)" for i n s
      using simD(3) [OF S that] by (simp add: node_sim_def log_sim_def)
    show "c_waiting c i = None" if "c_writing c i \<noteq> None" for i using simD(10) [OF S that] .
  qed
  show ?thesis
    using step
  proof cases
    case (vote i n s req env net resp ns')
    then show ?thesis using sim_vote [OF S _ _ _ handle_vote _ inv'] by (metis surj_pair)
  next
    case (entries i n s req env net resp ns')
    then show ?thesis using sim_entries [OF S _ _ _ _ handle_entries _ inv'] by (metis surj_pair)
  next
    case (beat i n s env net ns')
    then show ?thesis using sim_beat [OF S _ _ _ _ _ inv'] by (metis surj_pair)
  next
    case (campaign i n s env req ns')
    then show ?thesis using sim_campaign [OF S _ _ _ _ _ inv'] by (metis surj_pair)
  next
    case (elect i n s req rs env ns')
    then show ?thesis using sim_elect [OF S _ _ _ _ inv'] by (metis surj_pair)
  next
    case (propose i n s dat index aes snaps ns')
    then show ?thesis using sim_propose [OF S _ _ _ _ _ inv'] by (metis surj_pair)
  next
    case (commit i n s index aes rs env res ns')
    then show ?thesis using sim_commit [OF S _ _ _ _ _ _ inv'] by (metis surj_pair)
  next
    case (restart i n s env n' s')
    then show ?thesis using sim_restart [OF S _ _ _ inv'] by blast
  qed
qed

end
