(* ===== verification/Durability.thy ===== *)
theory Durability
  imports Write_Phases
begin

text \<open>
  What a loss of power leaves of the replicated log. The WAL under it syncs every record, so the log is on disk
  when an operation returns, and a node that starts after the loss has it; term and vote are not synced, and
  nothing is said of them.
\<close>

section \<open>The log after a loss of power\<close>

definition log_synced :: "raft_log \<Rightarrow> fs \<Rightarrow> bool" where
  "log_synced l s \<longleftrightarrow> wal_synced (rl_wal l) s \<and> wc_sync_writes (rl_config l)"

lemma wal_rep_power_loss:
  assumes rep: "wal_rep crc w s sealed act" and sy: "wal_synced w s"
  defines "w' \<equiv> w\<lparr>w_checkpoint := (w_checkpoint w)\<lparr>cp_sequence := checkpoint_cell.stored (w_dir w) (power_loss s)\<rparr>\<rparr>"
  shows "wal_rep crc w' (power_loss s) sealed act \<and> wal_synced w' (power_loss s)"
proof -
  have "seg_files crc (w_dir w) (sealed @ [(seg_id (w_active w), act)]) (power_loss s)"
    using rep sy by (fastforce simp: wal_rep_def seg_files_def fs_laws wal_synced_def)
  moreover have "dir_exact (w_dir w) (map fst sealed @ [seg_id (w_active w)]) (power_loss s)"
    using rep by (simp add: wal_rep_def dir_exact_def fs_laws fs_durable_None_iff del: not_None_eq)
  moreover have "fs_durable (power_loss s) = fs_content (power_loss s)"
    by (auto simp: power_loss_def fs_durable_def fs_content_def map_of_map_snd option.map_comp o_def)
  ultimately show ?thesis
    using rep by (simp add: wal_rep_def w'_def checkpoint_in_def wal_synced_def active_ok_def)
qed

lemma log_power_loss:
  assumes rep: "raft_log_rep crc l s" and sy: "log_synced l s"
  shows "\<exists>l'. raft_log_open crc (rl_config l) (power_loss s) = (Ok l', power_loss s) \<and> raft_log_rep crc l' (power_loss s) \<and>
    log_synced l' (power_loss s) \<and> rl_entries l' = rl_entries l \<and> rl_snapshot_index l' = rl_snapshot_index l \<and>
    rl_snapshot_term l' = rl_snapshot_term l"
proof -
  obtain L where L: "wal_holds crc (rl_wal l) s L" "L = [] \<longrightarrow> w_next_sequence (rl_wal l) = 1"
    "replay (map data L) ([], 0, 0) = (rl_entries l, rl_snapshot_index l, rl_snapshot_term l)"
    using rep by (auto simp: raft_log_rep_def)
  obtain sealed act where w: "wal_rep crc (rl_wal l) s sealed act" "L = concat (map snd sealed) @ act"
    using L(1) by (auto simp: wal_holds_def)
  let ?w = "(rl_wal l)\<lparr>w_checkpoint := (w_checkpoint (rl_wal l))\<lparr>cp_sequence := checkpoint_cell.stored (rl_dir l) (power_loss s)\<rparr>\<rparr>"
  let ?l = "l\<lparr>rl_wal := ?w\<rparr>"
  have "wal_rep crc ?w (power_loss s) sealed act" "wal_synced ?w (power_loss s)"
    using wal_rep_power_loss [OF w(1)] sy by (simp_all add: log_synced_def)
  moreover from this(1) have "wal_holds crc ?w (power_loss s) L" using w(2) by (auto simp: wal_holds_def)
  moreover have "log_wf ?l" using rep by (simp add: raft_log_rep_def log_wf_def last_index_def)
  ultimately have "raft_log_rep crc ?l (power_loss s) \<and> log_synced ?l (power_loss s)"
    using L(2,3) sy by (auto simp: raft_log_rep_def log_synced_def)
  with raft_log_open_rep [of crc ?l "power_loss s"] show ?thesis by (intro exI [of _ ?l]) simp
qed

section \<open>Every operation syncs what it writes\<close>

lemma record_synced:
  assumes rep: "raft_log_rep crc l s" and sy: "log_synced l s" and b: "log_budget l (Suc k) m" and len: "length d \<le> m"
    and run: "wal_append crc d (rl_wal l, s) = (r, (w', s'))" and cfg: "w_config w' = rl_config l"
  shows "wal_synced w' s' \<and> wc_sync_writes (w_config w')"
proof -
  obtain L where "wal_holds crc (rl_wal l) s L" using rep by (auto simp: raft_log_rep_def)
  then obtain sealed act where "wal_rep crc (rl_wal l) s sealed act" by (auto simp: wal_holds_def)
  moreover have "wal_room (rl_wal l) d" by (rule wal_budget_room [of _ k m]) (use b len in \<open>simp_all add: log_budget_def\<close>)
  ultimately show ?thesis using wal_append_synced [OF _ _ _ _ run] sy cfg by (simp add: log_synced_def)
qed

lemma append_synced:
  assumes rep: "raft_log_rep crc l s" and sy: "log_synced l s" and b: "log_budget l (Suc k) m" and d: "17 + length d \<le> m"
    and run: "raft_log_append crc t d (l, s) = (r, (l', s'))"
  shows "log_synced l' s'"
proof -
  obtain l1 s1 where st: "raft_log_append crc t d (l, s) = (Ok (last_index l + 1), (l1, s1))" "rl_config l1 = rl_config l"
    using log_append_step [OF rep b d] by blast
  obtain rw where "wal_append crc (encode_append \<lparr>le_term = t, le_index = last_index l + 1, le_data = d\<rparr>) (rl_wal l, s) = (rw, (rl_wal l1, s1))"
    using st(1) by (cases "wal_append crc (encode_append \<lparr>le_term = t, le_index = last_index l + 1, le_data = d\<rparr>) (rl_wal l, s)" rule: prod.exhaust;
        cases "fst (wal_append crc (encode_append \<lparr>le_term = t, le_index = last_index l + 1, le_data = d\<rparr>) (rl_wal l, s))")
      (auto simp: raft_log_append_def Let_def on_wal_def on_field_def)
  from record_synced [OF rep sy b _ this st(2)] d run st(1) show ?thesis by (simp add: log_synced_def)
qed

lemma truncate_synced:
  assumes rep: "raft_log_rep crc l s" and sy: "log_synced l s" and b: "log_budget l (Suc k) m"
    and range: "rl_snapshot_index l < i" "i \<le> last_index l" and run: "truncate_from crc i (l, s) = (r, (l', s'))"
  shows "log_synced l' s'"
proof -
  obtain l1 s1 where st: "truncate_from crc i (l, s) = (Ok (), (l1, s1))" "rl_config l1 = rl_config l"
    using log_truncate_step [OF rep b range] by blast
  have "\<not> (i \<le> rl_snapshot_index l \<or> last_index l < i)" using range by (simp add: not_le not_less)
  then obtain rw where "wal_append crc (encode_truncate i) (rl_wal l, s) = (rw, (rl_wal l1, s1))"
    using st(1) by (cases "wal_append crc (encode_truncate i) (rl_wal l, s)" rule: prod.exhaust;
        cases "fst (wal_append crc (encode_truncate i) (rl_wal l, s))")
      (auto simp: truncate_from_def Let_def on_wal_def on_field_def)
  from record_synced [OF rep sy b _ this st(2)] b run st(1) show ?thesis by (simp add: log_synced_def log_budget_def)
qed

lemma on_log_log: "on_log f (n, s) = (r, (n', s')) \<Longrightarrow> f (n_log n, s) = (r, (n_log n', s'))"
  by (auto simp: on_log_def on_field_def split: prod.splits)

lemma ignored_on_log:
  assumes "ignore_result (on_log f (n, s)) = (r, (n', s'))"
  obtains q where "f (n_log n, s) = (q, (n_log n', s'))"
proof -
  obtain q ns where q: "on_log f (n, s) = (q, ns)" by (metis surj_pair)
  then have "ns = (n', s')" using assms by (auto simp: ignore_result_def split: res.splits)
  then show ?thesis using that on_log_log q by metis
qed

lemma ae_entry_synced:
  assumes rep: "node_rep crc n s" and sy: "log_synced (n_log n) s" and b: "log_budget (n_log n) (b + 2) m" and d: "17 + length (le_data e) \<le> m"
    and i: "unat (le_index e) = unat (rl_snapshot_index (n_log n)) + 1 + k" and k: "k \<le> length (rl_entries (n_log n))"
    and run: "ae_entry crc e (n, s) = (r, (n', s'))"
  shows "log_synced (n_log n') s'"
proof -
  let ?l = "n_log n" and ?xs = "rl_entries (n_log n)"
  have wf: "log_wf ?l" and lr: "raft_log_rep crc ?l s" using node_rep_log [OF rep] by simp_all
  note ta = term_at_offset [OF wf i]
  have li: "unat (last_index ?l) = unat (rl_snapshot_index ?l) + length ?xs"
    using log_wf_last_index [OF wf] b by (simp add: log_budget_def)
  have b1: "log_budget ?l (Suc b) m" and b2: "log_budget ?l (Suc (Suc b)) m" using log_budget_mono [OF b, of "Suc b"] b by simp_all
  consider (same) "k < length ?xs" "le_term (?xs ! k) = le_term e"
    | (conflict) "k < length ?xs" "le_term (?xs ! k) \<noteq> le_term e" | (new) "k = length ?xs"
    using k by fastforce
  then show ?thesis
  proof cases
    case same
    then show ?thesis using run sy by (simp add: ae_entry_def ta)
  next
    case conflict
    have range: "rl_snapshot_index ?l < le_index e" "le_index e \<le> last_index ?l"
      using i li conflict(1) by (simp_all add: u64_order)
    obtain l1 s1 where t: "ignore_result (on_log (truncate_from crc (le_index e)) (n, s)) = (Ok (), (n\<lparr>n_log := l1\<rparr>, s1))"
      "node_rep crc (n\<lparr>n_log := l1\<rparr>) s1" "log_budget l1 (Suc b) m"
      using ae_truncate_step [OF rep b2 range] by blast
    obtain q1 where "truncate_from crc (le_index e) (?l, s) = (q1, (n_log (n\<lparr>n_log := l1\<rparr>), s1))"
      by (rule ignored_on_log [OF t(1)])
    then have "truncate_from crc (le_index e) (?l, s) = (q1, (l1, s1))" by simp
    then have sy1: "log_synced l1 s1" using truncate_synced [OF lr sy b2 range] by blast
    have "ignore_result (on_log (raft_log_append crc (le_term e) (le_data e)) (n\<lparr>n_log := l1\<rparr>, s1)) = (r, (n', s'))"
      using run conflict t(1) by (simp add: ae_entry_def ta)
    then obtain q2 where "raft_log_append crc (le_term e) (le_data e) (n_log (n\<lparr>n_log := l1\<rparr>), s1) = (q2, (n_log n', s'))"
      by (rule ignored_on_log)
    then have "raft_log_append crc (le_term e) (le_data e) (l1, s1) = (q2, (n_log n', s'))" by simp
    moreover have "raft_log_rep crc l1 s1" using node_rep_log [OF t(2)] by simp
    ultimately show ?thesis using append_synced [OF _ sy1 t(3) d] by blast
  next
    case new
    then have "ignore_result (on_log (raft_log_append crc (le_term e) (le_data e)) (n, s)) = (r, (n', s'))"
      using run by (simp add: ae_entry_def ta)
    then obtain q where "raft_log_append crc (le_term e) (le_data e) (?l, s) = (q, (n_log n', s'))"
      by (rule ignored_on_log)
    then show ?thesis using append_synced [OF lr sy b1 d] by blast
  qed
qed

lemma ae_loop_synced:
  assumes "node_rep crc n s" and "log_synced (n_log n) s"
    and "log_budget (n_log n) (2 * length es + b) m" and "\<forall>e \<in> set es. 17 + length (le_data e) \<le> m"
    and "\<forall>j < length es. unat (le_index (es ! j)) = unat (rl_snapshot_index (n_log n)) + 1 + k + j"
    and "k \<le> length (rl_entries (n_log n))" and "ae_loop crc es (n, s) = (r, (n', s'))"
  shows "log_synced (n_log n') s'"
  using assms
proof (induction es arbitrary: n s k)
  case (Cons e es)
  have b: "log_budget (n_log n) ((2 * length es + b) + 2) m" using Cons.prems(3) by (simp add: algebra_simps)
  have i: "unat (le_index e) = unat (rl_snapshot_index (n_log n)) + 1 + k" using Cons.prems(5) by fastforce
  have d: "17 + length (le_data e) \<le> m" using Cons.prems(4) by simp
  obtain l1 s1 where a: "ae_entry crc e (n, s) = (Ok (), (n\<lparr>n_log := l1\<rparr>, s1))" "node_rep crc (n\<lparr>n_log := l1\<rparr>) s1"
      "rl_entries l1 = place k e (rl_entries (n_log n))" "rl_snapshot_index l1 = rl_snapshot_index (n_log n)"
      "log_budget l1 (2 * length es + b) m"
    using ae_entry_rep [OF Cons.prems(1) b d i Cons.prems(6)] by blast
  have sy1: "log_synced l1 s1"
    using ae_entry_synced [OF Cons.prems(1,2) b d i Cons.prems(6) a(1)] by simp
  have "\<forall>j < length es. unat (le_index (es ! j)) = unat (rl_snapshot_index (n_log n)) + 1 + Suc k + j"
    using Cons.prems(5) by (auto dest: spec [of _ "Suc j" for j])
  then show ?case
    using Cons.IH [OF a(2), of "Suc k"] a sy1 Cons.prems(4,7) length_place [OF Cons.prems(6)] by auto
qed simp

section \<open>Handlers that leave the log alone\<close>

text \<open>They write the state file only, and the temporary file that becomes it.\<close>

definition spares :: "path \<Rightarrow> fs \<Rightarrow> fs \<Rightarrow> bool" where
  "spares p s s' \<longleftrightarrow> (\<forall>q. q \<noteq> p \<longrightarrow> q \<noteq> with_extension p ''tmp'' \<longrightarrow>
      fs_content s' q = fs_content s q \<and> fs_durable s' q = fs_durable s q) \<and> (wf_fs s \<longrightarrow> wf_fs s')"

lemma spares_refl [simp]: "spares p s s"
  by (simp add: spares_def)

lemma spares_trans: "spares p s s' \<Longrightarrow> spares p s' s'' \<Longrightarrow> spares p s s''"
  by (simp add: spares_def)

lemma spares_files: "files s' = files s \<Longrightarrow> spares p s s'"
  using fs_content_eqI [of s' s] fs_durable_eqI [of s' s] by (simp add: spares_def wf_fs_def)

lemma io_call_spares:
  assumes act: "\<And>t. spares p t (snd (act t))" and torn: "\<And>k t. spares p t (torn k t)"
  shows "spares p s (snd (io_call act torn s))"
proof -
  have pre: "spares p s (s\<lparr>faults := fl\<rparr>)" for fl by (rule spares_files) simp
  show ?thesis
    using act torn spares_trans [OF pre act] spares_trans [OF pre torn]
    by (cases "faults s"; cases "hd (faults s)") (simp_all add: io_call_def Let_def pre)
qed

lemma write_rename_spares: "spares p s (snd (write_rename (with_extension p ''tmp'') p bs s))"
proof -
  let ?t = "with_extension p ''tmp''"
  have w: "spares p s (snd (fs_write ?t bs s))" for s
    unfolding fs_write_def by (rule io_call_spares) (simp_all add: spares_def replace_file_def fs_laws)
  have r: "spares p s (snd (fs_rename ?t p s))" for s
    unfolding fs_rename_def by (rule io_call_spares) (simp_all add: spares_def fs_laws split: option.split)
  obtain q s1 where q: "fs_write ?t bs s = (q, s1)" by fastforce
  then have "spares p s s1" using w [of s] by simp
  with q r [of s1] show ?thesis by (cases q) (auto simp: write_rename_def intro: spares_trans)
qed

definition apart :: "raft_node \<Rightarrow> fs \<Rightarrow> raft_node \<times> fs \<Rightarrow> bool" where
  "apart n0 s0 = (\<lambda>(n, s). n_log n = n_log n0 \<and> ps_path (n_ps n) = ps_path (n_ps n0) \<and> spares (ps_path (n_ps n0)) s0 s)"

abbreviation keeps_apart :: "raft_node \<Rightarrow> fs \<Rightarrow> ('a, 'e) res \<times> (raft_node \<times> fs) \<Rightarrow> bool" where
  "keeps_apart n0 s0 \<equiv> outcome (apart n0 s0) (\<lambda>_. True)"

lemmas apart_and_then = outcome_and_then [where Q = "\<lambda>_. True" and P = "apart n0 s0" for n0 s0]

named_theorems apart_rules \<open>the handlers keep \<open>apart\<close>\<close>

lemma apart_refl: "apart n s (n, s)"
  by (simp add: apart_def)

lemma apart_fields [apart_rules]:
  assumes "apart n0 s0 (n, s)"
  shows "apart n0 s0 (n\<lparr>n_match_index := mi, n_next_index := ni\<rparr>, s)" and "apart n0 s0 (n\<lparr>n_next_index := ni\<rparr>, s)"
    and "apart n0 s0 (n\<lparr>n_commit_index := ci, n_entries_since_snapshot := es\<rparr>, s)" and "apart n0 s0 (n\<lparr>n_last_heartbeat := h\<rparr>, s)"
    and "apart n0 s0 (n\<lparr>n_role := r\<rparr>, s)" and "apart n0 s0 (become_leader n, s)"
    and "apart n0 s0 (n\<lparr>n_role := r, n_last_heartbeat := h, n_election_timeout := et\<rparr>, s)"
    and "apart n0 s0 (become_follower_with_leader env ld n, s)"
  using assms by (simp_all add: apart_def become_follower_with_leader_def become_leader_def Let_def)

lemma on_ps_apart [apart_rules]:
  assumes q: "apart n0 s0 (n, s)"
  shows "keeps_apart n0 s0 (on_ps (advance_term t) (n, s))" and "keeps_apart n0 s0 (on_ps (record_vote c) (n, s))"
proof -
  have persist: "p' = p \<and> spares (ps_path (n_ps n0)) s0 s'"
    if path: "ps_path p = ps_path (n_ps n)" and run: "ps_persist (p, s) = (r, (p', s'))" for p r p' s'
  proof -
    obtain rw s1 where w: "write_rename (with_extension (ps_path p) ''tmp'') (ps_path p)
        (ps_encode (ps_current_term p) (ps_voted_for p)) s = (rw, s1)" by (metis surj_pair)
    then have "spares (ps_path p) s s1" using write_rename_spares by (metis snd_conv)
    then have "spares (ps_path (n_ps n0)) s0 s1" using q path by (auto simp: apart_def intro: spares_trans)
    moreover have "p' = p \<and> s' = s1" using run w by (cases rw) (simp_all add: ps_persist_def io_def)
    ultimately show ?thesis by simp
  qed
  have q': "n_log n = n_log n0" "ps_path (n_ps n) = ps_path (n_ps n0)" using q by (simp_all add: apart_def)
  obtain r p' s' where a: "ps_persist ((n_ps n)\<lparr>ps_current_term := t, ps_voted_for := None\<rparr>, s) = (r, (p', s'))" by (metis surj_pair)
  from persist [OF _ a] a q' show "keeps_apart n0 s0 (on_ps (advance_term t) (n, s))"
    by (simp add: on_ps_def on_field_def advance_term_def outcome_def apart_def)
  obtain r p' s' where b: "ps_persist ((n_ps n)\<lparr>ps_voted_for := Some c\<rparr>, s) = (r, (p', s'))" by (metis surj_pair)
  from persist [OF _ b] b q' show "keeps_apart n0 s0 (on_ps (record_vote c) (n, s))"
    by (simp add: on_ps_def on_field_def record_vote_def outcome_def apart_def)
qed

lemma step_down_apart [apart_rules]: "apart n0 s0 (n, s) \<Longrightarrow> keeps_apart n0 s0 (step_down env t (n, s))"
  by (auto simp: step_down_def intro!: apart_and_then outcome_ignore apart_rules)

lemma on_request_vote_apart [apart_rules]: "apart n0 s0 (n, s) \<Longrightarrow> keeps_apart n0 s0 (on_request_vote env req (n, s))"
  by (auto simp: on_request_vote_def Let_def intro!: apart_and_then outcome_ignore apart_rules split: option.split)

lemma start_election_begin_apart [apart_rules]: "apart n0 s0 (n, s) \<Longrightarrow> keeps_apart n0 s0 (start_election_begin env (n, s))"
  by (auto simp: start_election_begin_def Let_def intro!: apart_and_then outcome_ignore apart_rules)

lemma count_votes_apart [apart_rules]: "apart n0 s0 ns \<Longrightarrow> keeps_apart n0 s0 (count_votes env rs v ns)"
  by (induction env rs v ns rule: count_votes.induct) (auto intro!: apart_and_then outcome_ignore apart_rules)

lemma start_election_finish_apart [apart_rules]: "apart n0 s0 ns \<Longrightarrow> keeps_apart n0 s0 (start_election_finish env rs ns)"
  by (auto simp: start_election_finish_def intro!: apart_and_then apart_rules split: option.split)

lemma send_heartbeats_apart [apart_rules]: "apart n0 s0 ns \<Longrightarrow> keeps_apart n0 s0 (send_heartbeats env net ns)"
proof -
  have h: "apart n0 s0 ns \<Longrightarrow> keeps_apart n0 s0 (heartbeat_answers env rs ns)" for rs ns
    by (induction env rs ns rule: heartbeat_answers.induct) (auto intro: apart_rules)
  show "apart n0 s0 ns \<Longrightarrow> ?thesis" by (cases ns) (simp add: send_heartbeats_def h)
qed

lemma ae_acks_counters:
  "n_entries_since_snapshot (fst ns) = es \<Longrightarrow> n_snapshot_trigger (fst ns) = tr \<Longrightarrow>
   outcome (\<lambda>ns. n_entries_since_snapshot (fst ns) = es \<and> n_snapshot_trigger (fst ns) = tr) (\<lambda>_. True) (ae_acks env i rs k ns)"
proof (induction env i rs k ns rule: ae_acks.induct)
  have down: "outcome (\<lambda>ns. n_entries_since_snapshot (fst ns) = es \<and> n_snapshot_trigger (fst ns) = tr) (\<lambda>_. True) (step_down env t (n, s))"
    if "n_entries_since_snapshot n = es" "n_snapshot_trigger n = tr" for env t n s
  proof -
    obtain q p s' where "advance_term t (n_ps n, s) = (q, (p, s'))" by (metis surj_pair)
    then show ?thesis
      using that by (cases q) (simp_all add: step_down_def on_ps_def on_field_def become_follower_with_leader_def ignore_result_def)
  qed
  case (2 env i p resp rs k n s)
  then have "outcome (\<lambda>ns. n_entries_since_snapshot (fst ns) = es \<and> n_snapshot_trigger (fst ns) = tr) (\<lambda>_. True)
      (and_then (step_down env (aer_term resp) (n, s)) (\<lambda>_ ns. (Ok (True, k), ns)))"
    by (intro outcome_and_then [OF down]) simp_all
  then show ?case using 2 by simp
qed auto

lemma client_write_finish_apart:
  assumes q: "apart n0 s0 (n, s)" and trig: "n_entries_since_snapshot n + 1 < n_snapshot_trigger n"
    and run: "client_write_finish crc env index rs [] (n, s) = (r, (n', s'))"
  shows "apart n0 s0 (n', s')"
proof -
  have acks: "apart n0 s0 ns \<Longrightarrow> keeps_apart n0 s0 (ae_acks env i rs k ns)" for i k ns
    by (induction env i rs k ns rule: ae_acks.induct) (auto simp: apart_fields intro!: apart_and_then step_down_apart)
  obtain ra n1 s1 where a: "ae_acks env index rs 1 (n, s) = (ra, (n1, s1))" by (metis surj_pair)
  have q1: "apart n0 s0 (n1, s1)" using acks [OF q, of index 1] a by (simp add: outcome_def)
  have t1: "n_entries_since_snapshot n1 = n_entries_since_snapshot n" "n_snapshot_trigger n1 = n_snapshot_trigger n"
    using ae_acks_counters [of "(n, s)" _ _ env index rs 1] a by (simp_all add: outcome_def)
  show ?thesis
    using run a t1 trig q1 by (cases ra) (auto simp: client_write_finish_def Let_def intro: apart_rules split: if_splits)
qed

lemma apart_synced:
  assumes rep: "node_rep crc n s" and sy: "log_synced (n_log n) s" and q: "apart n s (n', s')"
  shows "log_synced (n_log n') s'"
proof -
  have b: "butlast (ps_path (n_ps n)) = n_data_dir n" "butlast (with_extension (ps_path (n_ps n)) ''tmp'') = n_data_dir n"
    using rep by (simp_all add: node_rep_def ps_synced_def)
  have ne: "rl_dir (n_log n) \<noteq> n_data_dir n" using rl_dir_node [OF rep] by (simp add: path_join_def)
  have "fs_durable s' p = fs_durable s p \<and> fs_content s' p = fs_content s p" if "butlast p = rl_dir (n_log n)" for p
  proof -
    have "p \<noteq> ps_path (n_ps n)" "p \<noteq> with_extension (ps_path (n_ps n)) ''tmp''" using that b ne by auto
    then show ?thesis using q by (simp add: apart_def spares_def)
  qed
  then show ?thesis using q sy by (simp add: apart_def log_synced_def wal_synced_def)
qed

section \<open>Handlers that write the log\<close>

lemma in_term_synced:
  assumes rep: "node_rep crc n s" and sy: "log_synced (n_log n) s"
    and run: "(if n_term n < t then ignore_result (on_ps (advance_term t) (n, s)) else (Ok (), (n, s))) = (Ok (), (n1, s1))"
  shows "log_synced (n_log n1) s1"
proof -
  have "keeps_apart n s (if n_term n < t then ignore_result (on_ps (advance_term t) (n, s)) else (Ok (), (n, s)))"
    by (simp add: apart_refl apart_rules)
  then have "apart n s (n1, s1)" unfolding run by simp
  then show ?thesis by (rule apart_synced [OF rep sy])
qed

lemma on_append_entries_synced:
  assumes rep: "node_rep crc n s" and sy: "log_synced (n_log n) s" and t: "n_term n \<le> ae_term req"
    and cons: "ae_consistency req n = None" and snap: "rl_snapshot_index (n_log n) \<le> ae_prev_log_index req"
    and num: "numbered_from (ae_prev_log_index req) (ae_entries req)"
    and b: "log_budget (n_log n) (2 * length (ae_entries req)) m" and d: "\<forall>e \<in> set (ae_entries req). 17 + length (le_data e) \<le> m"
    and run: "on_append_entries crc env req (n, s) = (r, (n', s'))"
  shows "log_synced (n_log n') s'"
proof -
  let ?n = "followed env (ae_term req) (ae_leader_id req) n"
  let ?k = "unat (ae_prev_log_index req) - unat (rl_snapshot_index (n_log n))"
  have k: "?k \<le> length (rl_entries (n_log n))"
    using on_append_entries_rep [OF rep t cons snap num b d] by blast
  obtain s1 where s1: "(if n_term n < ae_term req then ignore_result (on_ps (advance_term (ae_term req)) (n, s)) else (Ok (), (n, s))) =
      (Ok (), (in_term (ae_term req) n, s1))" "node_rep crc ?n s1"
    using node_followed [OF rep] by blast
  have sy1: "log_synced (n_log ?n) s1" using in_term_synced [OF rep sy s1(1)] by simp
  have num': "\<forall>j < length (ae_entries req). unat (le_index (ae_entries req ! j)) = unat (rl_snapshot_index (n_log ?n)) + 1 + ?k + j"
    using num snap by (simp add: numbered_from_def u64_order)
  have b': "log_budget (n_log ?n) (2 * length (ae_entries req) + 0) m" and k': "?k \<le> length (rl_entries (n_log ?n))"
    using b k by simp_all
  obtain l' s2 where lp: "ae_loop crc (ae_entries req) (?n, s1) = (Ok (), (?n\<lparr>n_log := l'\<rparr>, s2))"
    using ae_loop_rep [OF s1(2) b' d num' k'] by blast
  have "ae_consistency req ?n = None" using cons ae_consistency_cong [of ?n n req] by simp
  then have "on_append_entries crc env req (n, s) =
      (Ok \<lparr>aer_term = ae_term req, aer_success = True, aer_conflict_index = 0, aer_conflict_term = 0\<rparr>,
        (committed (ae_leader_commit req) (?n\<lparr>n_log := l'\<rparr>), s2))"
    using t s1(1) lp by (simp add: on_append_entries_def not_less followed_def [symmetric] committed_def Let_def max_absorb2)
  then have "n_log n' = l' \<and> s' = s2" using run by auto
  with ae_loop_synced [OF s1(2) sy1 b' d num' k' lp] show ?thesis by simp
qed

lemma on_append_entries_other_apart:
  assumes rep: "node_rep crc n s" and no: "ae_term req < n_term n \<or> ae_consistency req n \<noteq> None"
    and run: "on_append_entries crc env req (n, s) = (r, (n', s'))"
  shows "apart n s (n', s')"
proof (cases "ae_term req < n_term n")
  case True
  then show ?thesis using run apart_refl [of n s] by (simp add: on_append_entries_def)
next
  case False
  let ?n = "followed env (ae_term req) (ae_leader_id req) n"
  obtain s1 where s1: "(if n_term n < ae_term req then ignore_result (on_ps (advance_term (ae_term req)) (n, s)) else (Ok (), (n, s))) =
      (Ok (), (in_term (ae_term req) n, s1))"
    using node_followed [OF rep] by blast
  have "keeps_apart n s (if n_term n < ae_term req then ignore_result (on_ps (advance_term (ae_term req)) (n, s)) else (Ok (), (n, s)))"
    by (simp add: apart_refl apart_rules)
  then have "apart n s (in_term (ae_term req) n, s1)" unfolding s1 by simp
  then have a: "apart n s (?n, s1)" unfolding followed_def by (rule apart_rules)
  obtain resp where "ae_consistency req ?n = Some resp"
    using no False ae_consistency_cong [of ?n n req] by (cases "ae_consistency req ?n") auto
  then have "(n', s') = (?n, s1)"
    using run False s1 by (simp add: on_append_entries_def followed_def [symmetric] Let_def)
  with a show ?thesis by simp
qed

lemma client_write_begin_synced:
  assumes rep: "node_rep crc n s" and sy: "log_synced (n_log n) s" and b: "log_budget (n_log n) (Suc k) m" and d: "17 + length dat \<le> m"
    and run: "client_write_begin crc dat (n, s) = (Ok q, (n', s'))"
  shows "log_synced (n_log n') s'"
proof -
  obtain l' s1 where a: "raft_log_append crc (n_term n) dat (n_log n, s) = (Ok (last_index (n_log n) + 1), (l', s1))"
    using log_append_step [OF _ b d] node_rep_log [OF rep] by blast
  have "n_log n' = l' \<and> s' = s1"
    using run a by (auto simp: client_write_begin_def on_log_def on_field_def split: if_splits res.splits prod.splits)
  then show ?thesis using append_synced [OF _ sy b d a] node_rep_log [OF rep] by simp
qed

text \<open>The log is on disk; the node that starts on what a loss of power leaves has it.\<close>

lemma synced_survives:
  assumes rep: "node_rep crc n s" and sy: "log_synced (n_log n) s"
  shows "\<exists>n'. node_start crc env (n_config n) (power_loss s) = (Ok n', power_loss s) \<and>
    rl_entries (n_log n') = rl_entries (n_log n) \<and> rl_snapshot_index (n_log n') = rl_snapshot_index (n_log n) \<and>
    rl_snapshot_term (n_log n') = rl_snapshot_term (n_log n)"
proof -
  have h: "healthy (power_loss s)" and dir: "cc_data_dir (n_config n) = n_data_dir n"
    using node_rep_log [OF rep] rep by (simp_all add: node_rep_def)
  have lr: "raft_log_rep crc (n_log n) s" and cfg: "rl_config (n_log n) = node_wal_config (n_data_dir n)"
    using rep by (simp_all add: node_rep_def)
  obtain l' where l: "raft_log_open crc (node_wal_config (n_data_dir n)) (power_loss s) = (Ok l', power_loss s)"
    "rl_entries l' = rl_entries (n_log n)" "rl_snapshot_index l' = rl_snapshot_index (n_log n)"
    "rl_snapshot_term l' = rl_snapshot_term (n_log n)"
    using log_power_loss [OF lr sy] cfg by auto
  have "snapshot_cell.stored (n_data_dir n) (power_loss s) \<noteq> Panic"
    by (simp add: snapshot_cell.stored_def snapshot_view_def snapshot_parse_def Let_def split: option.split)
  with l h dir show ?thesis
    by (cases "snapshot_cell.stored (n_data_dir n) (power_loss s)")
      (simp_all add: node_start_def fs_healthy node_wal_config_def Let_def snapshot_load_healthy ps_open_healthy)
qed

end
