(* ===== verification/Stopping.thy ===== *)
theory Stopping
  imports Durability "HOL-Library.Sublist"
begin

text \<open>
  The death of a process inside an operation. Up to some call the file system does what it documents, in that call
  it may write part of the bytes, and from then on it does nothing: the disk is the one of the moment of death. An
  operation under such a schedule is the healthy run as long as it lives, and changes nothing once it is dead.
\<close>

section \<open>Operations that can be stopped\<close>

text \<open>They use up faults; nothing changes while the process is dead; before that they run as on a healthy disk.\<close>

definition stops :: "(fs \<Rightarrow> 'b \<times> fs) \<Rightarrow> bool" where
  "stops c \<longleftrightarrow> (\<forall>s. suffix (faults (snd (c s))) (faults s)) \<and>
     (\<forall>s. set (faults s) \<subseteq> {Refuse} \<longrightarrow> faults (snd (c s)) \<noteq> [] \<longrightarrow> files (snd (c s)) = files s) \<and>
     (\<forall>s k f rs. faults s = replicate k Pass @ f # rs \<longrightarrow>
        (\<exists>j. c s = apsnd (faults_update (\<lambda>_. replicate j Pass @ f # rs)) (c (s\<lparr>faults := []\<rparr>))) \<or>
        suffix (faults (snd (c s))) rs)"

lemma stopsD:
  assumes "stops c"
  shows "suffix (faults (snd (c s))) (faults s)"
    and "set (faults s) \<subseteq> {Refuse} \<Longrightarrow> faults (snd (c s)) \<noteq> [] \<Longrightarrow> files (snd (c s)) = files s"
    and "faults s = replicate k Pass @ f # rs \<Longrightarrow>
      (\<exists>j. c s = apsnd (faults_update (\<lambda>_. replicate j Pass @ f # rs)) (c (s\<lparr>faults := []\<rparr>))) \<or> suffix (faults (snd (c s))) rs"
  using assms unfolding stops_def by blast+

lemma stops_healthy: "stops c \<Longrightarrow> healthy s \<Longrightarrow> healthy (snd (c s))"
  using stopsD(1) [of c s] by simp

lemma healthy_eta: "healthy s \<Longrightarrow> s\<lparr>faults := []\<rparr> = s"
  by (cases s) simp

lemma faults_update_same: "faults s = fl \<Longrightarrow> s\<lparr>faults := fl\<rparr> = s"
  by (cases s) simp

lemma stops_return: "stops (\<lambda>s. (b, s))"
  unfolding stops_def
proof (intro conjI allI impI, goal_cases)
  case (3 s k f rs)
  then show ?case using faults_update_same [OF 3] by (intro disjI1 exI [of _ k]) simp
qed simp_all

lemma stops_Pair [simp]: "stops (Pair b)"
  using stops_return [of b] by simp

lemma suffix_nonempty: "suffix xs ys \<Longrightarrow> xs \<noteq> [] \<Longrightarrow> ys \<noteq> []"
  by auto

lemma stops_bind:
  assumes c: "stops c" and k: "\<And>b. stops (k b)"
  shows "stops (\<lambda>s. case c s of (b, t) \<Rightarrow> k b t)"
  unfolding stops_def
proof (intro conjI allI impI, goal_cases)
  case (1 s)
  obtain b t where t: "c s = (b, t)" by fastforce
  then have "suffix (faults t) (faults s)" using stopsD(1) [OF c, of s] by simp
  then show ?case using suffix_order.trans [OF stopsD(1) [OF k, of b t]] t by simp
next
  case (2 s)
  obtain b t where t: "c s = (b, t)" by fastforce
  have sf: "suffix (faults t) (faults s)" using stopsD(1) [OF c, of s] t by simp
  then have ref: "set (faults t) \<subseteq> {Refuse}" using 2(1) set_mono_suffix by blast
  have ne: "faults (snd (k b t)) \<noteq> []" using 2(2) t by simp
  then have "faults t \<noteq> []" using suffix_nonempty [OF stopsD(1) [OF k, of b t]] by simp
  then show ?case
    using stopsD(2) [OF c 2(1)] stopsD(2) [OF k ref ne] t by simp
next
  case (3 s l f rs)
  obtain b t where t: "c s = (b, t)" by fastforce
  from stopsD(3) [OF c 3] show ?case
  proof
    assume "suffix (faults (snd (c s))) rs"
    then have "suffix (faults (snd (k b t))) rs" using t stopsD(1) [OF k, of b t] by (auto intro: suffix_order.trans)
    then show ?thesis using t by simp
  next
    assume "\<exists>j. c s = apsnd (faults_update (\<lambda>_. replicate j Pass @ f # rs)) (c (s\<lparr>faults := []\<rparr>))"
    then obtain j where j: "c s = apsnd (faults_update (\<lambda>_. replicate j Pass @ f # rs)) (c (s\<lparr>faults := []\<rparr>))" by blast
    obtain t0 where t0: "c (s\<lparr>faults := []\<rparr>) = (b, t0)" "t = t0\<lparr>faults := replicate j Pass @ f # rs\<rparr>"
      using j t by (cases "c (s\<lparr>faults := []\<rparr>)") auto
    have "healthy t0" using stops_healthy [OF c, of "s\<lparr>faults := []\<rparr>"] t0(1) by simp
    then have "t\<lparr>faults := []\<rparr> = t0" using t0(2) by (cases t0) simp
    with stopsD(3) [OF k, of t j f rs b] t t0 show ?thesis by simp
  qed
qed

section \<open>Calls\<close>

named_theorems stop_rules \<open>operations that can be stopped\<close>

lemma stops_io_call:
  assumes act: "\<And>s fl. act (s\<lparr>faults := fl\<rparr>) = apsnd (faults_update (\<lambda>_. fl)) (act s)" and torn: "\<And>k s. faults (torn k s) = faults s"
  shows "stops (io_call act torn)"
proof -
  have fa: "faults (snd (act s)) = faults s" for s
  proof -
    have "act s = apsnd (faults_update (\<lambda>_. faults s)) (act s)"
      using act [where s = s and fl = "faults s"] by simp
    from arg_cong [OF this, of "\<lambda>x. faults (snd x)"] show ?thesis by simp
  qed
  have eq: "act (s\<lparr>faults := fl\<rparr>) = apsnd (faults_update (\<lambda>_. fl)) (act (s\<lparr>faults := []\<rparr>))" for s fl
    using act [where s = "s\<lparr>faults := []\<rparr>" and fl = fl] by simp
  show ?thesis
    unfolding stops_def
  proof (intro conjI allI impI, goal_cases)
    case (1 s)
    show ?case
      by (cases "faults s"; cases "hd (faults s)") (simp_all add: io_call_def fa torn Let_def suffix_ConsI)
  next
    case (2 s)
    then show ?case by (cases "faults s") (auto simp: io_call_def fa)
  next
    case (3 s k f rs)
    show ?case
    proof (cases k)
      case 0
      then show ?thesis using 3 by (cases f) (simp_all add: io_call_def fa torn Let_def)
    next
      case (Suc j)
      then have "io_call act torn s = act (s\<lparr>faults := replicate j Pass @ f # rs\<rparr>)" using 3 by (simp add: io_call_def)
      moreover have "io_call act torn (s\<lparr>faults := []\<rparr>) = act (s\<lparr>faults := []\<rparr>)" by (simp add: io_call_def)
      ultimately show ?thesis using eq [where s = s and fl = "replicate j Pass @ f # rs"] by auto
    qed
  qed
qed

lemma update_faults_put_file:
  "put_file p f (s\<lparr>faults := fl\<rparr>) = (put_file p f s)\<lparr>faults := fl\<rparr>"
  "put_file p f (s\<lparr>faults := fl, files := fs\<rparr>) = (put_file p f (s\<lparr>files := fs\<rparr>))\<lparr>faults := fl\<rparr>"
  by (simp_all add: put_file_def)

lemma stops_calls [stop_rules]:
  "stops (fs_append p bs)" "stops (fs_write p bs)" "stops (fs_sync_all p)" "stops (fs_create_new p)" "stops (fs_rename p q)"
  unfolding fs_append_def fs_write_def fs_sync_all_def fs_create_new_def fs_rename_def
  by (rule stops_io_call; auto simp: extend_file_def replace_file_def update_faults_put_file split: option.split)+

lemma stops_and_then: "stops c \<Longrightarrow> (\<And>v. stops (k v)) \<Longrightarrow> stops (\<lambda>s. and_then (c s) k)"
proof -
  assume c: "stops c" and k: "\<And>v. stops (k v)"
  have "stops (\<lambda>s. case c s of (r, t) \<Rightarrow> (case r of Ok v \<Rightarrow> k v t | Err e \<Rightarrow> (Err e, t) | Panic \<Rightarrow> (Panic, t)))"
  proof (rule stops_bind [OF c])
    show "stops (\<lambda>t. case r of Ok v \<Rightarrow> k v t | Err e \<Rightarrow> (Err e, t) | Panic \<Rightarrow> (Panic, t))" for r
      by (cases r) (simp_all add: k stops_return)
  qed
  moreover have "(\<lambda>s. case c s of (r, t) \<Rightarrow> (case r of Ok v \<Rightarrow> k v t | Err e \<Rightarrow> (Err e, t) | Panic \<Rightarrow> (Panic, t))) = (\<lambda>s. and_then (c s) k)"
    by (auto simp: and_then_def fun_eq_iff split: prod.split res.split)
  ultimately show ?thesis by simp
qed

section \<open>Methods\<close>

text \<open>A method at a fixed state is a call whose result holds the new state.\<close>

definition paired :: "('a, 'e) res \<times> ('x \<times> fs) \<Rightarrow> (('a, 'e) res \<times> 'x) \<times> fs" where
  "paired = (\<lambda>(r, x, s). ((r, x), s))"

lemma paired_simp [simp]: "paired (r, (x, s)) = ((r, x), s)"
  by (simp add: paired_def)

lemma snd_paired [simp]: "snd (paired m) = snd (snd m)"
  by (simp add: paired_def split: prod.split)

lemma stops_at_return [stop_rules]: "stops (\<lambda>s. paired (r, (x, s)))"
  by (simp add: stops_return)

lemma stops_map:
  assumes "stops c" and "\<And>s. c' s = apfst f (c s)"
  shows "stops c'"
proof -
  have "stops (\<lambda>s. case c s of (b, t) \<Rightarrow> (f b, t))" by (rule stops_bind [OF assms(1) stops_return])
  moreover have "(\<lambda>s. case c s of (b, t) \<Rightarrow> (f b, t)) = c'" by (auto simp: fun_eq_iff assms(2) split: prod.split)
  ultimately show ?thesis by simp
qed

lemma stops_at_and_then:
  assumes m: "stops (\<lambda>s. paired (m s))" and k: "\<And>v y. stops (\<lambda>s. paired (k v (y, s)))"
  shows "stops (\<lambda>s. paired (and_then (m s) k))"
proof -
  let ?k = "\<lambda>(r, y) t. case r of Ok v \<Rightarrow> paired (k v (y, t)) | Err e \<Rightarrow> ((Err e, y), t) | Panic \<Rightarrow> ((Panic, y), t)"
  have "stops (\<lambda>s. case paired (m s) of (b, t) \<Rightarrow> ?k b t)"
  proof (rule stops_bind [OF m])
    show "stops (?k b)" for b
      by (cases b; cases "fst b") (simp_all add: k stops_return)
  qed
  moreover have "(\<lambda>s. case paired (m s) of (b, t) \<Rightarrow> ?k b t) = (\<lambda>s. paired (and_then (m s) k))"
    by (auto simp: and_then_def paired_def fun_eq_iff split: prod.split res.split)
  ultimately show ?thesis by simp
qed

lemma stops_at_map_err [stop_rules]: "stops (\<lambda>s. paired (m s)) \<Longrightarrow> stops (\<lambda>s. paired (map_err f (m s)))"
  by (rule stops_map [where f = "apfst (\<lambda>r. fst (map_err f (r, ())))"])
    (auto simp: map_err_def paired_def split: prod.split res.split)

lemma stops_map_err: "stops c \<Longrightarrow> stops (\<lambda>s. map_err f (c s))"
  by (rule stops_map [where f = "\<lambda>r. fst (map_err f (r, ()))"]) (auto simp: map_err_def apfst_def split: prod.split res.split)

lemma stops_at_ignore [stop_rules]: "stops (\<lambda>s. paired (m s)) \<Longrightarrow> stops (\<lambda>s. paired (ignore_result (m s)))"
  by (rule stops_map [where f = "apfst (\<lambda>r. fst (ignore_result (r, ())))"])
    (auto simp: ignore_result_def paired_def split: prod.split res.split)

lemma stops_at_on_field:
  "stops (\<lambda>s. paired (m (get x, s))) \<Longrightarrow> stops (\<lambda>s. paired (on_field get put m (x, s)))"
  by (rule stops_map [where f = "apsnd (\<lambda>y. put y x)"]) (auto simp: on_field_def paired_def split: prod.split)

lemma stops_at_io: "stops c \<Longrightarrow> stops (\<lambda>s. paired (io c (x, s)))"
  by (rule stops_map [where f = "\<lambda>r. (r, x)"]) (auto simp: io_def paired_def split: prod.split)

lemma stops_at_if [stop_rules]:
  "(P \<Longrightarrow> stops (\<lambda>s. paired (a s))) \<Longrightarrow> (\<not> P \<Longrightarrow> stops (\<lambda>s. paired (b s))) \<Longrightarrow> stops (\<lambda>s. paired (if P then a s else b s))"
  by (cases P) simp_all

section \<open>The WAL and the state file\<close>

lemma bufwriter_flush_stops [stop_rules]: "stops (\<lambda>s. paired (bufwriter_flush p (b, s)))"
proof (cases "b = []")
  case True
  then show ?thesis by (simp add: bufwriter_flush_def stops_return)
next
  case False
  have st: "stops (fs_append p b)" by (rule stop_rules)
  have snd: "snd (paired (bufwriter_flush p (b, s))) = snd (fs_append p b s)" for s
    using False by (cases "fs_append p b s"; cases "fst (fs_append p b s)") (simp_all add: bufwriter_flush_def)
  have passed: "paired (bufwriter_flush p (b, s)) = apsnd (faults_update (\<lambda>_. fl)) (paired (bufwriter_flush p (b, s\<lparr>faults := []\<rparr>)))"
    if "fs_append p b s = apsnd (faults_update (\<lambda>_. fl)) (fs_append p b (s\<lparr>faults := []\<rparr>))" for s fl
    using that False by (simp add: bufwriter_flush_def fs_append_healthy)
  show ?thesis
    unfolding stops_def snd
  proof (intro conjI allI impI, goal_cases)
    case (3 s k f rs)
    from stopsD(3) [OF st 3] show ?case using passed by blast
  qed (use stopsD(1,2) [OF st] in blast)+
qed

lemma bufwriter_write_all_stops [stop_rules]: "stops (\<lambda>s. paired (bufwriter_write_all p bs (b, s)))"
  by (auto simp: bufwriter_write_all_def intro!: stops_at_and_then stops_at_io stop_rules)

lemma on_writer_stops: "stops (\<lambda>s. paired (m (seg_writer g, s))) \<Longrightarrow> stops (\<lambda>s. paired (on_writer m (g, s)))"
  unfolding on_writer_def by (intro stops_at_on_field stop_rules)

lemma segment_stops [stop_rules]:
  "stops (\<lambda>s. paired (segment_append enc (g, s)))" "stops (\<lambda>s. paired (segment_flush (g, s)))"
  "stops (\<lambda>s. paired (segment_sync (g, s)))"
  by (auto simp: segment_append_def segment_flush_def segment_sync_def Let_def
      intro!: stops_at_and_then on_writer_stops stops_at_io stop_rules)

lemma segment_create_stops [stop_rules]: "stops (segment_create d i m)"
  unfolding segment_create_def [abs_def] Let_def by (intro stops_and_then stops_map_err stops_return stop_rules)

lemma on_active_stops: "(\<And>g. stops (\<lambda>s. paired (m (g, s)))) \<Longrightarrow> stops (\<lambda>s. paired (on_active m (w, s)))"
  unfolding on_active_def by (rule stops_at_on_field)

lemma wal_rotate_stops [stop_rules]: "stops (\<lambda>s. paired (wal_rotate (w, s)))"
  by (auto simp: wal_rotate_def Let_def intro!: stops_at_and_then on_active_stops stops_at_io stop_rules)

lemma wal_append_stops [stop_rules]: "stops (\<lambda>s. paired (wal_append crc d (w, s)))"
  by (auto simp: wal_append_def Let_def intro!: stops_at_and_then on_active_stops stop_rules)

lemma write_rename_stops [stop_rules]: "stops (write_rename t p bs)"
  unfolding write_rename_def [abs_def] by (intro stops_and_then stop_rules)

lemma ps_persist_stops [stop_rules]: "stops (\<lambda>s. paired (ps_persist (p, s)))"
  by (auto simp: ps_persist_def intro!: stops_at_io stop_rules)

section \<open>The replicated log and AppendEntries\<close>

lemma on_wal_stops: "(\<And>w. stops (\<lambda>s. paired (m (w, s)))) \<Longrightarrow> stops (\<lambda>s. paired (on_wal m (l, s)))"
  unfolding on_wal_def by (intro stops_at_on_field stop_rules)

lemma raft_log_append_stops [stop_rules]: "stops (\<lambda>s. paired (raft_log_append crc t d (l, s)))"
  by (auto simp: raft_log_append_def Let_def intro!: stops_at_and_then on_wal_stops stop_rules)

lemma truncate_from_stops [stop_rules]: "stops (\<lambda>s. paired (truncate_from crc i (l, s)))"
  by (auto simp: truncate_from_def Let_def intro!: stops_at_and_then on_wal_stops stop_rules)

lemma on_log_stops: "(\<And>l. stops (\<lambda>s. paired (m (l, s)))) \<Longrightarrow> stops (\<lambda>s. paired (on_log m (n, s)))"
  unfolding on_log_def by (rule stops_at_on_field)

lemma advance_term_stops [stop_rules]: "stops (\<lambda>s. paired (on_ps (advance_term t) (n, s)))"
  unfolding on_ps_def by (rule stops_at_on_field) (simp add: advance_term_def stop_rules)

lemma ae_entry_stops [stop_rules]: "stops (\<lambda>s. paired (ae_entry crc e (n, s)))"
  by (cases "term_at (n_log n) (le_index e)")
    (auto simp: ae_entry_def intro!: stops_at_and_then on_log_stops stop_rules)

lemma ae_loop_stops [stop_rules]: "stops (\<lambda>s. paired (ae_loop crc es (n, s)))"
  by (induction es arbitrary: n) (auto intro!: stops_at_and_then stop_rules)

section \<open>Where it died\<close>

text \<open>Of two operations in sequence, either the first was not finished and the second has changed nothing, or
  the first ran as on a healthy disk.\<close>

definition living :: "nat \<Rightarrow> fault \<Rightarrow> fault list \<Rightarrow> fs \<Rightarrow> fs" where
  "living k f rs s = s\<lparr>faults := replicate k Pass @ f # rs\<rparr>"

lemma living_simps [simp]: "faults (living k f rs s) = replicate k Pass @ f # rs" "files (living k f rs s) = files s"
  "(living k f rs s)\<lparr>faults := fl\<rparr> = s\<lparr>faults := fl\<rparr>"
  by (simp_all add: living_def)

lemma stop_cases:
  assumes m: "stops (\<lambda>s. paired (m s))" and h: "healthy s"
  obtains (died) "suffix (faults (snd (snd (m (living k f rs s))))) rs"
    | (lived) r y t j where "m s = (r, (y, t))" "healthy t" "m (living k f rs s) = (r, (y, living j f rs t))"
proof -
  have eq: "s\<lparr>faults := []\<rparr> = s" using h by (rule healthy_eta)
  obtain r y t where t: "m s = (r, (y, t))" by (metis surj_pair)
  have ht: "healthy t" using stops_healthy [OF m h] t by simp
  from stopsD(3) [OF m living_simps(1) [of k f rs s]] show thesis
  proof (elim disjE exE)
    fix j assume "paired (m (living k f rs s)) =
      apsnd (faults_update (\<lambda>_. replicate j Pass @ f # rs)) (paired (m ((living k f rs s)\<lparr>faults := []\<rparr>)))"
    then have "m (living k f rs s) = (r, (y, living j f rs t))"
      by (cases "m (living k f rs s)") (auto simp: eq t paired_def living_def)
    with t ht show thesis by (rule lived)
  qed (use died in simp_all)
qed

lemma dead_and_then:
  assumes k: "\<And>v y. stops (\<lambda>s. paired (k v (y, s)))" and dead: "suffix (faults (snd (snd m))) rs" "set rs \<subseteq> {Refuse}"
    and run: "and_then m k = (r, (y, t))" and more: "faults t \<noteq> []"
  shows "files t = files (snd (snd m)) \<and> faults (snd (snd m)) \<noteq> []"
proof (cases m)
  case (fields q x s)
  show ?thesis
  proof (cases q)
    case (Ok v)
    have "set (faults s) \<subseteq> {Refuse}" using dead fields set_mono_suffix by fastforce
    moreover have t: "snd (paired (k v (x, s))) = t" using run fields Ok by simp
    moreover have "faults s \<noteq> []" using suffix_nonempty [OF stopsD(1) [OF k, of v x s]] t more by simp
    ultimately show ?thesis using stopsD(2) [OF k, of s v x] more fields by simp
  qed (use run fields more in auto)
qed

end
