(* ===== verification/Log_Crash.thy ===== *)
theory Log_Crash
  imports Stopping Wal_Crash
begin

text \<open>
  The replicated log after a death inside an operation. The WAL's append is all or nothing, or leaves a torn record
  that \<open>Wal::open\<close> refuses; so a node that starts again has the log as it was between two records. For
  AppendEntries that is a part of the merge: some entries are in place, and after them the log may be cut.
\<close>

section \<open>What the disk holds\<close>

text \<open>If the directory opens at all, it opens to one of these lists of entries.\<close>

definition opens_to :: "(bytes \<Rightarrow> u32) \<Rightarrow> raft_log \<Rightarrow> fs \<Rightarrow> log_entry list set \<Rightarrow> bool" where
  "opens_to crc l s X \<longleftrightarrow>
     (\<forall>l2 s2. raft_log_open crc (rl_config l) s = (Ok l2, s2) \<longrightarrow>
        s2 = s \<and> raft_log_rep crc l2 s \<and> rl_config l2 = rl_config l \<and> rl_entries l2 \<in> X \<and>
        rl_snapshot_index l2 = rl_snapshot_index l \<and> rl_snapshot_term l2 = rl_snapshot_term l)"

lemma opens_to_mono: "opens_to crc l s X \<Longrightarrow> X \<subseteq> Y \<Longrightarrow> opens_to crc l s Y"
  unfolding opens_to_def by blast

lemma opens_to_other:
  "opens_to crc l s X \<Longrightarrow> rl_config l' = rl_config l \<Longrightarrow> rl_snapshot_index l' = rl_snapshot_index l \<Longrightarrow>
   rl_snapshot_term l' = rl_snapshot_term l \<Longrightarrow> opens_to crc l' s X"
  unfolding opens_to_def by simp

lemma rep_opens_to: "raft_log_rep crc l s \<Longrightarrow> opens_to crc l s {rl_entries l}"
  by (auto simp: opens_to_def raft_log_open_rep)

lemma same_disk: "files (s :: fs) = files t \<Longrightarrow> s\<lparr>faults := []\<rparr> = t\<lparr>faults := []\<rparr>"
  by (cases s, cases t) simp

section \<open>One record\<close>

lemma record_crash:
  assumes rep: "raft_log_rep crc l s" and b: "log_budget l (Suc k) m" and d: "length d \<le> m"
    and run: "wal_append crc d (rl_wal l, s\<lparr>faults := fl\<rparr>) = (r, (w', s'))"
    and rec: "replay_record d (rl_entries l, rl_snapshot_index l, rl_snapshot_term l) = (es, rl_snapshot_index l, rl_snapshot_term l)"
    and wf: "log_wf (l\<lparr>rl_entries := es\<rparr>)"
  shows "opens_to crc l (s'\<lparr>faults := []\<rparr>) {rl_entries l, es}"
proof -
  let ?s = "s'\<lparr>faults := []\<rparr>" and ?e = "\<lparr>sequence = w_next_sequence (rl_wal l), data = d\<rparr>"
  have wl: "log_wf l" using rep by (simp add: raft_log_rep_def)
  obtain L where L: "wal_holds crc (rl_wal l) s L"
    "replay (map data L) ([], 0, 0) = (rl_entries l, rl_snapshot_index l, rl_snapshot_term l)"
    using rep by (auto simp: raft_log_rep_def)
  obtain sealed act where w: "wal_rep crc (rl_wal l) s sealed act" "L = concat (map snd sealed) @ act"
    using L(1) by (auto simp: wal_holds_def)
  have room: "wal_room (rl_wal l) d" by (rule wal_budget_room [of _ k m]) (use b d in \<open>simp_all add: log_budget_def\<close>)
  note ap = append_crash_open [OF w(1) room run, folded w(2)]
  show ?thesis
    unfolding opens_to_def
  proof (intro allI impI)
    fix l2 s2 assume o: "raft_log_open crc (rl_config l) ?s = (Ok l2, s2)"
    obtain rw w2 sw where rw: "wal_open crc (rl_config l) ?s = (rw, sw)" by (metis prod.collapse)
    then obtain w2 where w2': "rw = Ok w2" using o by (cases rw) (simp_all add: raft_log_open_def)
    then obtain L2 where L2: "sw = ?s" "wal_holds crc w2 ?s L2" "L2 \<in> {L, L @ [?e]}"
      using ap rw by (simp split: if_splits) blast+
    have w2: "wal_open crc (rl_config l) ?s = (Ok w2, ?s)" "wal_holds crc w2 ?s L2" "L2 \<in> {L, L @ [?e]}"
      using rw w2' L2 by simp_all
    have cfg: "w_config w2 = rl_config l" using w2(1) unfolding wal_open_def Let_def and_then_Ok_iff by auto
    have l2: "s2 = ?s" "rl_wal l2 = w2" "replay (map data L2) ([], 0, 0) = (rl_entries l2, rl_snapshot_index l2, rl_snapshot_term l2)"
      using o w2(1) wal_log.read_all [OF w2(2)] by (auto simp: raft_log_open_def split: prod.splits)
    have "(rl_entries l2, rl_snapshot_index l2, rl_snapshot_term l2) \<in>
        {(rl_entries l, rl_snapshot_index l, rl_snapshot_term l), (es, rl_snapshot_index l, rl_snapshot_term l)}"
      using w2(3) l2(3) L(2) rec by (auto simp: replay_snoc)
    then have es: "rl_entries l2 \<in> {rl_entries l, es}" "rl_snapshot_index l2 = rl_snapshot_index l" "rl_snapshot_term l2 = rl_snapshot_term l"
      by auto
    have "log_wf l2" using es wl wf by (auto simp: log_wf_def)
    moreover have "w_next_sequence w2 = 1" if "L2 = []"
    proof -
      obtain sealed2 act2 where r2: "wal_rep crc w2 ?s sealed2 act2" "L2 = concat (map snd sealed2) @ act2"
        using w2(2) by (auto simp: wal_holds_def)
      have "wal_open crc (w_config w2) ?s = (Ok (reopened (w_config w2) ?s sealed2 (seg_id (w_active w2)) act2 crc), ?s)"
        using r2(1) by (intro wal_open_segments) (auto simp: wal_rep_def)
      then have "w2 = reopened (w_config w2) ?s sealed2 (seg_id (w_active w2)) act2 crc" using w2(1) cfg by simp
      from arg_cong [OF this, of w_next_sequence] have "w_next_sequence w2 = resume_sequence (concat (map snd sealed2) @ act2)"
        by (simp add: reopened_def)
      then show ?thesis using that r2(2) by (simp add: resume_sequence_def)
    qed
    ultimately have "raft_log_rep crc l2 ?s" unfolding raft_log_rep_def using l2 w2(2) by blast
    then show "s2 = ?s \<and> raft_log_rep crc l2 ?s \<and> rl_config l2 = rl_config l \<and> rl_entries l2 \<in> {rl_entries l, es} \<and>
        rl_snapshot_index l2 = rl_snapshot_index l \<and> rl_snapshot_term l2 = rl_snapshot_term l"
      using l2(1,2) es cfg by blast
  qed
qed

lemma append_crash:
  assumes rep: "raft_log_rep crc l s" and b: "log_budget l (Suc k) m" and d: "17 + length d \<le> m"
    and run: "raft_log_append crc t d (l, s\<lparr>faults := fl\<rparr>) = (r, (l', s'))"
  shows "opens_to crc l (s'\<lparr>faults := []\<rparr>)
    {rl_entries l, rl_entries l @ [\<lparr>le_term = t, le_index = last_index l + 1, le_data = d\<rparr>]}"
proof -
  let ?e = "\<lparr>le_term = t, le_index = last_index l + 1, le_data = d\<rparr>"
  have wf: "log_wf l" using rep by (simp add: raft_log_rep_def)
  obtain rw w' where a: "wal_append crc (encode_append ?e) (rl_wal l, s\<lparr>faults := fl\<rparr>) = (rw, (w', s'))"
    using run
    by (cases "wal_append crc (encode_append ?e) (rl_wal l, s\<lparr>faults := fl\<rparr>)" rule: prod.exhaust;
        cases "fst (wal_append crc (encode_append ?e) (rl_wal l, s\<lparr>faults := fl\<rparr>))")
      (auto simp: raft_log_append_def Let_def on_wal_def on_field_def)
  have idx: "unat (last_index l + 1) = unat (rl_snapshot_index l) + 1 + length (rl_entries l)"
    and bound: "unat (last_index l) + 2 < 2 ^ 64"
    using b log_wf_last_index [OF wf] by (simp_all add: log_budget_def u64_arith)
  have "replay_record (encode_append ?e) (rl_entries l, rl_snapshot_index l, rl_snapshot_term l) =
      (rl_entries l @ [?e], rl_snapshot_index l, rl_snapshot_term l)"
    by (rule replay_append_record) (use idx in simp)
  moreover have "log_wf (l\<lparr>rl_entries := rl_entries l @ [?e]\<rparr>)"
    using wf idx bound log_wf_last_index [OF wf] by (auto simp: log_wf_def nth_append)
  ultimately show ?thesis using record_crash [OF rep b _ a] d by simp
qed

lemma truncate_crash:
  assumes rep: "raft_log_rep crc l s" and b: "log_budget l (Suc k) m"
    and range: "rl_snapshot_index l < i" "i \<le> last_index l"
    and run: "truncate_from crc i (l, s\<lparr>faults := fl\<rparr>) = (r, (l', s'))"
  shows "opens_to crc l (s'\<lparr>faults := []\<rparr>)
    {rl_entries l, take (unat i - unat (rl_snapshot_index l) - 1) (rl_entries l)}"
proof -
  have wf: "log_wf l" using rep by (simp add: raft_log_rep_def)
  have "\<not> (i \<le> rl_snapshot_index l \<or> last_index l < i)" using range by (simp add: not_le not_less)
  then obtain rw w' where a: "wal_append crc (encode_truncate i) (rl_wal l, s\<lparr>faults := fl\<rparr>) = (rw, (w', s'))"
    using run
    by (cases "wal_append crc (encode_truncate i) (rl_wal l, s\<lparr>faults := fl\<rparr>)" rule: prod.exhaust;
        cases "fst (wal_append crc (encode_truncate i) (rl_wal l, s\<lparr>faults := fl\<rparr>))")
      (auto simp: truncate_from_def Let_def on_wal_def on_field_def)
  have "log_wf (l\<lparr>rl_entries := take (unat (i - rl_snapshot_index l - 1)) (rl_entries l)\<rparr>)"
    using wf by (auto simp: log_wf_def)
  from record_crash [OF rep b _ a replay_truncate_record [OF range(1)] this] b unat_sub_sub_1 [OF range(1)]
  show ?thesis by (simp add: log_budget_def)
qed

end
