(* ===== verification/Node_Crash.thy ===== *)
theory Node_Crash
  imports Log_Crash
begin

text \<open>
  The node after a death inside a handler: what AppendEntries leaves on the disk, whenever it stops, and what
  \<open>RaftNode::start\<close> makes of it.
\<close>

section \<open>A part of the merge\<close>

text \<open>Some of the entries have been merged; the log may have been cut for the next one.\<close>

fun partial :: "nat \<Rightarrow> log_entry list \<Rightarrow> log_entry list \<Rightarrow> log_entry list set" where
  "partial k [] xs = {xs}"
| "partial k (e # es) xs =
     {xs} \<union> (if k < length xs \<and> le_term (xs ! k) \<noteq> le_term e then {take k xs} else {}) \<union> partial (Suc k) es (place k e xs)"

lemma partial_start: "xs \<in> partial k es xs"
  by (cases es) simp_all

lemma entry_partial: "place k e xs \<in> partial k (e # es) xs" "xs \<in> partial k (e # es) xs"
  using partial_start [of "place k e xs" "Suc k" es] by simp_all

lemma ae_entry_crash:
  assumes rep: "node_rep crc n s" and b: "log_budget (n_log n) (b + 2) m" and d: "17 + length (le_data e) \<le> m"
    and i: "unat (le_index e) = unat (rl_snapshot_index (n_log n)) + 1 + k" and k: "k \<le> length (rl_entries (n_log n))"
    and rs: "set rs \<subseteq> {Refuse}"
    and run: "ae_entry crc e (n, living j f rs s) = (r, (n', s'))" and more: "faults s' \<noteq> []"
  shows "opens_to crc (n_log n) (s'\<lparr>faults := []\<rparr>) (partial k (e # es) (rl_entries (n_log n)))"
proof -
  let ?l = "n_log n" and ?xs = "rl_entries (n_log n)"
  have wf: "log_wf ?l" and lr: "raft_log_rep crc ?l s" and h: "healthy s" using node_rep_log [OF rep] by simp_all
  note ta = term_at_offset [OF wf i]
  have li: "unat (last_index ?l) = unat (rl_snapshot_index ?l) + length ?xs" and nw: "unat (last_index ?l) + 1 < 2 ^ 64"
    using log_wf_last_index [OF wf] b by (simp_all add: log_budget_def)
  have b1: "log_budget ?l (Suc b) m" and b2: "log_budget ?l (Suc (Suc b)) m" using log_budget_mono [OF b, of "Suc b"] b by simp_all
  consider (same) "k < length ?xs" "le_term (?xs ! k) = le_term e"
    | (conflict) "k < length ?xs" "le_term (?xs ! k) \<noteq> le_term e" | (new) "k = length ?xs"
    using k by fastforce
  then show ?thesis
  proof cases
    case same
    then have "s' = living j f rs s" using run by (simp add: ae_entry_def ta)
    then have "s'\<lparr>faults := []\<rparr> = s" using h healthy_eta by simp
    then show ?thesis using rep_opens_to [OF lr] entry_partial by (auto intro: opens_to_mono)
  next
    case conflict
    let ?cut = "\<lambda>s. ignore_result (on_log (truncate_from crc (le_index e)) (n, s))"
    let ?app = "\<lambda>ns. ignore_result (on_log (raft_log_append crc (le_term e) (le_data e)) ns)"
    have range: "rl_snapshot_index ?l < le_index e" "le_index e \<le> last_index ?l"
      using i li conflict(1) by (simp_all add: u64_order)
    have sub: "{?xs, take k ?xs} \<subseteq> partial k (e # es) ?xs" "{take k ?xs, take k ?xs @ [e]} \<subseteq> partial k (e # es) ?xs"
      using conflict entry_partial(1) [of k e ?xs es] by (auto simp: place_def)
    have split: "and_then (?cut (living j f rs s)) (\<lambda>_. ?app) = (r, (n', s'))"
      using run conflict by (simp add: ae_entry_def ta)
    have st: "stops (\<lambda>s. paired (?cut s))" and app: "stops (\<lambda>s. paired (?app (y, s)))" for y
      by (intro stop_rules on_log_stops)+
    from st h show ?thesis
    proof (cases rule: stop_cases [where k = j and f = f and rs = rs])
      case died
      obtain q n1 s1 where q: "truncate_from crc (le_index e) (?l, s\<lparr>faults := replicate j Pass @ f # rs\<rparr>) = (q, (n1, s1))"
        by (metis surj_pair)
      then have s1: "snd (snd (?cut (living j f rs s))) = s1"
        by (cases q) (simp_all add: on_log_def on_field_def ignore_result_def living_def)
      have "files s' = files (snd (snd (?cut (living j f rs s))))"
        using dead_and_then [OF app died rs split more] by simp
      then have "s'\<lparr>faults := []\<rparr> = s1\<lparr>faults := []\<rparr>" using s1 same_disk by simp
      with truncate_crash [OF lr b2 range q] i sub(1) show ?thesis by (auto intro: opens_to_mono)
    next
      case (lived r1 n1 s1 j1)
      obtain l1 s0 where t: "?cut s = (Ok (), (n\<lparr>n_log := l1\<rparr>, s0))"
        and r1: "node_rep crc (n\<lparr>n_log := l1\<rparr>) s0" "rl_entries l1 = take k ?xs"
          "rl_snapshot_index l1 = rl_snapshot_index ?l" "rl_snapshot_term l1 = rl_snapshot_term ?l" "log_budget l1 (Suc b) m"
        using ae_truncate_step [OF rep b2 range] i by auto
      have eq: "r1 = Ok ()" "n1 = n\<lparr>n_log := l1\<rparr>" "s1 = s0" using lived(1) t by simp_all
      have lr1: "raft_log_rep crc l1 s0" using node_rep_log [OF r1(1)] by simp
      have cfg: "rl_config l1 = rl_config ?l" using rep r1(1) by (simp add: node_rep_def)
      have "unat (last_index l1) = unat (rl_snapshot_index ?l) + k"
        using r1 conflict(1) node_rep_log [OF r1(1)] by (simp add: log_wf_last_index)
      then have ei: "last_index l1 + 1 = le_index e"
        using i nw li conflict(1) by (simp add: u64_eq_iff u64_arith)
      have "?app (n\<lparr>n_log := l1\<rparr>, living j1 f rs s0) = (r, (n', s'))" using split lived(3) eq by simp
      then obtain q where "raft_log_append crc (le_term e) (le_data e) (l1, s0\<lparr>faults := replicate j1 Pass @ f # rs\<rparr>) = (q, (n_log n', s'))"
        by (rule ignored_on_log) (simp add: living_def)
      from append_crash [OF lr1 r1(5) d this] ei r1(2) have "opens_to crc l1 (s'\<lparr>faults := []\<rparr>) {take k ?xs, take k ?xs @ [e]}"
        by (simp add: log_entry_eta)
      then have "opens_to crc ?l (s'\<lparr>faults := []\<rparr>) {take k ?xs, take k ?xs @ [e]}"
        by (rule opens_to_other) (simp_all add: cfg r1)
      then show ?thesis using sub(2) by (rule opens_to_mono)
    qed
  next
    case new
    have ei: "last_index ?l + 1 = le_index e" using i nw li new by (simp add: u64_eq_iff u64_arith)
    have "ignore_result (on_log (raft_log_append crc (le_term e) (le_data e)) (n, living j f rs s)) = (r, (n', s'))"
      using run new by (simp add: ae_entry_def ta)
    then obtain q where "raft_log_append crc (le_term e) (le_data e) (?l, s\<lparr>faults := replicate j Pass @ f # rs\<rparr>) = (q, (n_log n', s'))"
      by (rule ignored_on_log) (simp add: living_def)
    from append_crash [OF lr b1 d this] ei have "opens_to crc ?l (s'\<lparr>faults := []\<rparr>) {?xs, ?xs @ [e]}" by (simp add: log_entry_eta)
    moreover have "{?xs, ?xs @ [e]} \<subseteq> partial k (e # es) ?xs"
      using new entry_partial(1) [of k e ?xs es] by (simp add: place_def)
    ultimately show ?thesis by (rule opens_to_mono)
  qed
qed

lemma ae_loop_crash:
  assumes "node_rep crc n s" and "log_budget (n_log n) (2 * length es + b) m" and "\<forall>e \<in> set es. 17 + length (le_data e) \<le> m"
    and "\<forall>j < length es. unat (le_index (es ! j)) = unat (rl_snapshot_index (n_log n)) + 1 + k + j"
    and "k \<le> length (rl_entries (n_log n))" and rs: "set rs \<subseteq> {Refuse}"
    and "ae_loop crc es (n, living j f rs s) = (r, (n', s'))" and more: "faults s' \<noteq> []"
  shows "opens_to crc (n_log n) (s'\<lparr>faults := []\<rparr>) (partial k es (rl_entries (n_log n)))"
  using assms(1-5,7)
proof (induction es arbitrary: n s k j)
  case Nil
  have h: "healthy s" and lr: "raft_log_rep crc (n_log n) s" using node_rep_log [OF Nil.prems(1)] by simp_all
  have "s'\<lparr>faults := []\<rparr> = s" using Nil.prems(6) healthy_eta [OF h] by auto
  then show ?case using rep_opens_to [OF lr] by simp
next
  case (Cons e es)
  let ?l = "n_log n" and ?xs = "rl_entries (n_log n)"
  have h: "healthy s" using node_rep_log [OF Cons.prems(1)] by simp
  have b: "log_budget ?l ((2 * length es + b) + 2) m" using Cons.prems(2) by (simp add: algebra_simps)
  have i: "unat (le_index e) = unat (rl_snapshot_index ?l) + 1 + k" using Cons.prems(4) by fastforce
  have d: "17 + length (le_data e) \<le> m" using Cons.prems(3) by simp
  have split: "and_then (ae_entry crc e (n, living j f rs s)) (\<lambda>_ ns. ae_loop crc es ns) = (r, (n', s'))"
    using Cons.prems(6) by simp
  from ae_entry_stops [of crc e n] h show ?case
  proof (cases rule: stop_cases [where k = j and f = f and rs = rs])
    case died
    obtain q n1 s1 where q: "ae_entry crc e (n, living j f rs s) = (q, (n1, s1))" by (metis surj_pair)
    have "files s' = files s1 \<and> faults s1 \<noteq> []"
      using dead_and_then [OF ae_loop_stops died rs split more] q by simp
    then have "s'\<lparr>faults := []\<rparr> = s1\<lparr>faults := []\<rparr>" "faults s1 \<noteq> []" using same_disk by simp_all
    then show ?thesis using ae_entry_crash [OF Cons.prems(1) b d i Cons.prems(5) rs q] by simp
  next
    case (lived r1 n1 s1 j1)
    obtain l1 s0 where a: "ae_entry crc e (n, s) = (Ok (), (n\<lparr>n_log := l1\<rparr>, s0))" "node_rep crc (n\<lparr>n_log := l1\<rparr>) s0"
        "rl_entries l1 = place k e ?xs" "rl_snapshot_index l1 = rl_snapshot_index ?l"
        "rl_snapshot_term l1 = rl_snapshot_term ?l" "log_budget l1 (2 * length es + b) m"
      using ae_entry_rep [OF Cons.prems(1) b d i Cons.prems(5)] by blast
    have eq: "r1 = Ok ()" "n1 = n\<lparr>n_log := l1\<rparr>" "s1 = s0" using lived(1) a(1) by simp_all
    have "ae_loop crc es (n\<lparr>n_log := l1\<rparr>, living j1 f rs s0) = (r, (n', s'))" using split lived(3) eq by simp
    moreover have "\<forall>j < length es. unat (le_index (es ! j)) = unat (rl_snapshot_index ?l) + 1 + Suc k + j"
      using Cons.prems(4) by (auto dest: spec [of _ "Suc j" for j])
    ultimately have "opens_to crc l1 (s'\<lparr>faults := []\<rparr>) (partial (Suc k) es (rl_entries l1))"
      using Cons.IH [OF a(2), of "Suc k" j1] a Cons.prems(3) length_place [OF Cons.prems(5)] by auto
    then have "opens_to crc ?l (s'\<lparr>faults := []\<rparr>) (partial (Suc k) es (place k e ?xs))"
      unfolding a(3) by (rule opens_to_other) (use a Cons.prems(1) in \<open>simp_all add: node_rep_def\<close>)
    then show ?thesis by (rule opens_to_mono) auto
  qed
qed

section \<open>AppendEntries\<close>

text \<open>The loop touches the directory of the log only.\<close>

lemma ae_loop_confined:
  assumes "in_dir d (rl_wal (n_log n))" and "fs_step d s0 s"
  shows "outcome (\<lambda>(n, s). in_dir d (rl_wal (n_log n)) \<and> fs_step d s0 s) (\<lambda>_. True) (ae_loop crc es (n, s))"
proof -
  let ?P = "\<lambda>(n, s). in_dir d (rl_wal (n_log n)) \<and> fs_step d s0 s"
  have on: "outcome ?P (\<lambda>_. True) (on_log m ns)"
    if "\<And>ls. log_step d s0 ls \<Longrightarrow> outcome (log_step d s0) (\<lambda>_. True) (m ls)" "?P ns" for m :: "(raft_log, 'a, raft_error) meth" and ns
  proof (cases ns)
    case (Pair n s)
    have "outcome (log_step d s0) (\<lambda>_. True) (m (n_log n, s))" using that Pair by simp
    then have "outcome (\<lambda>(l, s). ?P (n\<lparr>n_log := l\<rparr>, s)) (\<lambda>_. True) (m (n_log n, s))"
      by (rule outcome_mono) auto
    then show ?thesis unfolding Pair on_log_def by (rule outcome_on_field)
  qed
  have entry: "outcome ?P (\<lambda>_. True) (ae_entry crc e ns)" if "?P ns" for e ns
    using that
    by (cases ns; cases "term_at (n_log (fst ns)) (le_index e)")
      (auto simp: ae_entry_def intro!: outcome_and_then [where Q = "\<lambda>_. True" and P = ?P] outcome_ignore on steps)
  have "?P ns \<Longrightarrow> outcome ?P (\<lambda>_. True) (ae_loop crc es ns)" for ns
    by (induction es arbitrary: ns) (auto intro!: outcome_and_then [where Q = "\<lambda>_. True" and P = ?P] entry)
  then show ?thesis using assms by simp
qed

text \<open>What is on the disk after a death: the log it opens to, and the vote and snapshot files.\<close>

definition disk_after :: "(bytes \<Rightarrow> u32) \<Rightarrow> raft_node \<Rightarrow> fs \<Rightarrow> log_entry list set \<Rightarrow> bool" where
  "disk_after crc n s X \<longleftrightarrow> opens_to crc (n_log n) s X \<and> snapshot_cell.stored (n_data_dir n) s = Ok (n_snapshot n)"

lemma snapshot_kept:
  assumes "node_rep crc n s" and "fs_content s' (snapshot_path (n_data_dir n)) = fs_content s (snapshot_path (n_data_dir n))"
  shows "snapshot_cell.stored (n_data_dir n) s' = Ok (n_snapshot n)"
  using assms by (simp add: node_rep_def snapshot_cell.stored_def)

lemma apart_disk_after:
  assumes rep: "node_rep crc n s" and q: "apart n (s\<lparr>faults := fl\<rparr>) (n', s')"
  shows "disk_after crc n (s'\<lparr>faults := []\<rparr>) {rl_entries (n_log n)}"
proof -
  let ?d = "n_data_dir n" and ?s = "s'\<lparr>faults := []\<rparr>"
  have pth: "ps_path (n_ps n) = path_join ?d STATE_FILE" using rep by (simp add: node_rep_def ps_synced_def)
  have lr: "raft_log_rep crc (n_log n) s" "wf_fs s" using node_rep_log [OF rep] by simp_all
  have sp: "spares (path_join ?d STATE_FILE) s ?s"
    using q pth by (simp add: apart_def spares_def)
  then have wf: "wf_fs ?s" using lr(2) by (simp add: spares_def)
  have same: "fs_content ?s p = fs_content s p" if "p \<noteq> path_join ?d STATE_FILE" "p \<noteq> path_join ?d ''raft_state.tmp''" for p
    using sp that by (simp add: spares_def state_tmp)
  have "raft_log_rep crc (n_log n) ?s"
  proof (rule raft_log_rep_frame [OF lr(1) _ wf])
    show "fs_content ?s p = fs_content s p" if "butlast p = rl_dir (n_log n)" for p
      by (rule same) (use that rep in simp_all)
  qed simp
  moreover have "fs_content ?s (snapshot_path ?d) = fs_content s (snapshot_path ?d)"
    by (rule same) (simp_all add: snapshot_path_def STATE_FILE_def)
  ultimately show ?thesis
    using rep_opens_to snapshot_kept [OF rep] by (simp add: disk_after_def)
qed

lemma on_append_entries_crash:
  assumes rep: "node_rep crc n s" and rs: "set rs \<subseteq> {Refuse}"
    and cons: "ae_consistency req n = None \<longrightarrow> rl_snapshot_index (n_log n) \<le> ae_prev_log_index req \<and>
      numbered_from (ae_prev_log_index req) (ae_entries req)"
    and b: "log_budget (n_log n) (2 * length (ae_entries req)) m" and d: "\<forall>e \<in> set (ae_entries req). 17 + length (le_data e) \<le> m"
    and run: "on_append_entries crc env req (n, living j f rs s) = (r, (n', s'))" and more: "faults s' \<noteq> []"
  defines "k \<equiv> unat (ae_prev_log_index req) - unat (rl_snapshot_index (n_log n))"
  shows "disk_after crc n (s'\<lparr>faults := []\<rparr>) {rl_entries (n_log n)} \<or>
    n_term n \<le> ae_term req \<and> ae_consistency req n = None \<and>
    disk_after crc n (s'\<lparr>faults := []\<rparr>) (partial k (ae_entries req) (rl_entries (n_log n))) \<and>
    fst (vote_cell.stored (n_data_dir n) s') = ae_term req"
proof (cases "ae_term req < n_term n")
  case True
  then have "(n', s') = (n, living j f rs s)" using run by (auto simp: on_append_entries_def)
  then have "apart n (living j f rs s) (n', s')" by (simp add: apart_refl)
  then show ?thesis using apart_disk_after [OF rep] by (simp add: living_def)
next
  case False
  then have t: "n_term n \<le> ae_term req" by simp
  have h: "healthy s" using node_rep_log [OF rep] by simp
  let ?t = "ae_term req" and ?n = "followed env (ae_term req) (ae_leader_id req) n"
  let ?adv = "\<lambda>s. if n_term n < ?t then ignore_result (on_ps (advance_term ?t) (n, s)) else (Ok (), (n, s))"
  let ?rest = "\<lambda>(n, s). let n = become_follower_with_leader env (Some (ae_leader_id req)) n in
      case ae_consistency req n of Some resp \<Rightarrow> (Ok resp, (n, s))
      | None \<Rightarrow> and_then (ae_loop crc (ae_entries req) (n, s)) (\<lambda>_ (n, s).
          let n = (if n_commit_index n < ae_leader_commit req
                   then n\<lparr>n_commit_index := min (ae_leader_commit req) (last_index (n_log n))\<rparr> else n)
          in (Ok \<lparr>aer_term = n_term n, aer_success = True, aer_conflict_index = 0, aer_conflict_term = 0\<rparr>, (n, s)))"
  have split: "and_then (?adv (living j f rs s)) (\<lambda>_. ?rest) = (r, (n', s'))"
    using run False by (simp add: on_append_entries_def)
  have st: "stops (\<lambda>s. paired (?adv s))" by (intro stop_rules)
  have rest: "stops (\<lambda>s. paired (?rest (y, s)))" for y
    by (cases "ae_consistency req (become_follower_with_leader env (Some (ae_leader_id req)) y)")
      (auto simp: Let_def intro!: stops_at_and_then stop_rules)
  have adv: "apart n s0 (n1, s1)" if "?adv s0 = (q, (n1, s1))" for s0 q n1 s1
  proof -
    have "keeps_apart n s0 (?adv s0)" by (simp add: apart_refl apart_rules)
    then show ?thesis using that by (simp add: outcome_def)
  qed
  from st h show ?thesis
  proof (cases rule: stop_cases [where k = j and f = f and rs = rs])
    case died
    obtain q n1 s1 where q: "?adv (living j f rs s) = (q, (n1, s1))" by (metis surj_pair)
    have "files s' = files s1" using dead_and_then [OF rest died rs split more] q by simp
    then have "s'\<lparr>faults := []\<rparr> = s1\<lparr>faults := []\<rparr>" by (rule same_disk)
    moreover have "disk_after crc n (s1\<lparr>faults := []\<rparr>) {rl_entries (n_log n)}"
      by (rule apart_disk_after [OF rep]) (use adv [OF q] in \<open>simp add: living_def\<close>)
    ultimately show ?thesis by simp
  next
    case (lived r1 n1 s1 j1)
    obtain s0 where s0: "?adv s = (Ok (), (in_term ?t n, s0))" "node_rep crc ?n s0"
      using node_followed [OF rep, of ?t env "ae_leader_id req"] by blast
    have eq: "r1 = Ok ()" "n1 = in_term ?t n" "s1 = s0" using lived(1) s0(1) by simp_all
    have run1: "?rest (in_term ?t n, living j1 f rs s0) = (r, (n', s'))" using split lived(3) eq by simp
    show ?thesis
    proof (cases "ae_consistency req n")
      case (Some resp)
      then have "ae_consistency req ?n \<noteq> None" using ae_consistency_cong [of ?n n req] by simp
      then have "s' = living j1 f rs s0"
        using run1 by (auto simp: Let_def followed_def [symmetric])
      then have s': "s'\<lparr>faults := []\<rparr> = s0\<lparr>faults := []\<rparr>" by simp
      have "apart n s (in_term ?t n, s0)" by (rule adv [OF s0(1)])
      then have "disk_after crc n (s0\<lparr>faults := []\<rparr>) {rl_entries (n_log n)}"
        by (intro apart_disk_after [OF rep, of "faults s"]) (simp add: faults_update_same)
      then show ?thesis using s' by simp
    next
      case None
      then have none: "ae_consistency req ?n = None" using ae_consistency_cong [of ?n n req] by simp
      obtain q n2 s2 where lp: "ae_loop crc (ae_entries req) (?n, living j1 f rs s0) = (q, (n2, s2))" by (metis surj_pair)
      then have s2: "s' = s2" using run1 none by (cases q) (auto simp: Let_def followed_def [symmetric])
      have num: "\<forall>i < length (ae_entries req). unat (le_index (ae_entries req ! i)) = unat (rl_snapshot_index (n_log ?n)) + 1 + k + i"
        using cons None by (simp add: numbered_from_def k_def u64_order)
      have kl: "k \<le> length (rl_entries (n_log ?n))"
        using on_append_entries_rep [OF rep t None _ _ b d, of env] cons None unfolding k_def followed_simps by blast
      have b': "log_budget (n_log ?n) (2 * length (ae_entries req) + 0) m" using b by simp
      have "opens_to crc (n_log ?n) (s'\<lparr>faults := []\<rparr>) (partial k (ae_entries req) (rl_entries (n_log ?n)))"
        by (rule ae_loop_crash [OF s0(2) b' d num kl rs]) (use lp s2 more in simp_all)
      moreover have fr: "fs_content s' (path_join (n_data_dir n) x) = fs_content s0 (path_join (n_data_dir n) x)" for x
      proof -
        obtain L where "wal_holds crc (rl_wal (n_log ?n)) s0 L" using node_rep_log [OF s0(2)] by (auto simp: raft_log_rep_def)
        then have "in_dir (rl_dir (n_log ?n)) (rl_wal (n_log ?n))" by (rule wal_holds_in_dir)
        from ae_loop_confined [OF this, of "living j1 f rs s0" "living j1 f rs s0" crc "ae_entries req"] lp s2
        have so: "same_outside (rl_dir (n_log ?n)) (living j1 f rs s0) s'" by (simp add: outcome_def fs_step_def)
        have "butlast (path_join (n_data_dir n) x) \<noteq> rl_dir (n_log ?n)"
          using rl_dir_node [OF s0(2)] by (simp add: path_join_def)
        then show ?thesis using so by (simp add: same_outside_def living_def)
      qed
      moreover have "snapshot_cell.stored (n_data_dir ?n) (s'\<lparr>faults := []\<rparr>) = Ok (n_snapshot ?n)"
        by (rule snapshot_kept [OF s0(2)]) (use fr in \<open>simp add: snapshot_path_def\<close>)
      moreover have "fst (vote_cell.stored (n_data_dir n) s') = ?t"
      proof -
        have "vote_cell.stored (n_data_dir n) s' = vote_cell.stored (n_data_dir n) s0" by (simp add: vote_cell.stored_def fr)
        moreover have "ps_synced (n_data_dir n) (n_ps ?n) s0" using s0(2) by (simp add: node_rep_def)
        ultimately have "fst (vote_cell.stored (n_data_dir n) s') = n_term ?n" by (simp add: ps_synced_def del: followed_simps)
        then show ?thesis using t by (simp add: max_absorb2)
      qed
      ultimately show ?thesis using t None by (simp add: disk_after_def)
    qed
  qed
qed

section \<open>The start that follows\<close>

lemma start_after_crash:
  assumes rep: "node_rep crc n s" and disk: "disk_after crc n sd X" and h: "healthy sd"
    and run: "node_start crc env (n_config n) sd = (Ok n', s')"
  shows "s' = sd \<and> node_rep crc n' sd \<and> rl_entries (n_log n') \<in> X \<and>
    rl_snapshot_index (n_log n') = rl_snapshot_index (n_log n) \<and> rl_snapshot_term (n_log n') = rl_snapshot_term (n_log n) \<and>
    n_snapshot n' = n_snapshot n \<and> n_role n' = Follower \<and> n_commit_index n' = 0 \<and>
    n_term n' = fst (vote_cell.stored (n_data_dir n) sd)"
proof -
  let ?d = "n_data_dir n"
  have dir: "cc_data_dir (n_config n) = ?d" and cfg: "rl_config (n_log n) = node_wal_config ?d"
    and pth: "ps_path (n_ps n) = path_join ?d STATE_FILE"
    using rep by (simp_all add: node_rep_def ps_synced_def)
  obtain rl sl where lo: "raft_log_open crc (node_wal_config ?d) sd = (rl, sl)" by fastforce
  then obtain l where l: "rl = Ok l" using run h dir by (cases rl) (auto simp: node_start_def fs_healthy ps_open_healthy node_wal_config_def Let_def)
  have post: "sl = sd" "raft_log_rep crc l sd" "rl_config l = rl_config (n_log n)" "rl_entries l \<in> X"
    "rl_snapshot_index l = rl_snapshot_index (n_log n)" "rl_snapshot_term l = rl_snapshot_term (n_log n)"
    using disk lo l cfg by (auto simp: disk_after_def opens_to_def)
  let ?ps = "\<lparr>ps_path = path_join ?d STATE_FILE, ps_current_term = fst (vote_cell.stored ?d sd),
      ps_voted_for = snd (vote_cell.stored ?d sd)\<rparr>"
  let ?m = "n\<lparr>n_log := l, n_ps := ?ps\<rparr>"
  have "ps_synced ?d ?ps sd" by (simp add: ps_synced_def)
  then have m: "node_rep crc ?m sd" using rep post cfg disk by (simp add: node_rep_def disk_after_def)
  have "n' = restarted env ?m \<and> s' = sd" using node_start_rep [OF m, of env] run by simp
  then show ?thesis using node_rep_restarted [OF m, of env] post by (simp add: restarted_def)
qed

end
