(* ===== verification/Replicas_Crash.thy ===== *)
theory Replicas_Crash
  imports Replicas_Steps Node_Crash
begin

text \<open>
  A death inside a handler, and the start that follows, is a run of the abstract protocol: what of a request was
  merged is a run of the follower's steps, a record of a write is a proposal that nobody has heard of, and the
  other handlers leave the log alone.
\<close>

section \<open>A part of the merge in the protocol\<close>

lemma partial_cases:
  assumes "L \<in> partial k es xs"
  obtains j where "j \<le> length es" "L = merge k (take j es) xs"
  | j where "j < length es" "k + j < length (merge k (take j es) xs)"
      "le_term (merge k (take j es) xs ! (k + j)) \<noteq> le_term (es ! j)" "L = take (k + j) (merge k (take j es) xs)"
  using assms
proof (induction es arbitrary: k xs thesis)
  case Nil
  then show ?case using Nil.prems(1) [of 0] by simp
next
  case (Cons e es)
  have m: "merge k (take (Suc j) (e # es)) xs = merge (Suc k) (take j es) (place k e xs)" for j
    by (simp add: merge_place del: merge.simps)
  consider "L = xs" | "k < length xs" "le_term (xs ! k) \<noteq> le_term e" "L = take k xs" | "L \<in> partial (Suc k) es (place k e xs)"
    using Cons.prems(3) by (auto split: if_splits)
  then show ?case
  proof cases
    case 1
    then show ?thesis using Cons.prems(1) [of 0] by simp
  next
    case 2
    then show ?thesis using Cons.prems(2) [of 0] by simp
  next
    case 3
    show ?thesis
    proof (rule Cons.IH [OF _ _ 3])
      fix j assume "j \<le> length es" "L = merge (Suc k) (take j es) (place k e xs)"
      then show ?thesis using Cons.prems(1) [of "Suc j"] unfolding m by simp
    next
      fix j assume "j < length es" "Suc k + j < length (merge (Suc k) (take j es) (place k e xs))"
        "le_term (merge (Suc k) (take j es) (place k e xs) ! (Suc k + j)) \<noteq> le_term (es ! j)"
        "L = take (Suc k + j) (merge (Suc k) (take j es) (place k e xs))"
      then show ?thesis using Cons.prems(2) [of "Suc j"] unfolding m by simp
    qed
  qed
qed

lemma partial_path:
  assumes t: "p_term a k = t" "p_hist a t = Some G" and xs: "agree p (p_log a k) G"
    and es: "es = take l (drop p G)" "p + l \<le> length G" and same: "same_entries p es (p_log a k)"
    and L: "L \<in> partial p es (p_log a k)"
  shows "proto_steps ids a (a\<lparr>p_log := (p_log a)(k := L)\<rparr>)"
proof -
  have len: "length es = l" using es by simp
  have sub: "take j es = take j (drop p G)" "p + j \<le> length G" "same_entries p (take j es) (p_log a k)" if "j \<le> l" for j
  proof -
    show "take j es = take j (drop p G)" unfolding es(1) using that by (simp add: min_def)
    show "p + j \<le> length G" using that es(2) by simp
    show "same_entries p (take j es) (p_log a k)" using same by (auto simp: same_entries_def)
  qed
  have path: "proto_steps ids a (a\<lparr>p_log := (p_log a)(k := merge p (take j es) (p_log a k))\<rparr>)" if "j \<le> l" for j
    by (rule merge_path [OF t xs sub [OF that]])
  from L show ?thesis
  proof (cases rule: partial_cases)
    case (1 j)
    then show ?thesis using path len by simp
  next
    case (2 j)
    let ?ys = "merge p (take j es) (p_log a k)" and ?b = "a\<lparr>p_log := (p_log a)(k := merge p (take j es) (p_log a k))\<rparr>"
    have j: "j \<le> l" "j < l" using 2 len by simp_all
    have ag: "agree (p + j) ?ys G" by (rule merge_has_segment [OF xs sub [OF j(1)]])
    have "es ! j = G ! (p + j)" using j es by simp
    then have "?ys ! (p + j) \<noteq> G ! (p + j)" using 2(3) by auto
    then have "proto_step ids ?b (?b\<lparr>p_log := (p_log ?b)(k := take (p + j) (p_log ?b k))\<rparr>)"
      using t ag 2(2) j es(2) by (intro cut [of _ _ t G]) simp_all
    then have "proto_step ids ?b (a\<lparr>p_log := (p_log a)(k := L)\<rparr>)" using 2(4) by simp
    with path [OF j(1)] show ?thesis by (rule rtranclp.rtrancl_into_rtrancl)
  qed
qed

section \<open>The node that starts again\<close>

lemma sim_started:
  assumes S: "sim crc a c" and at: "c_nodes c i = Some (n, s)" and inv': "cluster_inv c'"
    and c': "c' = c\<lparr>c_nodes := (c_nodes c)(i \<mapsto> (n', s')), c_waiting := (c_waiting c)(i := None), c_writing := (c_writing c)(i := None)\<rparr>"
    and n': "node_rep crc n' s'" "rl_snapshot_index (n_log n') = 0" "rl_snapshot_term (n_log n') = 0" "n_snapshot n' = None"
      "n_role n' = Follower" "n_commit_index n' = 0"
    and run: "proto_steps (members c) a a'" "p_term a' i = unat (n_term n')" "p_log a' i = n_entries n'"
    and others: "\<And>j. j \<noteq> i \<Longrightarrow> p_term a' j = p_term a j \<and> p_log a' j = p_log a j"
    and hist: "\<And>t G. p_hist a t = Some G \<Longrightarrow> p_hist a' t = Some G \<or> t = unat (n_term n) \<and> n_role n = Leader"
    and won: "\<And>t. p_hist a' t \<noteq> None \<Longrightarrow> p_hist a t \<noteq> None"
  shows "sim crc a' c'"
proof -
  have "log_sim crc (members c) a' i n' s'" using n' run(2,3) by (simp add: log_sim_def prefix_ok_def)
  then show ?thesis
    by (intro sim_update [OF S at _ inv' run(1) others hist, where w = None and v = None])
      (use c' n' won in \<open>auto simp: stands_def writes_def votes_of_def\<close>)
qed

lemma log_sim_snapshot: "log_sim crc ids a i n s \<Longrightarrow> rl_snapshot_index (n_log n) = 0 \<and> rl_snapshot_term (n_log n) = 0 \<and> n_snapshot n = None"
  by (simp add: log_sim_def)

text \<open>The stages that write nothing but the ballot.\<close>

lemma no_reply_outcome: "outcome P (\<lambda>_. True) m \<Longrightarrow> outcome P (\<lambda>_. True) (no_reply m)"
  unfolding no_reply_def by (rule outcome_and_then) simp_all

lemma attempt_apart:
  assumes ok: "stage_ok c i n st" and run: "attempt crc env net st (n, s) = (r, (n1, s1))"
    and no: "\<And>req. st \<noteq> Merging req" "\<And>dat. st \<noteq> Writing dat"
  shows "apart n s (n1, s1)"
proof -
  have "keeps_apart n s (attempt crc env net st (n, s))"
  proof (cases st)
    case (Finishing index acks)
    obtain q n2 s2 where f: "client_write_finish crc env index acks [] (n, s) = (q, (n2, s2))" by (metis surj_pair)
    have "apart n s (n2, s2)" by (rule client_write_finish_apart [OF apart_refl _ f]) (use ok Finishing in simp)
    then have "keeps_apart n s (client_write_finish crc env index acks [] (n, s))" using f by (simp add: outcome_def)
    then show ?thesis using Finishing by (simp add: no_reply_outcome)
  qed (use no in \<open>simp_all add: no_reply_outcome apart_rules apart_refl\<close>)
  then show ?thesis using run by (simp add: outcome_def)
qed

section \<open>Deaths are runs of the protocol\<close>

lemma write_crash:
  assumes rep: "node_rep crc n s" and room: "room_for (n_log n) 1 [dat]"
    and run: "attempt crc env net (Writing dat) (n, s\<lparr>faults := fl\<rparr>) = (r, (n1, s1))"
  shows "disk_after crc n (s1\<lparr>faults := []\<rparr>) {n_entries n} \<or>
    n_role n = Leader \<and> fst (vote_cell.stored (n_data_dir n) s1) = n_term n \<and>
    disk_after crc n (s1\<lparr>faults := []\<rparr>)
      {n_entries n, n_entries n @ [\<lparr>le_term = n_term n, le_index = last_index (n_log n) + 1, le_data = dat\<rparr>]}"
proof (cases "n_role n = Leader")
  case False
  then have "(n1, s1) = (n, s\<lparr>faults := fl\<rparr>)" using run by (auto simp: client_write_begin_def no_reply_def)
  then have "apart n (s\<lparr>faults := fl\<rparr>) (n1, s1)" by (simp add: apart_refl)
  then show ?thesis using apart_disk_after [OF rep] by blast
next
  case True
  obtain q l2 s2 where a: "raft_log_append crc (n_term n) dat (n_log n, s\<lparr>faults := fl\<rparr>) = (q, (l2, s2))" by (metis surj_pair)
  have s1: "s1 = s2"
    using run True a
    by (cases q) (auto simp: client_write_begin_def no_reply_def on_log_def on_field_def split: res.splits)
  have lr: "raft_log_rep crc (n_log n) s" using node_rep_log [OF rep] by simp
  obtain m where m: "log_budget (n_log n) (Suc 0) m" "17 + length dat \<le> m" using room by (auto simp: room_for_def)
  have o: "opens_to crc (n_log n) (s1\<lparr>faults := []\<rparr>)
      {n_entries n, n_entries n @ [\<lparr>le_term = n_term n, le_index = last_index (n_log n) + 1, le_data = dat\<rparr>]}"
    using append_crash [OF lr m a] s1 by simp
  have fr: "fs_content s1 (path_join (n_data_dir n) x) = fs_content s (path_join (n_data_dir n) x)" for x
  proof -
    let ?s = "s\<lparr>faults := fl\<rparr>"
    obtain L where "wal_holds crc (rl_wal (n_log n)) s L" using lr by (auto simp: raft_log_rep_def)
    then have "log_step (rl_dir (n_log n)) ?s (n_log n, ?s)" using wal_holds_in_dir by simp
    from raft_log_append_step [OF this, of crc "n_term n" dat] a s1
    have so: "same_outside (rl_dir (n_log n)) ?s s1" by (simp add: outcome_def fs_step_def)
    have "butlast (path_join (n_data_dir n) x) \<noteq> rl_dir (n_log n)"
      using rl_dir_node [OF rep] by (simp add: path_join_def)
    then show ?thesis using so by (simp add: same_outside_def)
  qed
  have "snapshot_cell.stored (n_data_dir n) (s1\<lparr>faults := []\<rparr>) = Ok (n_snapshot n)"
    by (rule snapshot_kept [OF rep]) (simp add: snapshot_path_def fr)
  moreover have "vote_cell.stored (n_data_dir n) s1 = vote_cell.stored (n_data_dir n) s" by (simp add: vote_cell.stored_def fr)
  ultimately show ?thesis using True o rep by (simp add: disk_after_def node_rep_def ps_synced_def)
qed

lemma crash_forward:
  assumes inv: "cluster_inv c" and at: "c_nodes c i = Some (n, s)" and ok: "stage_ok c i n st"
    and run: "attempt crc env net st (n, s\<lparr>faults := fl\<rparr>) = (r, (n1, s1))"
    and start: "node_start crc env' (n_config n) (s1\<lparr>faults := []\<rparr>) = (Ok n', s')"
  shows "n_term n \<le> n_term n'"
proof -
  have na: "node_at c i (n, s)" using inv at by (simp add: cluster_inv_def)
  then have ni: "node_inv n (s\<lparr>faults := fl\<rparr>)" by (simp add: node_at_def node_inv_def)
  have cfg: "config_ok (n_config n)" "of_config (n_config n) n" using na by (simp_all add: node_at_def member_ok_def)
  have h: "healthy (s1\<lparr>faults := []\<rparr>)" by simp
  have "n_ballot n = disk_ballot (n_data_dir n) s" using na by (simp add: node_at_def synced_def)
  also have "\<dots> \<le> disk_ballot (n_data_dir n) s1" using attempt_evolves [OF ni inv ok run] by simp
  also have "\<dots> = n_ballot n'"
    using node_start_run [OF h cfg(1) start] cfg(2) by (simp add: of_config_def)
  finally show ?thesis by (auto simp: n_ballot_def)
qed

lemma sim_crash:
  assumes S: "sim crc a c" and step: "crash_step crc c c'"
  shows "\<exists>a'. proto_steps (members c) a a' \<and> sim crc a' c'"
  using step
proof cases
  case (crash i n s st env net fl r n1 s1 env' n' s')
  have inv': "cluster_inv c'" using crash_step_inv [OF step simD(2) [OF S]] .
  have inv: "proto_inv (members c) a" using simD(1) [OF S] .
  have ns: "node_sim crc a c i (n, s)" using simD(3) [OF S crash(2)] .
  then have l: "log_sim crc (members c) a i n s" by (simp add: node_sim_def)
  have rep: "node_rep crc n s" and xs: "p_log a i = n_entries n" "p_term a i = unat (n_term n)" using l by (simp_all add: log_sim_def)
  let ?d = "n_data_dir n" and ?sd = "s1\<lparr>faults := []\<rparr>"
  have h: "healthy ?sd" by simp
  have c': "c' = c\<lparr>c_nodes := (c_nodes c)(i \<mapsto> (n', s')), c_waiting := (c_waiting c)(i := None), c_writing := (c_writing c)(i := None)\<rparr>"
    using crash(1) .
  have start: "node_rep crc n' s' \<and> n_entries n' \<in> X \<and> rl_snapshot_index (n_log n') = 0 \<and> rl_snapshot_term (n_log n') = 0 \<and>
      n_snapshot n' = None \<and> n_role n' = Follower \<and> n_commit_index n' = 0 \<and> n_term n' = fst (vote_cell.stored ?d s1)"
    if "disk_after crc n ?sd X" for X
    using start_after_crash [OF rep that h crash(6)] log_sim_snapshot [OF l] by (simp add: vote_cell.stored_def)
  have fwd: "n_term n \<le> n_term n'" by (rule crash_forward [OF simD(2) [OF S] crash(2,3,4,6)])
  have keep: ?thesis if "disk_after crc n ?sd X" "n_entries n' = n_entries n" for X
  proof -
    let ?a = "a\<lparr>p_term := (p_term a)(i := unat (n_term n'))\<rparr>"
    have run: "proto_steps (members c) a ?a" by (rule advance_path) (use fwd xs in \<open>simp add: u64_le_iff\<close>)
    have "sim crc ?a c'"
      by (rule sim_started [OF S crash(2) inv' c' _ _ _ _ _ _ run]) (use start [OF that(1)] that(2) xs in simp_all)
    with run show ?thesis by blast
  qed
  have same: ?thesis if "disk_after crc n ?sd {n_entries n}"
    using keep [OF that] start [OF that] by simp
  show ?thesis
  proof (cases st)
    case (Merging req)
    let ?t = "unat (ae_term req)" and ?p = "unat (ae_prev_log_index req)" and ?es = "ae_entries req"
    have req: "req \<in> c_sent c" and room: "room_for (n_log n) (2 * length ?es) (map le_data ?es)"
      using crash(3) Merging by simp_all
    obtain G where G: "p_hist a ?t = Some G" "piece req G \<or> unmatched req"
      using simD(7) [OF S req] by (auto simp: sent_ok_def)
    have pc: "piece req G \<and> agree ?p (n_entries n) G" if "ae_consistency req n = None"
      using consistent_agree [OF inv l that G] by simp
    have snap: "rl_snapshot_index (n_log n) = 0" using log_sim_snapshot [OF l] by simp
    have cons: "ae_consistency req n = None \<longrightarrow> rl_snapshot_index (n_log n) \<le> ae_prev_log_index req \<and>
        numbered_from (ae_prev_log_index req) ?es"
      using pc snap by (simp add: piece_def Let_def)
    obtain m where m: "log_budget (n_log n) (2 * length ?es) m" "\<forall>e \<in> set ?es. 17 + length (le_data e) \<le> m"
      using room by (auto simp: room_for_def)
    obtain j f k where fl: "fl = replicate j Pass @ f # replicate k Refuse" and more: "faults s1 \<noteq> []"
      using crash(5) by (auto simp: dies_def)
    obtain q n2 s2 where ae: "on_append_entries crc env req (n, s\<lparr>faults := fl\<rparr>) = (q, (n2, s2))" by (metis surj_pair)
    have s2: "s2 = s1" using crash(4) Merging ae by (cases q) (auto simp: no_reply_def)
    have rs: "set (replicate k Refuse) \<subseteq> {Refuse}" by auto
    from on_append_entries_crash [OF rep rs cons m, of env j f q n2 s2] ae fl more s2 snap
    have "disk_after crc n ?sd {n_entries n} \<or> n_term n \<le> ae_term req \<and> ae_consistency req n = None \<and>
        disk_after crc n ?sd (partial ?p ?es (n_entries n)) \<and> fst (vote_cell.stored ?d s1) = ae_term req"
      by (simp add: living_def)
    then show ?thesis
    proof (elim disjE conjE)
      assume none: "ae_consistency req n = None" and disk: "disk_after crc n ?sd (partial ?p ?es (n_entries n))"
        and t: "fst (vote_cell.stored ?d s1) = ae_term req"
      have post: "n_entries n' \<in> partial ?p ?es (p_log a i)" "n_term n' = ae_term req"
        using start [OF disk] t xs by simp_all
      have es: "?es = take (length ?es) (drop ?p G)" "?p + length ?es \<le> length G" and ag: "agree ?p (p_log a i) G"
        using pc [OF none] xs by (simp_all add: piece_def Let_def)
      have se: "same_entries ?p ?es (p_log a i)"
        by (rule matching_same_entries [OF inv log_known hist_known [OF G(1)] es])
      let ?b = "a\<lparr>p_term := (p_term a)(i := ?t)\<rparr>"
      let ?a = "?b\<lparr>p_log := (p_log ?b)(i := n_entries n')\<rparr>"
      have "proto_steps (members c) a ?b" by (rule advance_path) (use fwd post xs in \<open>simp add: u64_le_iff\<close>)
      moreover have "proto_steps (members c) ?b ?a"
        by (rule partial_path [of _ _ ?t G ?p ?es "length ?es"]) (use G(1) ag es se post in simp_all)
      ultimately have run: "proto_steps (members c) a ?a" by (rule rtranclp_trans)
      have "sim crc ?a c'"
        by (rule sim_started [OF S crash(2) inv' c' _ _ _ _ _ _ run]) (use start [OF disk] post in simp_all)
      with run show ?thesis by blast
    qed (rule same)
  next
    case (Writing dat)
    let ?e = "\<lparr>le_term = n_term n, le_index = last_index (n_log n) + 1, le_data = dat\<rparr>"
    have room: "room_for (n_log n) 1 [dat]" using crash(3) Writing by simp
    from write_crash [OF rep room crash(4) [unfolded Writing]] show ?thesis
    proof (elim disjE conjE)
      assume lead: "n_role n = Leader" and t: "fst (vote_cell.stored ?d s1) = n_term n"
        and disk: "disk_after crc n ?sd {n_entries n, n_entries n @ [?e]}"
      have post: "n_entries n' \<in> {n_entries n, n_entries n @ [?e]}" "n_term n' = n_term n" using start [OF disk] t by simp_all
      show ?thesis
      proof (cases "n_entries n' = n_entries n")
        case True
        then show ?thesis by (rule keep [OF disk])
      next
        case False
        let ?t = "unat (n_term n)"
        let ?a = "a\<lparr>p_hist := (p_hist a)(?t \<mapsto> p_log a i @ [?e]), p_log := (p_log a)(i := p_log a i @ [?e])\<rparr>"
        have G: "p_hist a ?t = Some (p_log a i)" using hist_of_leader [OF S crash(2) lead] xs by simp
        have "proto_step (members c) a ?a" by (rule proto_step.propose) (use G xs in simp_all)
        then have run: "proto_steps (members c) a ?a" by blast
        have "sim crc ?a c'"
          by (rule sim_started [OF S crash(2) inv' c' _ _ _ _ _ _ run]) (use start [OF disk] post False xs G lead in \<open>auto split: if_splits\<close>)
        with run show ?thesis by blast
      qed
    qed (rule same)
  qed (rule same, rule apart_disk_after [OF rep attempt_apart [OF crash(3,4)]], simp_all)+
qed

end
