(* ===== verification/Replicas_Sample.thy ===== *)
theory Replicas_Sample
  imports Replicas Cluster_Properties
begin

text \<open>
  A run of three nodes: \<open>A\<close> is elected by \<open>B\<close>, writes an entry that \<open>B\<close> acknowledges, tells \<open>B\<close> that it is committed,
  and \<open>B\<close> becomes leader of the next term by the vote of \<open>C\<close>. The calls are evaluated.
\<close>

definition replicas_three :: replicas where
  "replicas_three = \<lparr>c_nodes = c_nodes three, c_waiting = Map.empty, c_requests = {}, c_answers = {},
     c_sent = {}, c_acked = {}, c_writing = Map.empty, c_returned = {}\<rparr>"

abbreviation node_B :: raft_node where
  "node_B \<equiv> started (three_config ''B'' ''A'' ''C'')"

abbreviation node_C :: raft_node where
  "node_C \<equiv> started (three_config ''C'' ''A'' ''B'')"

lemma three_nodes:
  "c_nodes three = [''A'' \<mapsto> (node_A, started_fs ''A''), ''B'' \<mapsto> (node_B, started_fs ''B''), ''C'' \<mapsto> (node_C, started_fs ''C'')]"
  by (simp add: three_def)

lemma three_replicas_init: "replicas_init sum_crc replicas_three"
proof -
  have "(\<exists>env cfg s0. healthy s0 \<and> member_ok (dom (c_nodes three)) i cfg \<and> node_start sum_crc env cfg s0 = (Ok n, s)) \<and>
      node_rep sum_crc n s \<and> rl_entries (n_log n) = [] \<and> rl_snapshot_index (n_log n) = 0 \<and> rl_snapshot_term (n_log n) = 0 \<and> n_snapshot n = None"
    if at: "c_nodes three i = Some (n, s)" for i n s
  proof
    show "\<exists>env cfg s0. healthy s0 \<and> member_ok (dom (c_nodes three)) i cfg \<and> node_start sum_crc env cfg s0 = (Ok n, s)"
      using three_init at by (auto simp: cluster_init_def)
    obtain cfg where "n = started cfg" "s = started_fs i" "cc_data_dir cfg = [i]" "ni_id (cc_this_node cfg) = i"
      using at by (auto simp: three_nodes split: if_splits)
    then show "node_rep sum_crc n s \<and> rl_entries (n_log n) = [] \<and> rl_snapshot_index (n_log n) = 0 \<and> rl_snapshot_term (n_log n) = 0 \<and>
        n_snapshot n = None"
      using started_rep [of cfg i] by (simp add: started_def)
  qed
  then show ?thesis by (simp add: replicas_init_def replicas_three_def)
qed

definition A1 :: "raft_node \<times> fs" where "A1 = state_after (start_election_begin still (node_A, started_fs ''A''))"
definition B1 :: "raft_node \<times> fs" where "B1 = state_after (on_request_vote still vote_for_A (node_B, started_fs ''B''))"
definition yes_vote :: "u64 \<Rightarrow> request_vote_response" where "yes_vote t = \<lparr>rvr_term = t, rvr_vote_granted = True\<rparr>"
definition A2 :: "raft_node \<times> fs" where "A2 = state_after (start_election_finish still [Some (yes_vote 1), None] A1)"

definition entry_7 :: log_entry where "entry_7 = \<lparr>le_term = 1, le_index = 1, le_data = [7]\<rparr>"
definition send_7 :: append_entries_request where
  "send_7 = \<lparr>ae_term = 1, ae_leader_id = ''A'', ae_prev_log_index = 0, ae_prev_log_term = 0, ae_entries = [entry_7], ae_leader_commit = 0\<rparr>"
definition yes_append :: append_entries_response where
  "yes_append = \<lparr>aer_term = 1, aer_success = True, aer_conflict_index = 0, aer_conflict_term = 0\<rparr>"
definition A3 :: "raft_node \<times> fs" where "A3 = state_after (client_write_begin sum_crc [7] A2)"
definition B2 :: "raft_node \<times> fs" where "B2 = state_after (on_append_entries sum_crc still send_7 B1)"
definition A4 :: "raft_node \<times> fs" where
  "A4 = state_after (client_write_finish sum_crc still 1 [(''B'', yes_append), (''C'', ae_failed)] [] A3)"
definition A5 :: "raft_node \<times> fs" where "A5 = state_after (send_heartbeats still yes_net A4)"
definition beat_1 :: append_entries_request where
  "beat_1 = \<lparr>ae_term = 1, ae_leader_id = ''A'', ae_prev_log_index = 1, ae_prev_log_term = 1, ae_entries = [], ae_leader_commit = 1\<rparr>"
definition B3 :: "raft_node \<times> fs" where "B3 = state_after (on_append_entries sum_crc still beat_1 B2)"

definition vote_for_B :: request_vote_request where
  "vote_for_B = \<lparr>rv_term = 2, rv_candidate_id = ''B'', rv_last_log_index = 1, rv_last_log_term = 1\<rparr>"
definition B4 :: "raft_node \<times> fs" where "B4 = state_after (start_election_begin still B3)"

text \<open>\<open>C\<close> dies while it merges the entry: term and entry are written, and the process ends in the call that syncs the
  entry. It starts again on what is on its disk.\<close>

definition death :: "fault list" where "death = [Pass, Pass, Pass, Refuse, Refuse, Refuse]"
definition C_dead :: "raft_node \<times> fs" where
  "C_dead = state_after (attempt sum_crc still yes_net (Merging send_7) (node_C, (started_fs ''C'')\<lparr>faults := death\<rparr>))"
definition C_back :: "(raft_node, raft_error) res \<times> fs" where
  "C_back = node_start sum_crc still (n_config node_C) ((snd C_dead)\<lparr>faults := []\<rparr>)"

fun the_node :: "(raft_node, raft_error) res \<times> fs \<Rightarrow> raft_node \<times> fs" where
  "the_node (Ok n, s) = (n, s)"
| "the_node (_, s) = (node_C, s)"

definition C0' :: "raft_node \<times> fs" where "C0' = the_node C_back"
definition C1 :: "raft_node \<times> fs" where "C1 = state_after (on_request_vote still vote_for_B C0')"
definition B5 :: "raft_node \<times> fs" where "B5 = state_after (start_election_finish still [None, Some (yes_vote 2)] B4)"


text \<open>What the calls of the run return, and what the run needs to know of the nodes they leave, evaluated.\<close>

definition small :: "raft_log \<Rightarrow> bool" where
  "small l \<longleftrightarrow> wc_max_segment_bytes (w_config (rl_wal l)) = 67108864 \<and> w_next_sequence (rl_wal l) \<le> 10 \<and>
     seg_id (w_active (rl_wal l)) \<le> 10 \<and> last_index l \<le> 10"

fun seen :: "raft_node \<times> fs \<Rightarrow> (role \<times> u64 \<times> u64) \<times> log_entry list \<times> node_info list \<times> append_entries_request \<times> bool \<times> bool" where
  "seen (n, s) = ((n_role n, n_term n, n_commit_index n), rl_entries (n_log n), n_peers n, heartbeat n,
     n_entries_since_snapshot n + 1 < n_snapshot_trigger n, small (n_log n))"

fun report :: "('a, 'e) res \<times> raft_node \<times> fs \<Rightarrow> ('a, 'e) res \<times> (role \<times> u64 \<times> u64) \<times> log_entry list \<times> node_info list \<times> append_entries_request \<times> bool \<times> bool" where
  "report (r, ns) = (r, seen ns)"

definition beat_of :: "string \<Rightarrow> u64 \<Rightarrow> u64 \<Rightarrow> u64 \<Rightarrow> append_entries_request" where
  "beat_of i t k cm = \<lparr>ae_term = t, ae_leader_id = i, ae_prev_log_index = k, ae_prev_log_term = k, ae_entries = [], ae_leader_commit = cm\<rparr>"

lemma eval_A1: "report (start_election_begin still (node_A, started_fs ''A'')) =
  (Ok vote_for_A, ((Candidate, 1, 0), [], [member ''B'', member ''C''], beat_of ''A'' 1 0 0, True, True))" by code_simp
lemma eval_B1: "report (on_request_vote still vote_for_A (node_B, started_fs ''B'')) =
  (Ok (yes_vote 1), ((Follower, 1, 0), [], [member ''A'', member ''C''], beat_of ''B'' 1 0 0, True, True))" by code_simp
lemma eval_A2: "report (start_election_finish still [Some (yes_vote 1), None] A1) =
  (Ok (), ((Leader, 1, 0), [], [member ''B'', member ''C''], beat_of ''A'' 1 0 0, True, True))" by code_simp
lemma eval_A3: "report (client_write_begin sum_crc [7] A2) =
  (Ok (1, [(member ''B'', send_7), (member ''C'', send_7)], []), ((Leader, 1, 0), [entry_7], [member ''B'', member ''C''], beat_of ''A'' 1 1 0, True, True))" by code_simp
lemma eval_B2: "report (on_append_entries sum_crc still send_7 B1) =
  (Ok yes_append, ((Follower, 1, 0), [entry_7], [member ''A'', member ''C''], beat_of ''B'' 1 1 0, True, True))" by code_simp
lemma eval_A4: "report (client_write_finish sum_crc still 1 [(''B'', yes_append), (''C'', ae_failed)] [] A3) =
  (Ok 1, ((Leader, 1, 1), [entry_7], [member ''B'', member ''C''], beat_of ''A'' 1 1 1, True, True))" by code_simp
lemma eval_A5: "report (send_heartbeats still yes_net A4) =
  (Ok (), ((Leader, 1, 1), [entry_7], [member ''B'', member ''C''], beat_of ''A'' 1 1 1, True, True))" by code_simp
lemma eval_B3: "report (on_append_entries sum_crc still beat_1 B2) =
  (Ok yes_append, ((Follower, 1, 1), [entry_7], [member ''A'', member ''C''], beat_of ''B'' 1 1 1, True, True))" by code_simp
lemma eval_B4: "report (start_election_begin still B3) =
  (Ok vote_for_B, ((Candidate, 2, 1), [entry_7], [member ''A'', member ''C''], \<lparr>ae_term = 2, ae_leader_id = ''B'', ae_prev_log_index = 1,
  ae_prev_log_term = 1, ae_entries = [], ae_leader_commit = 1\<rparr>, True, True))" by code_simp
lemma eval_C_dead: "length (faults (snd C_dead)) = 2" by code_simp
lemma eval_C_back: "is_ok (fst C_back) \<and> fst (seen C0') = (Follower, 1, 0) \<and> rl_entries (n_log (fst C0')) = [entry_7]" by code_simp
lemma eval_C1: "report (on_request_vote still vote_for_B C0') =
  (Ok (yes_vote 2), ((Follower, 2, 0), [entry_7], [member ''A'', member ''B''], \<lparr>ae_term = 2, ae_leader_id = ''C'', ae_prev_log_index = 1,
    ae_prev_log_term = 1, ae_entries = [], ae_leader_commit = 0\<rparr>, True, True))" by code_simp
lemma eval_B5: "report (start_election_finish still [None, Some (yes_vote 2)] B4) =
  (Ok (), ((Leader, 2, 1), [entry_7], [member ''A'', member ''C''], \<lparr>ae_term = 2, ae_leader_id = ''B'', ae_prev_log_index = 1,
  ae_prev_log_term = 1, ae_entries = [], ae_leader_commit = 1\<rparr>, True, True))" by code_simp

lemma reported: "report x = (r, v) \<Longrightarrow> x = (r, state_after x) \<and> seen (state_after x) = v"
  by (cases x) simp

lemmas run_reports =
  reported [OF eval_A1, folded A1_def]
  reported [OF eval_B1, folded B1_def]
  reported [OF eval_A2, folded A2_def]
  reported [OF eval_A3, folded A3_def]
  reported [OF eval_B2, folded B2_def]
  reported [OF eval_A4, folded A4_def]
  reported [OF eval_A5, folded A5_def]
  reported [OF eval_B3, folded B3_def]
  reported [OF eval_B4, folded B4_def]
  reported [OF eval_C1, folded C1_def]
  reported [OF eval_B5, folded B5_def]

lemmas run_calls = run_reports [THEN conjunct1]

lemma seenD:
  assumes "seen ns = ((r, t, cm), es, ps, hb, b, l)"
  shows "n_role (fst ns) = r" "n_term (fst ns) = t" "n_commit_index (fst ns) = cm" "rl_entries (n_log (fst ns)) = es" "n_peers (fst ns) = ps"
    "heartbeat (fst ns) = hb" "(n_entries_since_snapshot (fst ns) + 1 < n_snapshot_trigger (fst ns)) = b" "small (n_log (fst ns)) = l"
  using assms by (cases ns; simp)+

lemmas run_seen = run_reports [THEN conjunct2, THEN seenD(1)]
  run_reports [THEN conjunct2, THEN seenD(2)]
  run_reports [THEN conjunct2, THEN seenD(3)]
  run_reports [THEN conjunct2, THEN seenD(4)]
  run_reports [THEN conjunct2, THEN seenD(5)]
  run_reports [THEN conjunct2, THEN seenD(6)]
  run_reports [THEN conjunct2, THEN seenD(7)]
  run_reports [THEN conjunct2, THEN seenD(8)]

lemma small_room:
  assumes "small l" and "k \<le> 10" and "\<forall>d \<in> set ds. length d \<le> 10"
  shows "room_for l k ds"
proof -
  have "log_budget l k 100"
    using assms(1,2) by (simp add: small_def log_budget_def wal_budget_def HEADER_SIZE_def u64_le_iff)
  then show ?thesis using assms(3) by (auto simp: room_for_def intro!: exI [of _ 100])
qed

text \<open>The run: the nodes, what waits and what was sent, answered and returned.\<close>

definition run_state where
  "run_state a b c w rq an se ac wr re = \<lparr>c_nodes = [''A'' \<mapsto> a, ''B'' \<mapsto> b, ''C'' \<mapsto> c], c_waiting = w, c_requests = rq, c_answers = an,
     c_sent = se, c_acked = ac, c_writing = wr, c_returned = re\<rparr>"

lemma run_step: "replica_step crc c c'' \<Longrightarrow> c'' = c' \<Longrightarrow> replica_step crc c c'"
  by simp

abbreviation B0 :: "raft_node \<times> fs" where "B0 \<equiv> (node_B, started_fs ''B'')"
abbreviation C0 :: "raft_node \<times> fs" where "C0 \<equiv> (node_C, started_fs ''C'')"
lemma C_starts: "node_start sum_crc still (n_config node_C) ((snd C_dead)\<lparr>faults := []\<rparr>) = (Ok (fst C0'), snd C0')"
  using eval_C_back by (cases C_back rule: the_node.cases) (simp_all add: C0'_def C_back_def)

lemma C_dies: "dies death (snd C_dead)"
proof -
  have "death = replicate 3 Pass @ Refuse # replicate 2 Refuse" by (simp add: death_def eval_nat_numeral)
  then show ?thesis using eval_C_dead by (auto simp: dies_def)
qed

abbreviation vote_B where "vote_B \<equiv> (''B'', vote_for_A, yes_vote 1)"
abbreviation vote_C where "vote_C \<equiv> (''C'', vote_for_B, yes_vote 2)"
abbreviation ack_B where "ack_B \<equiv> (''B'', send_7, yes_append)"
abbreviation beat_B where "beat_B \<equiv> (''B'', beat_1, yes_append)"
abbreviation writing_A where
  "writing_A \<equiv> [''A'' \<mapsto> (1 :: u64, [(member ''B'', send_7), (member ''C'', send_7)])]"

lemma run_simps:
  "c_nodes (run_state a b c w rq an se ac wr re) = [''A'' \<mapsto> a, ''B'' \<mapsto> b, ''C'' \<mapsto> c]"
  "c_waiting (run_state a b c w rq an se ac wr re) = w" "c_writing (run_state a b c w rq an se ac wr re) = wr"
  "c_requests (run_state a b c w rq an se ac wr re) = rq" "c_answers (run_state a b c w rq an se ac wr re) = an"
  "c_sent (run_state a b c w rq an se ac wr re) = se" "c_acked (run_state a b c w rq an se ac wr re) = ac"
  "idle (run_state a b c w rq an se ac wr re) i \<longleftrightarrow> w i = None \<and> wr i = None"
  by (simp_all add: run_state_def idle_def)

lemma request_simps: "ae_entries send_7 = [entry_7]" "le_data entry_7 = [7]" "ae_entries beat_1 = []"
  by (simp_all add: send_7_def entry_7_def beat_1_def)

lemma run_ends: "m = (fst m, (fst (state_after m), snd (state_after m)))"
  by (cases m) simp

lemma small_started: "small (n_log (started cfg))"
  by (simp add: small_def started_def sample_wal_def node_wal_config_def last_index_def)

lemma run_elects_A:
  "orderly_reach sum_crc replicas_three
     (run_state A2 B1 C0 Map.empty {vote_for_A} {vote_B} {} {} Map.empty {})"
proof -
  have start: "replicas_three = run_state (node_A, started_fs ''A'') B0 C0 Map.empty {} {} {} {} Map.empty {}"
    by (simp add: replicas_three_def run_state_def three_nodes)
  have "replica_step sum_crc (run_state (node_A, started_fs ''A'') B0 C0 Map.empty {} {} {} {} Map.empty {})
      (run_state A1 B0 C0 [''A'' \<mapsto> vote_for_A] {vote_for_A} {} {} {} Map.empty {})"
    by (rule run_step [OF replica_step.campaign [where i = "''A''", OF _ _ _ _ run_calls(1)]]) (simp_all add: run_simps, simp add: run_state_def fun_upd_twist fun_upd_idem)
  moreover have "replica_step sum_crc (run_state A1 B0 C0 [''A'' \<mapsto> vote_for_A] {vote_for_A} {} {} {} Map.empty {})
      (run_state A1 B1 C0 [''A'' \<mapsto> vote_for_A] {vote_for_A} {vote_B} {} {} Map.empty {})"
    by (rule run_step [OF replica_step.vote [where i = "''B''" and n = node_B and s = "started_fs ''B''" and req = vote_for_A and net = yes_net and env = still and resp = "yes_vote 1" and ns' = B1]])
      (simp_all add: run_simps handle_msg_def reply_with_def run_calls, simp add: run_state_def fun_upd_twist fun_upd_idem)
  moreover have "replica_step sum_crc (run_state A1 B1 C0 [''A'' \<mapsto> vote_for_A] {vote_for_A} {vote_B} {} {} Map.empty {})
      (run_state A2 B1 C0 Map.empty {vote_for_A} {vote_B} {} {} Map.empty {})"
    by (rule run_step [OF replica_step.elect [where i = "''A''" and n = "fst A1" and s = "snd A1" and req = vote_for_A and env = still
            and rs = "[Some (yes_vote 1), None]" and ns' = A2]])
      (simp_all add: run_simps run_seen run_calls, simp add: run_state_def fun_upd_twist fun_upd_idem)
  ultimately show ?thesis unfolding start by (meson orderly_reach.intros)
qed

lemma run_writes:
  "orderly_reach sum_crc (run_state A2 B1 C0 Map.empty {vote_for_A} {vote_B} {} {} Map.empty {})
     (run_state A4 B2 C0 Map.empty {vote_for_A} {vote_B} {send_7} {ack_B} Map.empty {entry_7})"
proof -
  have "replica_step sum_crc (run_state A2 B1 C0 Map.empty {vote_for_A} {vote_B} {} {} Map.empty {})
      (run_state A3 B1 C0 Map.empty {vote_for_A} {vote_B} {send_7} {} writing_A {})"
    by (rule run_step [OF replica_step.propose [where i = "''A''" and n = "fst A2" and s = "snd A2" and ns' = A3 and dat = "[7]" and index = 1
            and aes = "[(member ''B'', send_7), (member ''C'', send_7)]" and snaps = "[]"]])
      (simp_all add: run_simps run_seen run_calls small_room, simp add: run_state_def fun_upd_twist fun_upd_idem)
  moreover have "replica_step sum_crc (run_state A3 B1 C0 Map.empty {vote_for_A} {vote_B} {send_7} {} writing_A {})
      (run_state A3 B2 C0 Map.empty {vote_for_A} {vote_B} {send_7} {ack_B} writing_A {})"
    by (rule run_step [OF replica_step.entries [where i = "''B''" and n = "fst B1" and s = "snd B1" and req = send_7 and net = yes_net and env = still
            and resp = yes_append and ns' = B2]])
      (simp_all add: run_simps run_seen run_calls small_room handle_msg_def reply_with_def request_simps,
       simp add: run_state_def fun_upd_twist fun_upd_idem)
  moreover have "replica_step sum_crc (run_state A3 B2 C0 Map.empty {vote_for_A} {vote_B} {send_7} {ack_B} writing_A {})
      (run_state A4 B2 C0 Map.empty {vote_for_A} {vote_B} {send_7} {ack_B} Map.empty {entry_7})"
    by (rule run_step [OF replica_step.commit [where i = "''A''" and n = "fst A3" and s = "snd A3" and env = still and index = 1 and ns' = A4
            and aes = "[(member ''B'', send_7), (member ''C'', send_7)]" and rs = "[Some yes_append, None]" and res = "Ok 1"]])
      (simp_all add: run_simps run_seen run_calls ae_answer_def, simp add: run_state_def fun_upd_twist fun_upd_idem)
  ultimately show ?thesis by (meson orderly_reach.intros)
qed

lemma run_elects_B:
  "replicas_reach sum_crc (run_state A4 B2 C0 Map.empty {vote_for_A} {vote_B} {send_7} {ack_B} Map.empty {entry_7})
     (run_state A5 B5 C1 Map.empty {vote_for_B, vote_for_A} {vote_C, vote_B} {beat_1, send_7} {beat_B, ack_B} Map.empty {entry_7})"
proof -
  have "attempt sum_crc still yes_net (Merging send_7) (node_C, (started_fs ''C'')\<lparr>faults := death\<rparr>) =
      (fst (attempt sum_crc still yes_net (Merging send_7) (node_C, (started_fs ''C'')\<lparr>faults := death\<rparr>)), (fst C_dead, snd C_dead))"
    by (rule run_ends [of "attempt sum_crc still yes_net (Merging send_7) (node_C, (started_fs ''C'')\<lparr>faults := death\<rparr>)", folded C_dead_def])
  from crash_step.crash [OF _ _ this C_dies C_starts,
      of "run_state A4 B2 C0 Map.empty {vote_for_A} {vote_B} {send_7} {ack_B} Map.empty {entry_7}" "''C''"]
  have "crash_step sum_crc (run_state A4 B2 C0 Map.empty {vote_for_A} {vote_B} {send_7} {ack_B} Map.empty {entry_7})
      (run_state A4 B2 C0' Map.empty {vote_for_A} {vote_B} {send_7} {ack_B} Map.empty {entry_7})"
    using small_room [of "n_log node_C" 2 "[[7]]"]
    by (simp add: run_simps request_simps small_started) (simp add: run_state_def fun_upd_twist)
  moreover have "replica_step sum_crc (run_state A4 B2 C0' Map.empty {vote_for_A} {vote_B} {send_7} {ack_B} Map.empty {entry_7})
      (run_state A5 B2 C0' Map.empty {vote_for_A} {vote_B} {beat_1, send_7} {ack_B} Map.empty {entry_7})"
    by (rule run_step [OF replica_step.beat [where i = "''A''" and n = "fst A4" and s = "snd A4" and env = still and net = yes_net and ns' = A5]])
      (simp_all add: run_simps run_seen run_calls, simp add: run_state_def fun_upd_twist fun_upd_idem run_seen beat_of_def beat_1_def)
  moreover have "replica_step sum_crc (run_state A5 B2 C0' Map.empty {vote_for_A} {vote_B} {beat_1, send_7} {ack_B} Map.empty {entry_7})
      (run_state A5 B3 C0' Map.empty {vote_for_A} {vote_B} {beat_1, send_7} {beat_B, ack_B} Map.empty {entry_7})"
    by (rule run_step [OF replica_step.entries [where i = "''B''" and n = "fst B2" and s = "snd B2" and req = beat_1 and net = yes_net and env = still
            and resp = yes_append and ns' = B3]])
      (simp_all add: run_simps run_seen run_calls small_room handle_msg_def reply_with_def request_simps,
       simp add: run_state_def fun_upd_twist fun_upd_idem)
  moreover have "replica_step sum_crc (run_state A5 B3 C0' Map.empty {vote_for_A} {vote_B} {beat_1, send_7} {beat_B, ack_B} Map.empty {entry_7})
      (run_state A5 B4 C0' [''B'' \<mapsto> vote_for_B] {vote_for_B, vote_for_A} {vote_B} {beat_1, send_7} {beat_B, ack_B} Map.empty {entry_7})"
    by (rule run_step [OF replica_step.campaign [where i = "''B''" and n = "fst B3" and s = "snd B3" and env = still and req = vote_for_B and ns' = B4]])
      (simp_all add: run_simps run_seen run_calls, simp add: run_state_def fun_upd_twist fun_upd_idem)
  moreover have "replica_step sum_crc (run_state A5 B4 C0' [''B'' \<mapsto> vote_for_B] {vote_for_B, vote_for_A} {vote_B} {beat_1, send_7} {beat_B, ack_B} Map.empty {entry_7})
      (run_state A5 B4 C1 [''B'' \<mapsto> vote_for_B] {vote_for_B, vote_for_A} {vote_C, vote_B} {beat_1, send_7} {beat_B, ack_B} Map.empty {entry_7})"
    by (rule run_step [OF replica_step.vote [where i = "''C''" and n = "fst C0'" and s = "snd C0'" and req = vote_for_B and net = yes_net and env = still
            and resp = "yes_vote 2" and ns' = C1]])
      (simp_all add: run_simps handle_msg_def reply_with_def run_calls, simp add: run_state_def fun_upd_twist fun_upd_idem)
  moreover have "replica_step sum_crc (run_state A5 B4 C1 [''B'' \<mapsto> vote_for_B] {vote_for_B, vote_for_A} {vote_C, vote_B} {beat_1, send_7} {beat_B, ack_B} Map.empty {entry_7})
      (run_state A5 B5 C1 Map.empty {vote_for_B, vote_for_A} {vote_C, vote_B} {beat_1, send_7} {beat_B, ack_B} Map.empty {entry_7})"
    by (rule run_step [OF replica_step.elect [where i = "''B''" and n = "fst B4" and s = "snd B4" and req = vote_for_B and env = still
            and rs = "[None, Some (yes_vote 2)]" and ns' = B5]])
      (simp_all add: run_simps run_seen run_calls, simp add: run_state_def fun_upd_twist fun_upd_idem)
  ultimately show ?thesis by (meson replicas_reach.intros)
qed

lemma replicas_reach_trans:
  assumes "replicas_reach crc c c'" and "replicas_reach crc c' c''"
  shows "replicas_reach crc c c''"
  using assms(2,1) by (induction rule: replicas_reach.induct) (auto intro: replicas_reach.intros)

lemma orderly_reach_trans:
  assumes "orderly_reach crc c c'" and "orderly_reach crc c' c''"
  shows "orderly_reach crc c c''"
  using assms(2,1) by (induction rule: orderly_reach.induct) (auto intro: orderly_reach.intros)

text \<open>The entry is returned; \<open>C\<close> dies with it in its log and comes back; later \<open>B\<close> leads term 2 by the vote of \<open>C\<close>, and \<open>A\<close>
  and \<open>B\<close> have committed the entry.\<close>

lemma sample_run:
  obtains c c' where "replicas_reach sum_crc replicas_three c" and "replicas_reach sum_crc c c'" and "entry_7 \<in> c_returned c"
    and "c_nodes c ''A'' = Some (fst A4, snd A4)" and "c_nodes c' ''A'' = Some (fst A5, snd A5)" and "c_nodes c' ''B'' = Some (fst B5, snd B5)"
  by (rule that [OF orderly_replicas [OF orderly_reach_trans [OF run_elects_A run_writes]] run_elects_B]) (simp_all add: run_state_def)

text \<open>The part of it without the death.\<close>

lemma orderly_sample:
  obtains c where "orderly_reach sum_crc replicas_three c" and "c_nodes c ''B'' = Some (fst B2, snd B2)"
  by (rule that [OF orderly_reach_trans [OF run_elects_A run_writes]]) (simp add: run_state_def)

end
