(* ===== verification/Replicas_Properties.thy ===== *)
theory Replicas_Properties
  imports Replicas_Crash Replicas_Sample
begin

text \<open>
  What replication guarantees. Every run of the cluster of \<open>Replicas\<close> is a run of the abstract protocol, so the
  protocol's theorems are theorems about the nodes' logs; a process may die at any call to the file system in the
  middle of any handler. The witnesses share one run of three nodes: \<open>A\<close> is elected, writes an entry with \<open>B\<close>,
  \<open>C\<close> dies while it stores the entry and starts again, and \<open>B\<close> becomes leader of the next term by the vote of \<open>C\<close>.
\<close>

section \<open>Runs simulate\<close>

lemma replica_step_members: "replica_step crc c c' \<Longrightarrow> members c' = members c"
  by (induction rule: replica_step.induct) (auto simp: dom_def split: if_splits)

lemma crash_step_members: "crash_step crc c c' \<Longrightarrow> members c' = members c"
  by (induction rule: crash_step.induct) (auto simp: dom_def split: if_splits)

lemma node_start_idle: "node_start crc env cfg s = (Ok n, s') \<Longrightarrow> n_role n = Follower \<and> n_commit_index n = 0"
  unfolding node_start_def Let_def and_then_Ok_iff by auto

lemma init_sim:
  assumes init: "replicas_init crc c"
  obtains a where "proto_init a" and "sim crc a c"
proof
  define a where "a = \<lparr>p_term = (\<lambda>i. case c_nodes c i of Some (n, s) \<Rightarrow> unat (n_term n) | None \<Rightarrow> 0), p_log = (\<lambda>i. []),
    p_hist = Map.empty, p_cand = (\<lambda>i. Map.empty), p_votes = {}, p_acks = {}\<rparr>"
  show pi: "proto_init a" by (simp add: a_def proto_init_def)
  have ci: "cluster_init crc (cluster.truncate c)"
    using init by (simp add: cluster_init_def replicas_init_def)
  have empty: "c_waiting c = Map.empty" "c_writing c = Map.empty" "c_requests c = {}" "c_answers c = {}" "c_sent c = {}"
    "c_acked c = {}" "c_returned c = {}"
    using init by (simp_all add: replicas_init_def)
  have "node_sim crc a c i (n, s)" if at: "c_nodes c i = Some (n, s)" for i n s
  proof -
    obtain env cfg s0 where st: "node_start crc env cfg s0 = (Ok n, s)" using init at by (auto simp: replicas_init_def) blast
    have n: "n_role n = Follower" "n_commit_index n = 0" using node_start_idle [OF st] by simp_all
    have "node_rep crc n s \<and> n_entries n = [] \<and> rl_snapshot_index (n_log n) = 0 \<and> rl_snapshot_term (n_log n) = 0 \<and>
        n_snapshot n = None"
      using init at by (simp add: replicas_init_def)
    then show ?thesis
      using n at empty by (simp add: node_sim_def log_sim_def stands_def writes_def prefix_ok_def a_def)
  qed
  then have "if i \<in> members c then node_sim crc a c i (the (c_nodes c i)) else c_waiting c i = None \<and> c_writing c i = None" for i
    using empty by (auto simp: domIff)
  moreover have "p_hist a t = None" for t by (simp add: a_def)
  ultimately show "sim crc a c"
    using Cluster.init_inv [OF ci] proto_init_inv [OF pi] empty by (simp add: sim_def)
qed

lemma reach_sim:
  assumes "replicas_reach crc c c'" and "sim crc a c"
  obtains a' where "proto_steps (members c) a a'" and "sim crc a' c'" and "members c' = members c"
  using assms
proof (induction arbitrary: thesis rule: replicas_reach.induct)
  case (start c)
  then show ?case by blast
next
  case (step c c' c'')
  obtain a' where a': "proto_steps (members c) a a'" "sim crc a' c'" "members c' = members c"
    using step.IH step.prems(2) by blast
  then obtain a'' where "proto_steps (members c') a' a''" "sim crc a'' c''" using sim_step step.hyps(2) by blast
  then show ?case
    using step.prems(1) a' replica_step_members [OF step.hyps(2)] by (metis rtranclp_trans)
next
  case (crash c c' c'')
  obtain a' where a': "proto_steps (members c) a a'" "sim crc a' c'" "members c' = members c"
    using crash.IH crash.prems(2) by blast
  then obtain a'' where "proto_steps (members c') a' a''" "sim crc a'' c''" using sim_crash crash.hyps(2) by blast
  then show ?case
    using crash.prems(1) a' crash_step_members [OF crash.hyps(2)] by (metis rtranclp_trans)
qed

lemma run_sim:
  assumes "replicas_init crc c" and "replicas_reach crc c c'"
  obtains a where "sim crc a c'"
  using init_sim [OF assms(1)] reach_sim [OF assms(2)] by metis

lemma later_sim:
  assumes "sim crc a c" and "replicas_reach crc c c'"
  obtains a' where "sim crc a' c'" and "grows a a'" and "members c' = members c"
  using reach_sim [OF assms(2,1)] steps_grow simD(1) [OF assms(1)] by metis

lemma sim_log:
  assumes "sim crc a c" and "c_nodes c i = Some (n, s)"
  shows "p_log a i = n_entries n" and "log_wf (n_log n)"
    and "prefix_ok (members c) a (unat (n_term n)) (unat (n_commit_index n)) (n_entries n)"
  using simD(3) [OF assms] log_sim_facts(2) [of crc "members c" a i n s] by (auto simp: node_sim_def log_sim_def)

section \<open>The properties\<close>

text \<open>C5: refinement of the protocol. Every run of the cluster, processes dying at any file-system call of any
  handler included, is a run of the abstract Raft protocol among its members:
  starting from the protocol's initial state there is a run after which the protocol's terms and logs are the
  terms and the entries in the nodes' memories, the log of a leader is the protocol's log of its term, and every
  entry whose write was reported as done is chosen in its term, that is, acknowledged by a majority.\<close>

theorem replicas_refine_protocol:
  assumes "replicas_init crc c" and "replicas_reach crc c c'"
  shows "\<exists>a a'. proto_init a \<and> proto_steps (members c) a a' \<and>
    (\<forall>i n s. c_nodes c' i = Some (n, s) \<longrightarrow> p_term a' i = unat (n_term n) \<and> p_log a' i = n_entries n \<and>
       (n_role n = Leader \<longrightarrow> p_hist a' (unat (n_term n)) = Some (n_entries n))) \<and>
    (\<forall>e \<in> c_returned c'. chosen (members c) a' (eterm e) (unat (le_index e)))"
proof -
  obtain a where a: "proto_init a" "sim crc a c" using init_sim [OF assms(1)] by blast
  obtain a' where a': "proto_steps (members c) a a'" "sim crc a' c'" "members c' = members c" by (rule reach_sim [OF assms(2) a(2)])
  have "node_sim crc a' c' i (n, s)" if "c_nodes c' i = Some (n, s)" for i n s using simD(3) [OF a'(2) that] .
  moreover have "chosen (members c) a' (eterm e) (unat (le_index e))" if "e \<in> c_returned c'" for e
    using simD(9) [OF a'(2) that] a'(3) by (auto simp: returned_ok_def)
  ultimately show ?thesis using a(1) a'(1) by (intro exI [of _ a] exI [of _ a']) (simp add: node_sim_def log_sim_def)
qed

text \<open>C4: log matching. In every state that a run with process deaths reaches, when the logs of two nodes have entries of the same term
  at one place, the logs are the same up to and including that place.\<close>

theorem log_matching:
  assumes "replicas_init crc c" and "replicas_reach crc c c'"
    and "c_nodes c' i = Some (n, s)" and "c_nodes c' j = Some (m, u)"
    and "k < length (n_entries n)" and "k < length (n_entries m)" and "le_term (n_entries n ! k) = le_term (n_entries m ! k)"
  shows "take (Suc k) (n_entries n) = take (Suc k) (n_entries m)"
proof -
  obtain a where a: "sim crc a c'" by (rule run_sim [OF assms(1,2)])
  have "agree (Suc k) (p_log a i) (p_log a j)"
    using known_match [OF simD(1) [OF a] log_known [of a i] _ log_known [of a j], of k] assms(5-7)
      sim_log(1) [OF a assms(3)] sim_log(1) [OF a assms(4)] by simp
  then show ?thesis using sim_log(1) [OF a assms(3)] sim_log(1) [OF a assms(4)] by (simp add: agree_def)
qed

text \<open>C2: state machine safety. What a node has committed is never contradicted: when a node has committed past
  place \<open>k\<close> now and any node, the same or another, has committed past it now or later, both have an entry there,
  and it is the same one. Elections, truncations of uncommitted entries and deaths
  of processes in the middle of a handler come between.\<close>

theorem state_machine_safety:
  assumes "replicas_init crc c0" and "replicas_reach crc c0 c" and "replicas_reach crc c c'"
    and "c_nodes c i = Some (n, s)" and "k < unat (n_commit_index n)"
    and "c_nodes c' j = Some (m, u)" and "k < unat (n_commit_index m)"
  shows "k < length (n_entries n) \<and> k < length (n_entries m) \<and> n_entries n ! k = n_entries m ! k"
proof -
  obtain a where a: "sim crc a c" by (rule run_sim [OF assms(1,2)])
  obtain a' where a': "sim crc a' c'" "grows a a'" "members c' = members c" by (rule later_sim [OF a assms(3)])
  have "prefix_ok (members c) a' (unat (n_term n)) (unat (n_commit_index n)) (n_entries n)"
    by (rule prefix_ok_grows [OF a'(2) sim_log(3) [OF a assms(4)] order.refl])
  then show ?thesis
    using prefix_ok_same [OF simD(1) [OF a'(1)] _ assms(5) _ assms(7)] sim_log(3) [OF a'(1) assms(6)] a'(3) by metis
qed

text \<open>C3: leader completeness. An entry whose write \<open>on_client_write\<close> reported as done is in the log of every node that
  leads the entry's term or a later one, now or at any later time, at the entry's own index, whichever processes died on the way.\<close>

theorem leader_completeness:
  assumes "replicas_init crc c0" and "replicas_reach crc c0 c" and "replicas_reach crc c c'"
    and "e \<in> c_returned c" and "c_nodes c' j = Some (m, u)" and "n_role m = Leader" and "le_term e \<le> n_term m"
  shows "0 < unat (le_index e) \<and> unat (le_index e) \<le> length (n_entries m) \<and> n_entries m ! (unat (le_index e) - 1) = e"
proof -
  obtain a where a: "sim crc a c" by (rule run_sim [OF assms(1,2)])
  obtain a' where a': "sim crc a' c'" "grows a a'" "members c' = members c" by (rule later_sim [OF a assms(3)])
  have "returned_ok (members c') a' e"
    using returned_ok_grows [OF a'(2) simD(9) [OF a assms(4)]] a'(3) by simp
  then obtain i G where G: "chosen (members c') a' (eterm e) i" "p_hist a' (eterm e) = Some G" "i \<le> length G" "G ! (i - 1) = e"
    "unat (le_index e) = i"
    by (auto simp: returned_ok_def)
  have i: "0 < i" using G(1) by (auto simp: chosen_def own_def)
  have "holds_up_to a' (eterm e) i (n_entries m)"
    using chosen_in_leader [OF simD(1) [OF a'(1)] G(1) hist_of_leader [OF a'(1) assms(5,6)]] assms(7) by (simp add: u64_le_iff)
  then have ag: "agree i (n_entries m) G" using G(2) by (simp add: holds_up_to_def)
  then have "n_entries m ! (i - 1) = e" using agree_nth [OF ag, of "i - 1"] i G(4) by simp
  with ag i G(5) show ?thesis by (simp add: agree_def)
qed

section \<open>Witnesses\<close>

theorem replicas_refine_protocol_witness:
  "\<exists>c a a'. replicas_reach sum_crc replicas_three c \<and> proto_init a \<and> proto_steps (members replicas_three) a a' \<and>
     p_hist a' 2 = Some [entry_7] \<and> p_log a' ''A'' = [entry_7]"
proof -
  obtain c c' where r: "replicas_reach sum_crc replicas_three c" "replicas_reach sum_crc c c'"
    "c_nodes c' ''A'' = Some (fst A5, snd A5)" "c_nodes c' ''B'' = Some (fst B5, snd B5)"
    using sample_run by metis
  have r': "replicas_reach sum_crc replicas_three c'" by (rule replicas_reach_trans [OF r(1,2)])
  from replicas_refine_protocol [OF three_replicas_init r'] obtain a a' where p: "proto_init a"
    "proto_steps (members replicas_three) a a'" and
    a': "\<forall>i n s. c_nodes c' i = Some (n, s) \<longrightarrow> p_term a' i = unat (n_term n) \<and> p_log a' i = n_entries n \<and>
      (n_role n = Leader \<longrightarrow> p_hist a' (unat (n_term n)) = Some (n_entries n))"
    by blast
  have "p_log a' ''A'' = [entry_7]" using a' [rule_format, OF r(3)] by (simp add: run_seen)
  moreover have "p_hist a' 2 = Some [entry_7]" using a' [rule_format, OF r(4)] by (simp add: run_seen)
  ultimately show ?thesis using p r' by blast
qed

theorem log_matching_witness: "take (Suc 0) (n_entries (fst A5)) = take (Suc 0) (n_entries (fst B5))"
proof -
  obtain c c' where r: "replicas_reach sum_crc replicas_three c" "replicas_reach sum_crc c c'"
    "c_nodes c' ''A'' = Some (fst A5, snd A5)" "c_nodes c' ''B'' = Some (fst B5, snd B5)"
    using sample_run by metis
  show ?thesis
    by (rule log_matching [OF three_replicas_init replicas_reach_trans [OF r(1,2)] r(3,4)]) (simp_all add: run_seen)
qed

theorem state_machine_safety_witness: "n_entries (fst A4) ! 0 = entry_7 \<and> n_entries (fst A4) ! 0 = n_entries (fst B5) ! 0"
proof -
  obtain c c' where r: "replicas_reach sum_crc replicas_three c" "replicas_reach sum_crc c c'"
    "c_nodes c ''A'' = Some (fst A4, snd A4)" "c_nodes c' ''B'' = Some (fst B5, snd B5)"
    using sample_run by metis
  have "0 < length (n_entries (fst A4)) \<and> 0 < length (n_entries (fst B5)) \<and> n_entries (fst A4) ! 0 = n_entries (fst B5) ! 0"
    by (rule state_machine_safety [OF three_replicas_init r(1,2,3) _ r(4)]) (simp_all add: run_seen)
  then show ?thesis by (simp add: run_seen)
qed

theorem leader_completeness_witness: "n_term (fst B5) = 2 \<and> le_term entry_7 = 1 \<and> n_entries (fst B5) ! 0 = entry_7"
proof -
  obtain c c' where r: "replicas_reach sum_crc replicas_three c" "replicas_reach sum_crc c c'"
    "entry_7 \<in> c_returned c" "c_nodes c' ''B'' = Some (fst B5, snd B5)"
    using sample_run by metis
  have "0 < unat (le_index entry_7) \<and> unat (le_index entry_7) \<le> length (n_entries (fst B5)) \<and>
      n_entries (fst B5) ! (unat (le_index entry_7) - 1) = entry_7"
    by (rule leader_completeness [OF three_replicas_init r]) (simp_all add: run_seen entry_7_def)
  then show ?thesis by (simp add: run_seen entry_7_def)
qed

end
