(* ===== verification/Replicas_Durable.thy ===== *)
theory Replicas_Durable
  imports Replicas_Properties
begin









end
