(* ===== verification/Replicas_Findings.thy ===== *)
theory Replicas_Findings
  imports Replicas_Sample
begin

text \<open>
  An acknowledged entry that a loss of power takes. In the run of \<open>Replicas_Sample\<close> the process of \<open>C\<close> dies while it
  syncs the entry it has written. The next start reads the entry back from the file, which \<open>WAL::open\<close> does not sync; when
  the leader sends the entry again, \<open>C\<close> finds that it has it, writes nothing and answers with success. The
  entry still is not on disk.
\<close>

text \<open>Evaluated: \<open>C\<close> acknowledges the entry after the restart, and after a loss of power it starts with an empty log.\<close>

definition C_again :: "(append_entries_response, raft_error) res \<times> raft_node \<times> fs" where
  "C_again = on_append_entries sum_crc still send_7 C0'"

definition acknowledges :: "(append_entries_response, raft_error) res \<Rightarrow> bool" where
  "acknowledges r = (case r of Ok resp \<Rightarrow> aer_success resp | _ \<Rightarrow> False)"

fun log_at_start :: "(raft_node, raft_error) res \<times> fs \<Rightarrow> log_entry list option" where
  "log_at_start (Ok n, s) = Some (rl_entries (n_log n))"
| "log_at_start _ = None"

lemma open_leaves_recovered_unsynced:
  "acknowledges (fst C_again) \<and>
   rl_entries (n_log (fst (state_after C_again))) = [entry_7] \<and>
   log_at_start (node_start sum_crc still (n_config node_C) (power_loss (snd (state_after C_again)))) = Some []"
  by code_simp

text \<open>Without the death the entry survives.\<close>

lemma undisturbed_entry_survives:
  "log_at_start (node_start sum_crc still (n_config node_C)
     (power_loss (snd (state_after (on_append_entries sum_crc still send_7 (node_C, started_fs ''C'')))))) = Some [entry_7]"
  by code_simp

end
