(* ===== verification/Unit_Tests.thy ===== *)
theory Unit_Tests
  imports Sample_Run Snapshot Persistent_State
begin

text \<open>
  The unit tests of the repository, run on the model: each test is a definition that follows its body, and a lemma that
  it passes. \<open>unwrap\<close> on an error or a panic fails the test. A temporary directory is an empty file system, the
  checksum is the sum of the bytes.
\<close>

unbundle bit_operations_syntax

definition unwrap_then :: "('a, 'e) res \<times> 's \<Rightarrow> ('a \<Rightarrow> 's \<Rightarrow> bool) \<Rightarrow> bool" where
  "unwrap_then m k = (case m of (Ok x, s) \<Rightarrow> k x s | (Err e, s) \<Rightarrow> False | (Panic, s) \<Rightarrow> False)"

definition unwrap :: "('a, 'e) res \<Rightarrow> ('a \<Rightarrow> bool) \<Rightarrow> bool" where
  "unwrap r k = (case r of Ok x \<Rightarrow> k x | Err e \<Rightarrow> False | Panic \<Rightarrow> False)"

declare unwrap_then_def [code_unfold] unwrap_def [code_unfold]

abbreviation tmp :: path where
  "tmp \<equiv> [''tmp'']"

section \<open>\<open>entry.rs\<close>\<close>

definition test_roundtrip_empty_payload :: bool where
  "test_roundtrip_empty_payload \<longleftrightarrow>
     unwrap (entry_decode sum_crc (entry_encode sum_crc 1 []) 0) (\<lambda>(e, consumed).
       sequence e = 1 \<and> data e = [] \<and> consumed = HEADER_SIZE)"

lemma roundtrip_empty_payload: "test_roundtrip_empty_payload"
  by code_simp

definition test_roundtrip_with_data :: bool where
  "test_roundtrip_with_data \<longleftrightarrow>
     (let payload = as_bytes ''hello, WAL!'' in
     unwrap (entry_decode sum_crc (entry_encode sum_crc 42 payload) 0) (\<lambda>(e, consumed).
       sequence e = 42 \<and> data e = payload \<and> consumed = HEADER_SIZE + length payload))"

lemma roundtrip_with_data: "test_roundtrip_with_data"
  by code_simp

definition test_detects_truncated_header :: bool where
  "test_detects_truncated_header \<longleftrightarrow>
     (case entry_decode sum_crc (take 4 (entry_encode sum_crc 1 (as_bytes ''data''))) 0 of
       Err (UnexpectedEof i) \<Rightarrow> True | _ \<Rightarrow> False)"

lemma detects_truncated_header: "test_detects_truncated_header"
  by code_simp

definition test_detects_truncated_data :: bool where
  "test_detects_truncated_data \<longleftrightarrow>
     (case entry_decode sum_crc (take (HEADER_SIZE + 2) (entry_encode sum_crc 1 (as_bytes ''hello''))) 0 of
       Err (UnexpectedEof i) \<Rightarrow> True | _ \<Rightarrow> False)"

lemma detects_truncated_data: "test_detects_truncated_data"
  by code_simp

definition test_detects_corrupted_payload :: bool where
  "test_detects_corrupted_payload \<longleftrightarrow>
     (let encoded = entry_encode sum_crc 1 (as_bytes ''important data''); last = length encoded - 1 in
     case entry_decode sum_crc (encoded[last := encoded ! last XOR 0xFF]) 0 of
       Err (ChecksumMismatch i a b) \<Rightarrow> True | _ \<Rightarrow> False)"

lemma detects_corrupted_payload: "test_detects_corrupted_payload"
  by code_simp

definition test_multiple_entries_in_stream :: bool where
  "test_multiple_entries_in_stream \<longleftrightarrow>
     unwrap (read_loop sum_crc (entry_encode sum_crc 1 (as_bytes ''first'') @ entry_encode sum_crc 2 (as_bytes ''second'') @
         entry_encode sum_crc 3 (as_bytes ''third'')) 0) (\<lambda>es.
       length es = 3 \<and> data (es ! 0) = as_bytes ''first'' \<and> sequence (es ! 2) = 3)"

lemma multiple_entries_in_stream: "test_multiple_entries_in_stream"
  by code_simp

section \<open>\<open>checkpoint.rs\<close>\<close>

definition test_starts_at_zero_on_fresh_dir :: bool where
  "test_starts_at_zero_on_fresh_dir \<longleftrightarrow>
     unwrap_then (checkpoint_open tmp empty_fs) (\<lambda>cp s. cp_sequence cp = 0)"

lemma starts_at_zero_on_fresh_dir: "test_starts_at_zero_on_fresh_dir"
  by code_simp

definition test_persists_across_reopen :: bool where
  "test_persists_across_reopen \<longleftrightarrow>
     unwrap_then (checkpoint_open tmp empty_fs) (\<lambda>cp s.
     unwrap_then (checkpoint_advance 100 (cp, s)) (\<lambda>_ (cp, s).
     unwrap_then (checkpoint_open tmp s) (\<lambda>cp s. cp_sequence cp = 100)))"

lemma persists_across_reopen: "test_persists_across_reopen"
  by code_simp

definition test_advance_is_monotonic :: bool where
  "test_advance_is_monotonic \<longleftrightarrow>
     unwrap_then (checkpoint_open tmp empty_fs) (\<lambda>cp s.
     unwrap_then (checkpoint_advance 50 (cp, s)) (\<lambda>_ cs.
     unwrap_then (checkpoint_advance 30 cs) (\<lambda>_ (cp, s). cp_sequence cp = 50)))"

lemma advance_is_monotonic: "test_advance_is_monotonic"
  by code_simp

definition test_advance_same_value_is_idempotent :: bool where
  "test_advance_same_value_is_idempotent \<longleftrightarrow>
     unwrap_then (checkpoint_open tmp empty_fs) (\<lambda>cp s.
     unwrap_then (checkpoint_advance 7 (cp, s)) (\<lambda>_ cs.
     unwrap_then (checkpoint_advance 7 cs) (\<lambda>_ (cp, s). cp_sequence cp = 7)))"

lemma advance_same_value_is_idempotent: "test_advance_same_value_is_idempotent"
  by code_simp

section \<open>\<open>segment.rs\<close>\<close>

definition test_create_segment_is_empty :: bool where
  "test_create_segment_is_empty \<longleftrightarrow>
     unwrap_then (segment_create tmp 1 DEFAULT_MAX_SEGMENT_BYTES empty_fs) (\<lambda>g s.
       seg_id g = 1 \<and> seg_size g = 0 \<and> path_exists (seg_path g) s)"

lemma create_segment_is_empty: "test_create_segment_is_empty"
  by code_simp

definition test_append_increases_size :: bool where
  "test_append_increases_size \<longleftrightarrow>
     unwrap_then (segment_create tmp 1 DEFAULT_MAX_SEGMENT_BYTES empty_fs) (\<lambda>g s.
     let encoded = entry_encode sum_crc 1 (as_bytes ''hello'') in
     unwrap_then (segment_append encoded (g, s)) (\<lambda>_ (g, s). unat (seg_size g) = length encoded))"

lemma append_increases_size: "test_append_increases_size"
  by code_simp

text \<open>The loops of the tests: append all entries in order, create all segments.\<close>

fun append_all :: "(u64 \<times> bytes) list \<Rightarrow> (segment, unit, wal_error) meth" where
  "append_all [] gs = (Ok (), gs)"
| "append_all ((i, d) # ds) gs = and_then (segment_append (entry_encode sum_crc i d) gs) (\<lambda>_ gs. append_all ds gs)"

fun create_all :: "u64 list \<Rightarrow> (unit, wal_error) call" where
  "create_all [] s = (Ok (), s)"
| "create_all (i # is) s = and_then (segment_create tmp i DEFAULT_MAX_SEGMENT_BYTES s) (\<lambda>_ s. create_all is s)"

fun ids_of :: "path list \<Rightarrow> (u64 list, wal_error) res" where
  "ids_of [] = Ok []"
| "ids_of (p # ps) = (case segment_id_from_path p of Ok i \<Rightarrow> (case ids_of ps of Ok is \<Rightarrow> Ok (i # is) | r \<Rightarrow> r) | Err e \<Rightarrow> Err e | Panic \<Rightarrow> Panic)"

definition test_read_entries_roundtrip :: bool where
  "test_read_entries_roundtrip \<longleftrightarrow>
     unwrap_then (segment_create tmp 1 DEFAULT_MAX_SEGMENT_BYTES empty_fs) (\<lambda>g s.
     unwrap_then (append_all (map (\<lambda>i. (of_nat i, as_bytes (''entry '' @ dec_digits i))) [1..<6]) (g, s)) (\<lambda>_ gs.
     unwrap_then (segment_flush gs) (\<lambda>_ (g, s).
     unwrap_then (read_entries sum_crc (seg_path g) s) (\<lambda>es s.
       length es = 5 \<and>
       list_all (\<lambda>(i, e). sequence e = of_nat (i + 1) \<and> data e = as_bytes (''entry '' @ dec_digits (i + 1))) (List.enumerate 0 es)))))"

lemma read_entries_roundtrip: "test_read_entries_roundtrip"
  by code_simp

definition test_segment_full_error :: bool where
  "test_segment_full_error \<longleftrightarrow>
     unwrap_then (segment_create tmp 1 10 empty_fs) (\<lambda>g s.
     case segment_append (entry_encode sum_crc 1 (as_bytes ''this is way too big'')) (g, s) of
       (Err (SegmentFull n m k), gs) \<Rightarrow> True | _ \<Rightarrow> False)"

lemma segment_full_error: "test_segment_full_error"
  by code_simp

definition test_segment_path_roundtrip :: bool where
  "test_segment_path_roundtrip \<longleftrightarrow>
     unwrap (segment_id_from_path (segment_path tmp 999)) (\<lambda>i. i = 999)"

lemma segment_path_roundtrip: "test_segment_path_roundtrip"
  by code_simp

definition test_list_segments_returns_sorted_order :: bool where
  "test_list_segments_returns_sorted_order \<longleftrightarrow>
     unwrap_then (create_all [3, 1, 5, 2, 4] empty_fs) (\<lambda>_ s.
     unwrap_then (list_segments tmp s) (\<lambda>paths s.
     unwrap (ids_of paths) (\<lambda>ids. ids = [1, 2, 3, 4, 5])))"

lemma list_segments_returns_sorted_order: "test_list_segments_returns_sorted_order"
  by code_simp

definition test_invalid_filename_returns_error :: bool where
  "test_invalid_filename_returns_error \<longleftrightarrow>
     (case segment_id_from_path [''tmp'', ''notasegment.txt''] of
       Err (InvalidSegmentFilename f) \<Rightarrow> True | _ \<Rightarrow> False)"

lemma invalid_filename_returns_error: "test_invalid_filename_returns_error"
  by code_simp

section \<open>\<open>persistent_state.rs\<close>\<close>

definition test_fresh_dir_is_term_zero_no_vote :: bool where
  "test_fresh_dir_is_term_zero_no_vote \<longleftrightarrow>
     unwrap_then (ps_open tmp empty_fs) (\<lambda>p s. ps_current_term p = 0 \<and> ps_voted_for p = None)"

lemma fresh_dir_is_term_zero_no_vote: "test_fresh_dir_is_term_zero_no_vote"
  by code_simp

definition test_persists_and_reloads :: bool where
  "test_persists_and_reloads \<longleftrightarrow>
     unwrap_then (ps_open tmp empty_fs) (\<lambda>p s.
     unwrap_then (advance_term 5 (p, s)) (\<lambda>_ ps.
     unwrap_then (record_vote ''node-2'' ps) (\<lambda>_ (p, s).
     unwrap_then (ps_open tmp s) (\<lambda>p s. ps_current_term p = 5 \<and> ps_voted_for p = Some ''node-2''))))"

lemma persists_and_reloads: "test_persists_and_reloads"
  by code_simp

definition test_advance_term_clears_vote :: bool where
  "test_advance_term_clears_vote \<longleftrightarrow>
     unwrap_then (ps_open tmp empty_fs) (\<lambda>p s.
     unwrap_then (advance_term 3 (p, s)) (\<lambda>_ ps.
     unwrap_then (record_vote ''node-1'' ps) (\<lambda>_ ps.
     unwrap_then (advance_term 4 ps) (\<lambda>_ (p, s). ps_voted_for p = None))))"

lemma advance_term_clears_vote: "test_advance_term_clears_vote"
  by code_simp

section \<open>\<open>raft/snapshot.rs\<close>\<close>

definition test_save_and_load_roundtrip :: bool where
  "test_save_and_load_roundtrip \<longleftrightarrow>
     unwrap_then (snapshot_save tmp \<lparr>sn_last_included_index = 42, sn_last_included_term = 3, sn_data = as_bytes ''hello snapshot''\<rparr> empty_fs)
     (\<lambda>_ s. unwrap_then (snapshot_load tmp s) (\<lambda>loaded s.
        case loaded of None \<Rightarrow> False
        | Some sn \<Rightarrow> sn_last_included_index sn = 42 \<and> sn_last_included_term sn = 3 \<and> sn_data sn = as_bytes ''hello snapshot''))"

lemma save_and_load_roundtrip: "test_save_and_load_roundtrip"
  by code_simp

definition test_load_returns_none_when_missing :: bool where
  "test_load_returns_none_when_missing \<longleftrightarrow>
     unwrap_then (snapshot_load tmp empty_fs) (\<lambda>loaded s. loaded = None)"

lemma load_returns_none_when_missing: "test_load_returns_none_when_missing"
  by code_simp

definition test_encode_decode_entries_roundtrip :: bool where
  "test_encode_decode_entries_roundtrip \<longleftrightarrow>
     (case decode_entries (encode_entries
         [\<lparr>le_term = 1, le_index = 1, le_data = as_bytes ''a''\<rparr>, \<lparr>le_term = 1, le_index = 2, le_data = as_bytes ''bb''\<rparr>,
          \<lparr>le_term = 2, le_index = 3, le_data = as_bytes ''ccc''\<rparr>]) of
       None \<Rightarrow> False | Some es \<Rightarrow> length es = 3 \<and> le_data (es ! 2) = as_bytes ''ccc'')"

lemma encode_decode_entries_roundtrip: "test_encode_decode_entries_roundtrip"
  by code_simp

section \<open>\<open>raft/log.rs\<close>\<close>

definition open_log :: "(raft_log, raft_error) call" where
  "open_log = raft_log_open sum_crc \<lparr>wc_dir = tmp, wc_max_segment_bytes = 1024 * 1024, wc_sync_writes = False\<rparr>"

fun log_all :: "(u64 \<times> bytes) list \<Rightarrow> (raft_log, u64 list, raft_error) meth" where
  "log_all [] ls = (Ok [], ls)"
| "log_all ((t, d) # ds) ls = and_then (raft_log_append sum_crc t d ls) (\<lambda>i ls. and_then (log_all ds ls) (\<lambda>is ls. (Ok (i # is), ls)))"

text \<open>The entries \<open>e1\<close>, \<open>e2\<close>, \<open>\<dots>\<close> of term 1.\<close>

definition e_entries :: "nat \<Rightarrow> (u64 \<times> bytes) list" where
  "e_entries n = map (\<lambda>i. (1, as_bytes (''e'' @ dec_digits i))) [1..<n + 1]"

definition test_append_assigns_sequential_indices :: bool where
  "test_append_assigns_sequential_indices \<longleftrightarrow>
     unwrap_then (open_log empty_fs) (\<lambda>l s.
     unwrap_then (log_all [(1, as_bytes ''a''), (1, as_bytes ''b''), (2, as_bytes ''c'')] (l, s)) (\<lambda>is (l, s).
       is = [1, 2, 3] \<and> last_index l = 3 \<and> last_term l = 2))"

lemma append_assigns_sequential_indices: "test_append_assigns_sequential_indices"
  by code_simp

definition test_term_at_returns_correct_term :: bool where
  "test_term_at_returns_correct_term \<longleftrightarrow>
     unwrap_then (open_log empty_fs) (\<lambda>l s.
     unwrap_then (log_all [(1, as_bytes ''entry in term 1''), (2, as_bytes ''entry in term 2'')] (l, s)) (\<lambda>_ (l, s).
       term_at l 1 = Some 1 \<and> term_at l 2 = Some 2 \<and> term_at l 3 = None))"

lemma term_at_returns_correct_term: "test_term_at_returns_correct_term"
  by code_simp

definition test_truncate_removes_trailing_entries :: bool where
  "test_truncate_removes_trailing_entries \<longleftrightarrow>
     unwrap_then (open_log empty_fs) (\<lambda>l s.
     unwrap_then (log_all (e_entries 5) (l, s)) (\<lambda>_ ls.
     unwrap_then (truncate_from sum_crc 3 ls) (\<lambda>_ (l, s).
       last_index l = 2 \<and> unwrap (entries_from l 1) (\<lambda>es. length es = 2))))"

lemma truncate_removes_trailing_entries: "test_truncate_removes_trailing_entries"
  by code_simp

definition test_survives_crash_and_recovery :: bool where
  "test_survives_crash_and_recovery \<longleftrightarrow>
     unwrap_then (open_log empty_fs) (\<lambda>l s.
     unwrap_then (log_all [(1, as_bytes ''x''), (1, as_bytes ''y''), (2, as_bytes ''z'')] (l, s)) (\<lambda>_ (l, s).
     unwrap_then (open_log s) (\<lambda>l s.
       last_index l = 3 \<and> term_at l 3 = Some 2 \<and> unwrap (entries_from l 2) (\<lambda>es. le_data (es ! 0) = as_bytes ''y''))))"

lemma survives_crash_and_recovery: "test_survives_crash_and_recovery"
  by code_simp

definition test_truncation_survives_crash :: bool where
  "test_truncation_survives_crash \<longleftrightarrow>
     unwrap_then (open_log empty_fs) (\<lambda>l s.
     unwrap_then (log_all [(1, as_bytes ''keep''), (1, as_bytes ''discard'')] (l, s)) (\<lambda>_ ls.
     unwrap_then (truncate_from sum_crc 2 ls) (\<lambda>_ (l, s).
     unwrap_then (open_log s) (\<lambda>l s.
       last_index l = 1 \<and> unwrap (entries_from l 1) (\<lambda>es. le_data (es ! 0) = as_bytes ''keep'')))))"

lemma truncation_survives_crash: "test_truncation_survives_crash"
  by code_simp

definition test_compact_removes_entries_and_updates_snapshot_index :: bool where
  "test_compact_removes_entries_and_updates_snapshot_index \<longleftrightarrow>
     unwrap_then (open_log empty_fs) (\<lambda>l s.
     unwrap_then (log_all (e_entries 5) (l, s)) (\<lambda>_ ls.
     unwrap_then (compact sum_crc 3 1 ls) (\<lambda>_ (l, s).
       rl_snapshot_index l = 3 \<and> rl_snapshot_term l = 1 \<and> last_index l = 5 \<and>
       unwrap (entries_from l 1) (\<lambda>es. es = [] \<or> 3 < le_index (es ! 0)) \<and>
       unwrap (entries_from l 4) (\<lambda>tail. length tail = 2 \<and> le_index (tail ! 0) = 4))))"

lemma compact_removes_entries_and_updates_snapshot_index: "test_compact_removes_entries_and_updates_snapshot_index"
  by code_simp

definition test_compact_survives_crash :: bool where
  "test_compact_survives_crash \<longleftrightarrow>
     unwrap_then (open_log empty_fs) (\<lambda>l s.
     unwrap_then (log_all (e_entries 5) (l, s)) (\<lambda>_ ls.
     unwrap_then (compact sum_crc 3 1 ls) (\<lambda>_ (l, s).
     unwrap_then (open_log s) (\<lambda>l s.
       rl_snapshot_index l = 3 \<and> last_index l = 5 \<and>
       unwrap (entries_from l 4) (\<lambda>tail. length tail = 2 \<and> le_data (tail ! 1) = as_bytes ''e5'')))))"

lemma compact_survives_crash: "test_compact_survives_crash"
  by code_simp

definition test_install_snapshot_resets_log :: bool where
  "test_install_snapshot_resets_log \<longleftrightarrow>
     unwrap_then (open_log empty_fs) (\<lambda>l s.
     unwrap_then (log_all (e_entries 3) (l, s)) (\<lambda>_ ls.
     unwrap_then (install_snapshot sum_crc 5 2 ls) (\<lambda>_ (l, s).
       rl_snapshot_index l = 5 \<and> last_index l = 5 \<and> last_term l = 2 \<and> unwrap (entries_from l 1) (\<lambda>es. es = []))))"

lemma install_snapshot_resets_log: "test_install_snapshot_resets_log"
  by code_simp

definition test_term_at_snapshot_index_returns_snapshot_term :: bool where
  "test_term_at_snapshot_index_returns_snapshot_term \<longleftrightarrow>
     unwrap_then (open_log empty_fs) (\<lambda>l s.
     unwrap_then (log_all [(1, as_bytes ''a''), (1, as_bytes ''b'')] (l, s)) (\<lambda>_ ls.
     unwrap_then (compact sum_crc 2 1 ls) (\<lambda>_ (l, s).
       term_at l 2 = Some 1 \<and> term_at l 1 = None)))"

lemma term_at_snapshot_index_returns_snapshot_term: "test_term_at_snapshot_index_returns_snapshot_term"
  by code_simp

end
