(* ===== verification/Wal_Packing.thy ===== *)
theory Wal_Packing
  imports Wal_Run
begin

text \<open>
  Which entry goes to which segment: appending fills the active segment as long as the next record fits and then starts
  the next one, as a function of the lengths of the payloads only. With \<open>wal_truncate_rep\<close> this says
  exactly which entries a truncation leaves.
\<close>

section \<open>A list of appends\<close>

fun append_each :: "(bytes \<Rightarrow> u32) \<Rightarrow> bytes list \<Rightarrow> (wal, u64 list, wal_error) meth" where
  "append_each crc [] ws = (Ok [], ws)"
| "append_each crc (d # ds) ws = and_then (wal_append crc d ws) (\<lambda>i ws. and_then (append_each crc ds ws) (\<lambda>is ws. (Ok (i # is), ws)))"

fun number_from :: "u64 \<Rightarrow> bytes list \<Rightarrow> entry list" where
  "number_from q [] = []"
| "number_from q (d # ds) = \<lparr>sequence = q, data = d\<rparr> # number_from (q + 1) ds"

section \<open>Packing\<close>

type_synonym layout = "(u64 \<times> entry list) list \<times> u64 \<times> entry list"

definition filled :: "entry list \<Rightarrow> nat" where
  "filled es = (\<Sum>e\<leftarrow>es. HEADER_SIZE + length (data e))"

fun pack :: "nat \<Rightarrow> entry \<Rightarrow> layout \<Rightarrow> layout" where
  "pack cap e (sealed, i, act) =
     (if cap < filled act + HEADER_SIZE + length (data e) then (sealed @ [(i, act)], i + 1, [e]) else (sealed, i, act @ [e]))"

fun pack_all :: "nat \<Rightarrow> entry list \<Rightarrow> layout \<Rightarrow> layout" where
  "pack_all cap [] y = y"
| "pack_all cap (e # es) y = pack_all cap es (pack cap e y)"

fun contents :: "layout \<Rightarrow> entry list" where
  "contents (sealed, i, act) = concat (map snd sealed) @ act"

lemma contents_pack [simp]: "contents (pack cap e y) = contents y @ [e]"
  by (cases y) simp

lemma contents_pack_all [simp]: "contents (pack_all cap es y) = contents y @ es"
  by (induction es arbitrary: y) auto

text \<open>No segment is larger than it may be.\<close>

fun within :: "nat \<Rightarrow> layout \<Rightarrow> bool" where
  "within cap (sealed, i, act) \<longleftrightarrow> (\<forall>es \<in> insert act (snd ` set sealed). filled es \<le> cap)"

lemma pack_within: "within cap y \<Longrightarrow> HEADER_SIZE + length (data e) \<le> cap \<Longrightarrow> within cap (pack cap e y)"
  by (cases y) (auto simp: filled_def)

lemma pack_all_within:
  "within cap y \<Longrightarrow> \<forall>e \<in> set es. HEADER_SIZE + length (data e) \<le> cap \<Longrightarrow> within cap (pack_all cap es y)"
  by (induction es arbitrary: y) (auto simp: pack_within)

lemma number_from_data [simp]: "map data (number_from q ds) = ds" "length (number_from q ds) = length ds"
  by (induction ds arbitrary: q) auto

section \<open>The WAL packs\<close>

fun laid_out :: "(bytes \<Rightarrow> u32) \<Rightarrow> wal \<Rightarrow> fs \<Rightarrow> layout \<Rightarrow> bool" where
  "laid_out crc w s (sealed, i, act) \<longleftrightarrow> wal_rep crc w s sealed act \<and> seg_id (w_active w) = i"

lemma laid_out_holds: "laid_out crc w s y \<Longrightarrow> wal_holds crc w s (contents y)"
  by (cases y) (auto simp: wal_holds_def)

lemma length_encode_all_filled: "length (encode_all crc es) = filled es"
  by (induction es) (auto simp: filled_def)

lemma wal_append_packs:
  assumes lay: "laid_out crc w s y" and room: "wal_room w d"
  shows "\<exists>w' s'. wal_append crc d (w, s) = (Ok (w_next_sequence w), (w', s')) \<and>
    laid_out crc w' s' (pack (unat (wc_max_segment_bytes (w_config w))) \<lparr>sequence = w_next_sequence w, data = d\<rparr> y) \<and>
    w_next_sequence w' = w_next_sequence w + 1 \<and> w_config w' = w_config w"
proof -
  obtain sealed i act where y: "y = (sealed, i, act)" by (metis prod_cases3)
  have rep: "wal_rep crc w s sealed act" and i: "seg_id (w_active w) = i" using lay y by simp_all
  have "active_ok crc (w_config w) (w_active w) act" using rep by (simp add: wal_rep_def)
  from would_overflow_iff [OF this, of d] room
  have "would_overflow (HEADER_SIZE + length d) (w_active w) \<longleftrightarrow>
      unat (wc_max_segment_bytes (w_config w)) < filled act + HEADER_SIZE + length d"
    by (simp add: wal_room_def length_encode_all_filled)
  with wal_append_rep [OF rep room] i show ?thesis
    by (auto simp: y rotated_def new_segment_def split: if_splits)
qed

lemma append_each_packs:
  assumes "laid_out crc w s y" and "wal_budget w (length ds) m" and "\<forall>d \<in> set ds. length d \<le> m"
  shows "\<exists>w' s'. append_each crc ds (w, s) = (Ok (map sequence (number_from (w_next_sequence w) ds)), (w', s')) \<and>
    laid_out crc w' s' (pack_all (unat (wc_max_segment_bytes (w_config w))) (number_from (w_next_sequence w) ds) y) \<and>
    w_config w' = w_config w"
  using assms
proof (induction ds arbitrary: w s y)
  case Nil
  then show ?case by simp
next
  case (Cons d ds)
  have b: "wal_budget w (Suc (length ds)) m" and d: "length d \<le> m" using Cons.prems by simp_all
  obtain w1 s1 where a: "wal_append crc d (w, s) = (Ok (w_next_sequence w), (w1, s1))"
    "laid_out crc w1 s1 (pack (unat (wc_max_segment_bytes (w_config w))) \<lparr>sequence = w_next_sequence w, data = d\<rparr> y)"
    "w_next_sequence w1 = w_next_sequence w + 1" "w_config w1 = w_config w"
    using wal_append_packs [OF Cons.prems(1) wal_budget_room [OF b d]] by blast
  have "wal_budget w1 (length ds) m" by (rule wal_budget_append [OF laid_out_holds [OF Cons.prems(1)] b d a(1)])
  from Cons.IH [OF a(2) this] Cons.prems(3) a show ?case by auto
qed

lemma wal_truncate_packed:
  assumes "laid_out crc w s (sealed, i, act)"
  shows "\<exists>w' s'. wal_truncate_before crc q (w, s) = (Ok (), (w', s')) \<and> laid_out crc w' s' (kept q sealed, i, act)"
  using wal_truncate_rep [of crc w s sealed act q] assms by fastforce

text \<open>The same from an empty directory.\<close>

lemma packed_fresh:
  assumes "healthy s" and "wf_fs s" and "dir_exact (wc_dir cfg) [] s" and "unat (wc_max_segment_bytes cfg) < 2 ^ 63"
    and "length ds < 2 ^ 63" and "\<forall>d \<in> set ds. length d \<le> m" and "m < 2 ^ 32" and "HEADER_SIZE + m \<le> unat (wc_max_segment_bytes cfg)"
  shows "\<exists>w0 s0 w s'. wal_open crc cfg s = (Ok w0, s0) \<and>
    append_each crc ds (w0, s0) = (Ok (map sequence (number_from 1 ds)), (w, s')) \<and>
    laid_out crc w s' (pack_all (unat (wc_max_segment_bytes cfg)) (number_from 1 ds) ([], 1, []))"
proof -
  obtain w0 s0 where o: "wal_open crc cfg s = (Ok w0, s0)" "wal_rep crc w0 s0 [] []" "w_config w0 = cfg"
    "w_next_sequence w0 = 1" "w_active w0 = new_segment cfg 1"
    using wal_open_fresh [OF assms(1-4)] by blast
  then have "laid_out crc w0 s0 ([], 1, [])" "wal_budget w0 (length ds) m"
    using assms(5,7,8) by (simp_all add: new_segment_def wal_budget_def)
  from append_each_packs [OF this assms(6)] o show ?thesis by auto
qed

end
