(* ===== verification/Integration_Tests.thy ===== *)
theory Integration_Tests
  imports Unit_Tests Wal_Packing
begin

text \<open>
  The integration tests of \<open>wal-core\<close>, and those of \<open>compaction_test.rs\<close> that run a log or a snapshot file without a
  server, run on the model as the unit tests are. The tests with many entries follow from the lemmas of \<open>Wal_Packing\<close>. A test that opens the WAL twice opens it the second time on the files that
  the first one left; dropping a WAL flushes nothing that its calls have not written.
\<close>

section \<open>Helpers\<close>

definition small_segments :: "u64 \<Rightarrow> bool \<Rightarrow> wal_config" where
  "small_segments m sync = \<lparr>wc_dir = tmp, wc_max_segment_bytes = m, wc_sync_writes = sync\<rparr>"

definition open_wal :: "u64 \<Rightarrow> bool \<Rightarrow> (wal, wal_error) call" where
  "open_wal m sync = wal_open sum_crc (small_segments m sync)"

text \<open>\<open>format!("{prefix}{i}")\<close> for \<open>i\<close> from 1, with the number padded to \<open>w\<close> digits.\<close>

definition numbered_texts :: "string \<Rightarrow> nat \<Rightarrow> nat \<Rightarrow> bytes list" where
  "numbered_texts prefix w n = map (\<lambda>i. as_bytes (prefix @ zero_padded w i)) [1..<n + 1]"

lemma many_appends:
  assumes "unat cap < 2 ^ 63" and "length ds < 2 ^ 63" and "\<forall>d \<in> set ds. length d \<le> m" and "m < 2 ^ 32" and "HEADER_SIZE + m \<le> unat cap"
    and k: "\<And>w s. laid_out sum_crc w s (pack_all (unat cap) (number_from 1 ds) ([], 1, [])) \<Longrightarrow> k (map sequence (number_from 1 ds)) (w, s)"
  shows "unwrap_then (open_wal cap sync empty_fs) (\<lambda>w s. unwrap_then (append_each sum_crc ds (w, s)) k)"
proof -
  let ?cfg = "small_segments cap sync"
  obtain w0 s0 w s' where "wal_open sum_crc ?cfg empty_fs = (Ok w0, s0)"
    "append_each sum_crc ds (w0, s0) = (Ok (map sequence (number_from 1 ds)), (w, s'))"
    "laid_out sum_crc w s' (pack_all (unat cap) (number_from 1 ds) ([], 1, []))"
    using packed_fresh [of empty_fs ?cfg ds m sum_crc] assms(1-5) by (auto simp: small_segments_def)
  with k show ?thesis by (simp add: unwrap_then_def open_wal_def)
qed

lemma laid_out_read:
  "laid_out crc w s y \<Longrightarrow> wal_read_from crc w q s = (Ok (filter (\<lambda>e. q \<le> sequence e) (contents y)), s)"
  by (rule wal_read_from_holds [OF laid_out_holds])

section \<open>\<open>wal-core/tests/integration_test.rs\<close>\<close>

definition test_append_returns_monotonic_sequence_numbers :: bool where
  "test_append_returns_monotonic_sequence_numbers \<longleftrightarrow>
     unwrap_then (open_wal 512 False empty_fs) (\<lambda>w s.
     unwrap_then (wal_append sum_crc (as_bytes ''first'') (w, s)) (\<lambda>seq1 ws.
     unwrap_then (wal_append sum_crc (as_bytes ''second'') ws) (\<lambda>seq2 ws.
     unwrap_then (wal_append sum_crc (as_bytes ''third'') ws) (\<lambda>seq3 ws.
       seq1 = 1 \<and> seq2 = 2 \<and> seq3 = 3))))"

lemma append_returns_monotonic_sequence_numbers: "test_append_returns_monotonic_sequence_numbers"
  by code_simp

definition test_read_from_start_returns_all_entries :: bool where
  "test_read_from_start_returns_all_entries \<longleftrightarrow>
     unwrap_then (open_wal 512 False empty_fs) (\<lambda>w s.
     unwrap_then (append_each sum_crc [as_bytes ''alpha'', as_bytes ''beta'', as_bytes ''gamma''] (w, s)) (\<lambda>_ (w, s).
     unwrap_then (wal_read_from sum_crc w 1 s) (\<lambda>entries s.
       length entries = 3 \<and> data (entries ! 0) = as_bytes ''alpha'' \<and> data (entries ! 1) = as_bytes ''beta'' \<and>
       data (entries ! 2) = as_bytes ''gamma'')))"

lemma read_from_start_returns_all_entries: "test_read_from_start_returns_all_entries"
  by code_simp

definition test_read_from_filters_earlier_sequences :: bool where
  "test_read_from_filters_earlier_sequences \<longleftrightarrow>
     unwrap_then (open_wal 512 False empty_fs) (\<lambda>w s.
     unwrap_then (append_each sum_crc (numbered_texts ''entry '' 0 10) (w, s)) (\<lambda>_ (w, s).
     unwrap_then (wal_read_from sum_crc w 6 s) (\<lambda>entries s.
       length entries = 5 \<and> sequence (entries ! 0) = 6 \<and> sequence (entries ! 4) = 10)))"

lemma entries_from_6:
  "(let es = filter (\<lambda>e. 6 \<le> sequence e) (number_from 1 (numbered_texts ''entry '' 0 10)) in
     length es = 5 \<and> sequence (es ! 0) = 6 \<and> sequence (es ! 4) = 10)"
  by code_simp

lemma entries_short: "list_all (\<lambda>d. length d \<le> 8) (numbered_texts ''entry '' 0 10)"
  by code_simp

lemma length_numbered_texts [simp]: "length (numbered_texts prefix w n) = n"
  by (simp add: numbered_texts_def)

lemma read_from_filters_earlier_sequences: "test_read_from_filters_earlier_sequences"
  unfolding test_read_from_filters_earlier_sequences_def
proof (rule many_appends [where m = 8])
  fix w s
  assume "laid_out sum_crc w s (pack_all (unat (512 :: u64)) (number_from 1 (numbered_texts ''entry '' 0 10)) ([], 1, []))"
  from laid_out_read [OF this] entries_from_6
  show "case (w, s) of (w, s) \<Rightarrow> unwrap_then (wal_read_from sum_crc w 6 s) (\<lambda>entries s.
      length entries = 5 \<and> sequence (entries ! 0) = 6 \<and> sequence (entries ! 4) = 10)"
    by (simp add: unwrap_then_def Let_def)
qed (use entries_short in \<open>simp_all add: list_all_iff HEADER_SIZE_def\<close>)

definition test_data_survives_rotation_across_multiple_segments :: bool where
  "test_data_survives_rotation_across_multiple_segments \<longleftrightarrow>
     unwrap_then (open_wal 80 False empty_fs) (\<lambda>w s.
     unwrap_then (append_each sum_crc (numbered_texts ''record-'' 4 30) (w, s)) (\<lambda>_ (w, s).
     unwrap_then (wal_read_from sum_crc w 1 s) (\<lambda>entries s.
       length entries = 30 \<and>
       list_all (\<lambda>(i, e). sequence e = of_nat (i + 1) \<and> data e = as_bytes (''record-'' @ zero_padded 4 (i + 1)))
         (List.enumerate 0 entries))))"

lemma records_numbered:
  "(let es = filter (\<lambda>e. 1 \<le> sequence e) (number_from 1 (numbered_texts ''record-'' 4 30)) in
     length es = 30 \<and>
     list_all (\<lambda>(i, e). sequence e = of_nat (i + 1) \<and> data e = as_bytes (''record-'' @ zero_padded 4 (i + 1))) (List.enumerate 0 es))"
  by code_simp

lemma records_short: "list_all (\<lambda>d. length d \<le> 11) (numbered_texts ''record-'' 4 30)"
  by code_simp

lemma data_survives_rotation_across_multiple_segments: "test_data_survives_rotation_across_multiple_segments"
  unfolding test_data_survives_rotation_across_multiple_segments_def
proof (rule many_appends [where m = 11])
  fix w s
  assume "laid_out sum_crc w s (pack_all (unat (80 :: u64)) (number_from 1 (numbered_texts ''record-'' 4 30)) ([], 1, []))"
  from laid_out_read [OF this] records_numbered
  show "case (w, s) of (w, s) \<Rightarrow> unwrap_then (wal_read_from sum_crc w 1 s) (\<lambda>entries s. length entries = 30 \<and>
      list_all (\<lambda>(i, e). sequence e = of_nat (i + 1) \<and> data e = as_bytes (''record-'' @ zero_padded 4 (i + 1))) (List.enumerate 0 entries))"
    by (simp add: unwrap_then_def Let_def)
qed (use records_short in \<open>simp_all add: list_all_iff HEADER_SIZE_def\<close>)

definition test_recover_replays_only_entries_after_checkpoint :: bool where
  "test_recover_replays_only_entries_after_checkpoint \<longleftrightarrow>
     unwrap_then (open_wal 4096 True empty_fs) (\<lambda>w s.
     unwrap_then (append_each sum_crc [as_bytes ''tx-1 committed'', as_bytes ''tx-2 committed''] (w, s)) (\<lambda>_ ws.
     unwrap_then (wal_checkpoint 2 ws) (\<lambda>_ ws.
     unwrap_then (wal_append sum_crc (as_bytes ''tx-3 in-flight'') ws) (\<lambda>_ (w, s).
     unwrap_then (open_wal 4096 True s) (\<lambda>w s.
     unwrap_then (wal_recover sum_crc w s) (\<lambda>pending s.
       length pending = 1 \<and> sequence (pending ! 0) = 3 \<and> data (pending ! 0) = as_bytes ''tx-3 in-flight''))))))"

lemma recover_replays_only_entries_after_checkpoint: "test_recover_replays_only_entries_after_checkpoint"
  by code_simp

definition test_recover_returns_nothing_when_all_entries_are_checkpointed :: bool where
  "test_recover_returns_nothing_when_all_entries_are_checkpointed \<longleftrightarrow>
     unwrap_then (open_wal 4096 True empty_fs) (\<lambda>w s.
     unwrap_then (append_each sum_crc [as_bytes ''a'', as_bytes ''b''] (w, s)) (\<lambda>_ ws.
     unwrap_then (wal_checkpoint 2 ws) (\<lambda>_ (w, s).
     unwrap_then (open_wal 4096 True s) (\<lambda>w s.
     unwrap_then (wal_recover sum_crc w s) (\<lambda>pending s. pending = [])))))"

lemma recover_returns_nothing_when_all_entries_are_checkpointed: "test_recover_returns_nothing_when_all_entries_are_checkpointed"
  by code_simp

definition test_sequence_continues_after_reopen :: bool where
  "test_sequence_continues_after_reopen \<longleftrightarrow>
     unwrap_then (open_wal 4096 False empty_fs) (\<lambda>w s.
     unwrap_then (wal_append sum_crc (as_bytes ''entry A'') (w, s)) (\<lambda>_ ws.
     unwrap_then (wal_append sum_crc (as_bytes ''entry B'') ws) (\<lambda>last_seq (w, s).
     unwrap_then (open_wal 4096 False s) (\<lambda>w s.
     unwrap_then (wal_append sum_crc (as_bytes ''entry C'') (w, s)) (\<lambda>next ws. next = last_seq + 1)))))"

lemma sequence_continues_after_reopen: "test_sequence_continues_after_reopen"
  by code_simp

definition test_all_entries_visible_after_reopen :: bool where
  "test_all_entries_visible_after_reopen \<longleftrightarrow>
     unwrap_then (open_wal 4096 False empty_fs) (\<lambda>w s.
     unwrap_then (append_each sum_crc [as_bytes ''persisted-1'', as_bytes ''persisted-2''] (w, s)) (\<lambda>_ (w, s).
     unwrap_then (open_wal 4096 False s) (\<lambda>w s.
     unwrap_then (wal_append sum_crc (as_bytes ''new-3'') (w, s)) (\<lambda>_ (w, s).
     unwrap_then (wal_read_from sum_crc w 1 s) (\<lambda>entries s.
       length entries = 3 \<and> data (entries ! 0) = as_bytes ''persisted-1'' \<and> data (entries ! 2) = as_bytes ''new-3'')))))"

lemma all_entries_visible_after_reopen: "test_all_entries_visible_after_reopen"
  by code_simp

definition test_truncate_removes_sealed_segments_before_threshold :: bool where
  "test_truncate_removes_sealed_segments_before_threshold \<longleftrightarrow>
     unwrap_then (open_wal 80 False empty_fs) (\<lambda>w s.
     unwrap_then (append_each sum_crc (numbered_texts ''data-'' 3 20) (w, s)) (\<lambda>_ ws.
     unwrap_then (wal_truncate_before sum_crc 10 ws) (\<lambda>_ (w, s).
     unwrap_then (wal_read_from sum_crc w 1 s) (\<lambda>entries s.
       list_all (\<lambda>e. 10 \<le> sequence e) entries \<and> entries \<noteq> []))))"

text \<open>Segments of 80 bytes take three entries of 24 bytes each, so that the ninth entry is the last of the third segment.\<close>

lemma kept_from_10:
  "case pack_all 80 (number_from 1 (numbered_texts ''data-'' 3 20)) ([], 1, []) of (sealed, i, act) \<Rightarrow>
     (let es = filter (\<lambda>e. 1 \<le> sequence e) (contents (kept 10 sealed, i, act)) in list_all (\<lambda>e. 10 \<le> sequence e) es \<and> es \<noteq> [])"
  by code_simp

lemma data_short: "list_all (\<lambda>d. length d \<le> 8) (numbered_texts ''data-'' 3 20)"
  by code_simp

lemma truncate_removes_sealed_segments_before_threshold: "test_truncate_removes_sealed_segments_before_threshold"
  unfolding test_truncate_removes_sealed_segments_before_threshold_def
proof (rule many_appends [where m = 8])
  fix w s
  assume lay: "laid_out sum_crc w s (pack_all (unat (80 :: u64)) (number_from 1 (numbered_texts ''data-'' 3 20)) ([], 1, []))"
  obtain sealed i act where y: "pack_all 80 (number_from 1 (numbered_texts ''data-'' 3 20)) ([], 1, []) = (sealed, i, act)"
    by (metis prod_cases3)
  with lay have "laid_out sum_crc w s (sealed, i, act)" by simp
  from wal_truncate_packed [OF this, of 10] obtain w' s' where
    t: "wal_truncate_before sum_crc 10 (w, s) = (Ok (), (w', s'))" "laid_out sum_crc w' s' (kept 10 sealed, i, act)" by blast
  show "unwrap_then (wal_truncate_before sum_crc 10 (w, s)) (\<lambda>_ (w, s). unwrap_then (wal_read_from sum_crc w 1 s) (\<lambda>entries s.
      list_all (\<lambda>e. 10 \<le> sequence e) entries \<and> entries \<noteq> []))"
    using kept_from_10 unfolding y by (simp add: unwrap_then_def t(1) laid_out_read [OF t(2)] Let_def)
qed (use data_short in \<open>simp_all add: list_all_iff HEADER_SIZE_def\<close>)

definition test_empty_payload_is_valid :: bool where
  "test_empty_payload_is_valid \<longleftrightarrow>
     unwrap_then (open_wal 512 False empty_fs) (\<lambda>w s.
     unwrap_then (wal_append sum_crc [] (w, s)) (\<lambda>seq (w, s).
     unwrap_then (wal_read_from sum_crc w seq s) (\<lambda>entries s.
       length entries = 1 \<and> data (entries ! 0) = [])))"

lemma empty_payload_is_valid: "test_empty_payload_is_valid"
  by code_simp

definition test_large_single_entry :: bool where
  "test_large_single_entry \<longleftrightarrow>
     (let big_payload = replicate (512 * 1024) 0xAB in
     unwrap_then (open_wal (1024 * 1024) False empty_fs) (\<lambda>w s.
     unwrap_then (wal_append sum_crc big_payload (w, s)) (\<lambda>seq (w, s).
     unwrap_then (wal_read_from sum_crc w seq s) (\<lambda>entries s. data (entries ! 0) = big_payload))))"

lemma large_single_entry: "test_large_single_entry"
proof -
  let ?d = "replicate (512 * 1024) (0xAB :: u8)" and ?cfg = "small_segments (1024 * 1024) False"
  obtain w0 s0 where o: "wal_open sum_crc ?cfg empty_fs = (Ok w0, s0)" "wal_rep sum_crc w0 s0 [] []" "w_config w0 = ?cfg"
    "w_next_sequence w0 = 1" "w_active w0 = new_segment ?cfg 1"
    using wal_open_fresh [of empty_fs ?cfg sum_crc] by (auto simp: small_segments_def)
  have "wal_holds sum_crc w0 s0 []" "wal_room w0 ?d"
    using o by (auto simp: wal_holds_def wal_room_def small_segments_def new_segment_def HEADER_SIZE_def)
  from wal_append_holds [OF this] o(4) obtain w s where
    a: "wal_append sum_crc ?d (w0, s0) = (Ok 1, (w, s))" "wal_holds sum_crc w s [\<lparr>sequence = 1, data = ?d\<rparr>]" by auto
  show ?thesis
    unfolding test_large_single_entry_def Let_def unwrap_then_def open_wal_def o(1) prod.case res.case a(1) wal_read_from_holds [OF a(2)]
    by simp
qed

definition test_fresh_wal_has_no_pending_recovery_entries :: bool where
  "test_fresh_wal_has_no_pending_recovery_entries \<longleftrightarrow>
     unwrap_then (open_wal 512 False empty_fs) (\<lambda>w s.
     unwrap_then (wal_recover sum_crc w s) (\<lambda>pending s. pending = []))"

lemma fresh_wal_has_no_pending_recovery_entries: "test_fresh_wal_has_no_pending_recovery_entries"
  by code_simp

section \<open>\<open>wal-replication/tests/compaction_test.rs\<close>\<close>

definition open_small_log :: "(raft_log, raft_error) call" where
  "open_small_log = raft_log_open sum_crc \<lparr>wc_dir = path_join tmp ''wal'', wc_max_segment_bytes = 64 * 1024, wc_sync_writes = False\<rparr>"

definition test_install_snapshot_resets_lagging_log :: bool where
  "test_install_snapshot_resets_lagging_log \<longleftrightarrow>
     unwrap_then (open_small_log empty_fs) (\<lambda>l s.
     unwrap_then (log_all (e_entries 5) (l, s)) (\<lambda>_ ls.
     unwrap_then (install_snapshot sum_crc 100 3 ls) (\<lambda>_ (l, s).
       rl_snapshot_index l = 100 \<and> rl_snapshot_term l = 3 \<and> last_index l = 100 \<and> term_at l 100 = Some 3 \<and>
       unwrap (entries_from l 1) (\<lambda>es. es = []) \<and> term_at l 99 = None)))"

lemma install_snapshot_resets_lagging_log: "test_install_snapshot_resets_lagging_log"
  by code_simp

definition test_snapshot_save_load_is_crash_safe :: bool where
  "test_snapshot_save_load_is_crash_safe \<longleftrightarrow>
     (let dat = map of_nat [0..<64] in
     unwrap_then (snapshot_save tmp \<lparr>sn_last_included_index = 500, sn_last_included_term = 7, sn_data = dat\<rparr> empty_fs) (\<lambda>_ s.
     unwrap_then (snapshot_load tmp s) (\<lambda>loaded s.
       case loaded of None \<Rightarrow> False
       | Some sn \<Rightarrow> sn_last_included_index sn = 500 \<and> sn_last_included_term sn = 7 \<and> sn_data sn = dat)))"

lemma snapshot_save_load_is_crash_safe: "test_snapshot_save_load_is_crash_safe"
  by code_simp

end
