(* ===== verification/Spec2Isabelle.thy ===== *)
theory Spec2Isabelle
  imports Wal_Properties Log_Properties Cluster_Properties Findings Node_Findings Replicas_Durable Replicas_Findings Unit_Tests Integration_Tests
begin

text \<open>
  A verification development for the write-ahead log \<open>wal-core\<close> and its Raft replication \<open>wal-replication\<close>.

  \<^bold>\<open>The program.\<close> \<open>wal-core\<close> keeps numbered entries in segment files of a directory: \<open>entry.rs\<close> encodes one entry with a
  CRC, \<open>segment.rs\<close> writes and reads one file, \<open>checkpoint.rs\<close> keeps one number in a file, and \<open>wal.rs\<close> puts them
  together (open, append with rotation, read, checkpoint, recover, truncate). \<open>wal-replication\<close> builds a Raft node on
  it: \<open>raft/log.rs\<close> stores log entries, truncations and snapshot points as records of a WAL and replays them on open,
  \<open>persistent_state.rs\<close> keeps term and vote, \<open>raft/snapshot.rs\<close> the snapshot file, \<open>raft/node.rs\<close> is the actor with its
  handlers, \<open>server.rs\<close> the gRPC services over it, and \<open>wal-server/src/main.rs\<close> the binary.

  \<^bold>\<open>The model, theory by theory.\<close>
  \<^item> \<open>Rust_Base\<close>, \<open>Rust_Str\<close>: machine words, the result type with panics and the operator \<open>?\<close>, little-endian bytes,
    strings, decimal numbers, paths.
  \<^item> \<open>File_System\<close>: the calls of \<open>std::fs\<close> and \<open>BufWriter\<close> on an explicit file system with a schedule of faults.
  \<^item> \<open>Entry\<close>, \<open>Checkpoint\<close>, \<open>Segment\<close>, \<open>Wal\<close>: \<open>entry.rs\<close>, \<open>checkpoint.rs\<close>, \<open>segment.rs\<close>, \<open>wal.rs\<close>, one definition
    per function, one record per struct.
  \<^item> \<open>Raft_Log\<close>, \<open>Snapshot\<close>, \<open>Persistent_State\<close>: \<open>raft/log.rs\<close>, \<open>raft/snapshot.rs\<close>, \<open>persistent_state.rs\<close>.
  \<^item> \<open>Raft_Node\<close>: \<open>config.rs\<close> and the follower and election side of \<open>raft/node.rs\<close>; \<open>Raft_Replication\<close>: the leader side,
    snapshots, the actor loop and its handle. \<open>Server\<close>: \<open>server.rs\<close> and what of \<open>main.rs\<close> is not I/O.
  \<^item> \<open>Cluster\<close>: nodes with their disks, the messages sent and answered, and steps for a handled message, a heartbeat, a
    campaign, an election and a crash inside any of them followed by a restart.
  \<^item> \<open>Write_Phases\<close>: \<open>on_client_write\<close> split at its await, and the proof that the halves are the whole; \<open>Replicas\<close>: a
    cluster that replicates, with the requests sent, the answers given, the writes in progress and the entries whose
    write was reported as done, and the deaths of processes inside their handlers. \<open>Raft_Protocol\<close>: the abstract protocol, without disks, messages and timers.

  \<^bold>\<open>Interfaces\<close> are locales, each interpreted on the model: \<open>codec\<close> (\<open>Codec\<close>: the entry format, the entries of a
  snapshot), \<open>durable_cell\<close> (\<open>Durable_Cell\<close>: checkpoint, vote and snapshot file), \<open>record_log\<close> (\<open>Record_Log\<close>: what the
  replicated log needs of a WAL, provided in \<open>Wal_Log\<close>), \<open>quorum_system\<close> (\<open>Quorum\<close>: majorities).

  \<^bold>\<open>The proofs.\<close>
  \<^item> \<open>Wal_Rep\<close> relates a WAL and its directory to lists of entries per segment, \<open>Wal_Log\<close> to one list; \<open>Wal_Spec\<close> is the
    abstract log machine and the simulation, \<open>Wal_Run\<close> whole runs; \<open>Wal_Crash\<close> an append cut short by any fault.
  \<^item> \<open>Outcome\<close> and \<open>Confinement\<close>: rules for what a run keeps whatever fails; every operation stays in its directory.
  \<^item> \<open>Raft_Log_Rep\<close> and \<open>Log_Frame\<close>: memory and disk of the replicated log agree through every operation, within a
    budget of records.
  \<^item> \<open>Node_Rep\<close> (restart), \<open>Follower\<close> (AppendEntries, RequestVote), \<open>Leader\<close> (requests, acknowledgments, a round of
    replication), \<open>Compaction\<close> (snapshots), \<open>Progress\<close> (elections that are won, writes that commit), \<open>Backtracking\<close> (the
    search for the point of agreement): a healthy node, functionally.
  \<^item> \<open>Ballots\<close>, \<open>Handlers_Evolve\<close>, \<open>Restart\<close>: term and vote never go back, whatever fails; \<open>Cluster\<close>: the invariant from
    which election safety follows.
  \<^item> \<open>Raft_Protocol\<close> proves its own invariant (one log per term, log matching, what a majority acknowledged is in every
    later leader's log); \<open>Protocol_Follower\<close> turns the merge of a request's entries into steps of it;
    \<open>Replicas_Simulate\<close> relates it to \<open>Replicas\<close> and \<open>Replicas_Steps\<close> simulates every step. \<open>Replicas_Properties\<close> has the
    consequences: log matching, state machine safety, leader completeness.
  \<^item> Deaths inside handlers. A process that dies at a call is a schedule of faults that passes some calls, perhaps writes a
    part of the bytes of the next and refuses all later ones: the disk at the end is the disk at the moment of death.
    \<open>Stopping\<close> has the rules for runs under such a schedule: as soon as a call is refused nothing changes any more,
    so that of an operation only the part before the death matters. \<open>Log_Crash\<close> says what a record, an append and a
    truncation leave when they are cut short: the old log or the new one, or a file that \<open>WAL::open\<close> refuses.
    \<open>Node_Crash\<close> says it of \<open>on_append_entries\<close>, whose disk opens to a log between the old one and the merged one, and of
    the start after the death; \<open>Replicas_Crash\<close> turns every death into steps of the protocol.
  \<^item> \<open>Durability\<close>: every operation syncs the log it leaves, and a node that starts after a loss of power has it;
    \<open>Replicas_Durable\<close>: so it is at every moment of an orderly run of \<open>Replicas\<close>, one in which processes stop between two
    events. After a death inside a handler it need not be, see \<open>open_leaves_recovered_unsynced\<close>. Term and vote are not synced, see
    \<open>two_votes_after_power_loss\<close>.
  \<^item> \<open>Wal_Properties\<close>, \<open>Log_Properties\<close>, \<open>Node_Properties\<close>, \<open>Cluster_Properties\<close> state the properties with a witness
    each, on the settings of \<open>Sample_Run\<close> and \<open>Sample_Node\<close> and the run of \<open>Replicas_Sample\<close>; \<open>Findings\<close>,
    \<open>Node_Findings\<close> and \<open>Replicas_Findings\<close> are runs where the code does not do what it means to.
  \<^item> \<open>Wal_Packing\<close>: which entry goes to which segment, as a function of the lengths of the payloads. \<open>Unit_Tests\<close>: the unit
    tests of the source files, each one evaluated on the model; \<open>Integration_Tests\<close>: the integration tests that need no
    server.

  \<^bold>\<open>Conventions.\<close> Integers of the code are words of their width, with the wrap-around of a release build; \<open>usize\<close> is
  64 bits and appears as \<open>nat\<close> where it measures or indexes a list in memory. An operation with \<open>&mut self\<close> is a function
  from the state and the file system to a result and the new state; an error leaves the state as the code does,
  partly changed or not. The file system consumes one element of its fault schedule per call: pass, fail, or write
  only some bytes; the empty schedule is a file system without faults. A loss of power takes each file back to its
  last \<open>sync_all\<close>; directory operations are durable at once. Directories are implicit. Loops are structural recursion, or
  recursion with a measure (\<open>read_loop\<close>); there is no fuel in the model (\<open>negotiate\<close> in \<open>Backtracking\<close> repeats calls of
  the code and bounds their number; the bound is proved to suffice).

  \<^bold>\<open>Parameters.\<close> The CRC is an arbitrary function of bytes. Time and the random election timeout are an \<open>env\<close>; each handler
  reads the clock once. The network is a function from a request to an answer or none, arbitrary in every theorem
  that does not restrict it; in \<open>Cluster\<close> the votes a candidate counts are answers that peers have given. Named
  hypotheses bound counters (\<open>wal_room\<close>, \<open>wal_budget\<close>, \<open>log_budget\<close>): sequence numbers, segment numbers and indices
  below \<open>2 ^ 64\<close>, records that fit a segment.

  \<^bold>\<open>Two clusters.\<close> \<open>Cluster\<close> lets disks fail and nodes crash at any call and allows every message, and proves election
  safety. \<open>Replicas\<close> is about the contents of the logs, where the code does not keep the protocol's promises in every
  circumstance: processes may die at any call of any handler, but while a process lives its disk has no faults, and
  it assumes room for the records and runs in which no snapshot is taken; the findings show that each of faults that a
  process survives, losses of power and snapshots breaks log matching or loses entries. Where a death leaves a torn
  record the start fails, and the node takes part in no further step. Requests are those that some node has sent, in
  any order, any number of times or never; the answers that a candidate or a leader counts are answers that a peer
  gave to that request. A node that waits for answers handles no other event, as the actor awaits them inside its
  handler.

  \<^bold>\<open>Not modelled.\<close> \<open>PeerClient\<close> and \<open>start_server\<close> (calls into tonic, with a timeout; the errors \<open>Transport\<close> and \<open>Status\<close> that only they
  produce), the code generated from \<open>wal.proto\<close>, metrics and log lines, command-line parsing and sockets of the
  binary, the scheduling of tokio (the actor handles one event at a time, which is how the code uses it), the
  integration tests that start servers, and the benchmarks. Log matching is proved for clusters without snapshots only: installing snapshots breaks it, as
  \<open>late_entry_appended_past_snapshot\<close> shows.
\<close>

end
